(* ===== verification/Prelude.thy ===== *)
theory Prelude
  imports Complex_Main "HOL-Library.Word"
begin

text \<open>
  Shared vocabulary of the development: the result type in which every operation of the C code
  that can leave defined behaviour returns, checked array accesses, byte copies, and the
  first-match tables in which \<^verbatim>\<open>flow_control.c\<close> keeps its sessions.

  \<^item> \<open>fault\<close> names the ways in which the C program leaves its defined behaviour (an access outside an
    object, a dereference of a null or of a freed pointer, a signed overflow, a call of \<^verbatim>\<open>exit\<close>, a loop
    of which no end is in sight); \<open>'a res\<close> is a result or a fault.
    A theorem that an operation returns \<open>Inr\<close> is a memory-safety theorem.
  \<^item> \<open>rd\<close> and \<open>wr\<close> are the indexed read and write of a C array, with the bound written out.
  \<^item> \<open>session_table\<close> is the interface of a linked list whose nodes are found by a key and changed
    in place; it is interpreted here on lists searched from the front.
  \<^item> \<open>simulation\<close> is the interface between a step relation and a more abstract one.
\<close>

unbundle bit_operations_syntax

type_synonym byte = "8 word"

section \<open>Faults and results\<close>

datatype fault = Out_Of_Bounds | Null_Deref | Dangling | Int_Overflow | Exit_Called | Out_Of_Fuel

type_synonym 'a res = "fault + 'a"

definition rbind :: "'a res \<Rightarrow> ('a \<Rightarrow> 'b res) \<Rightarrow> 'b res" where
  "rbind m f = (case m of Inl e \<Rightarrow> Inl e | Inr x \<Rightarrow> f x)"

named_theorems res_simps \<open>how faults propagate\<close>
named_theorems layout_simps \<open>sizes and layouts of arrays and packets\<close>

lemma rbind_Inr [simp]: "rbind (Inr x) f = f x"
  by (simp add: rbind_def)

lemma rbind_Inl [simp]: "rbind (Inl e) f = Inl e"
  by (simp add: rbind_def)

lemma rbind_eq_Inr [res_simps]: "rbind m f = Inr y \<longleftrightarrow> (\<exists>x. m = Inr x \<and> f x = Inr y)"
  by (cases m) auto

lemma rbind_cong [fundef_cong]:
  "m = m' \<Longrightarrow> (\<And>x. m' = Inr x \<Longrightarrow> f x = f' x) \<Longrightarrow> rbind m f = rbind m' f'"
  by (cases m') (auto simp: rbind_def)

section \<open>Checked array accesses\<close>

definition in_range :: "int \<Rightarrow> 'a list \<Rightarrow> bool" where
  "in_range i xs \<longleftrightarrow> 0 \<le> i \<and> i < int (length xs)"

definition rd :: "'a list \<Rightarrow> int \<Rightarrow> 'a res" where
  "rd xs i = (if in_range i xs then Inr (xs ! nat i) else Inl Out_Of_Bounds)"

definition wr :: "'a list \<Rightarrow> int \<Rightarrow> 'a \<Rightarrow> 'a list res" where
  "wr xs i v = (if in_range i xs then Inr (xs[nat i := v]) else Inl Out_Of_Bounds)"

lemma in_range_update [simp]: "in_range i (xs[k := v]) = in_range i xs"
  by (simp add: in_range_def)

lemma rd_ok [simp]: "in_range i xs \<Longrightarrow> rd xs i = Inr (xs ! nat i)"
  by (simp add: rd_def)

lemma wr_ok [simp]: "in_range i xs \<Longrightarrow> wr xs i v = Inr (xs[nat i := v])"
  by (simp add: wr_def)

lemma rd_eq_Inr [res_simps]: "rd xs i = Inr v \<longleftrightarrow> in_range i xs \<and> v = xs ! nat i"
  by (auto simp: rd_def)

lemma wr_eq_Inr [res_simps]: "wr xs i v = Inr ys \<longleftrightarrow> in_range i xs \<and> ys = xs[nat i := v]"
  by (auto simp: wr_def)

lemma rd_fault [simp]: "\<not> in_range i xs \<Longrightarrow> rd xs i = Inl Out_Of_Bounds"
  by (simp add: rd_def)

lemma wr_fault [simp]: "\<not> in_range i xs \<Longrightarrow> wr xs i v = Inl Out_Of_Bounds"
  by (simp add: wr_def)

section \<open>Copying into a buffer\<close>

text \<open>\<open>blit dst k src\<close> is the memory after \<^verbatim>\<open>memcpy(&dst[k], src, length src)\<close>, when it fits.\<close>

definition blit :: "'a list \<Rightarrow> nat \<Rightarrow> 'a list \<Rightarrow> 'a list" where
  "blit dst k src = take k dst @ src @ drop (k + length src) dst"

lemma length_blit [layout_simps]: "k + length src \<le> length dst \<Longrightarrow> length (blit dst k src) = length dst"
  by (simp add: blit_def)

lemma blit_0: "blit dst 0 src = src @ drop (length src) dst"
  by (simp add: blit_def)

lemma take_blit_0 [simp]: "take (length src) (blit dst 0 src) = src"
  by (simp add: blit_def)

lemma blit_Nil [simp]: "blit xs k [] = xs"
  by (simp add: blit_def)

lemma blit_update_Suc:
  "k < length xs \<Longrightarrow> blit (xs[k := v]) (Suc k) (replicate m v) = blit xs k (replicate (Suc m) v)"
  by (simp add: blit_def take_Suc_conv_app_nth)

lemma nth_blit:
  "k + length src \<le> length dst \<Longrightarrow> i < length dst \<Longrightarrow>
     blit dst k src ! i = (if k \<le> i \<and> i < k + length src then src ! (i - k) else dst ! i)"
  by (auto simp: blit_def nth_append)

section \<open>Tables searched from the front\<close>

fun upd_first :: "('a \<Rightarrow> bool) \<Rightarrow> 'a \<Rightarrow> 'a list \<Rightarrow> 'a list" where
  "upd_first P v [] = []"
| "upd_first P v (x # xs) = (if P x then v # xs else x # upd_first P v xs)"

lemma length_upd_first [simp]: "length (upd_first P v xs) = length xs"
  by (induction xs) auto

lemma upd_first_absent: "List.find P xs = None \<Longrightarrow> upd_first P v xs = xs"
  by (induction xs) (auto split: if_splits)

lemma set_upd_first: "y \<in> set (upd_first P v xs) \<Longrightarrow> y = v \<or> y \<in> set xs"
  by (induction xs) (auto split: if_splits)

lemma find_Some_in_set: "List.find P xs = Some x \<Longrightarrow> x \<in> set xs \<and> P x"
  by (induction xs) (auto split: if_splits)

lemma find_upd_first_same: "List.find P xs = Some x \<Longrightarrow> P v \<Longrightarrow> List.find P (upd_first P v xs) = Some v"
  by (induction xs) (auto split: if_splits)

lemma find_upd_first_other:
  "\<not> Q v \<Longrightarrow> (\<And>x. P x \<Longrightarrow> \<not> Q x) \<Longrightarrow> List.find Q (upd_first P v xs) = List.find Q xs"
  by (induction xs) auto

locale session_table =
  fixes lookup :: "'k \<Rightarrow> 't \<Rightarrow> 'v option"
    and store :: "'v \<Rightarrow> 't \<Rightarrow> 't"
    and push :: "'v \<Rightarrow> 't \<Rightarrow> 't"
    and key :: "'v \<Rightarrow> 'k"
  assumes lookup_key: "lookup k t = Some v \<Longrightarrow> key v = k"
    and lookup_store: "lookup (key v) t \<noteq> None \<Longrightarrow>
      lookup k (store v t) = (if k = key v then Some v else lookup k t)"
    and store_absent: "lookup (key v) t = None \<Longrightarrow> store v t = t"
    and lookup_push: "lookup k (push v t) = (if k = key v then Some v else lookup k t)"
begin

lemma store_same: "lookup k t = Some v \<Longrightarrow> key v' = k \<Longrightarrow> lookup k (store v' t) = Some v'"
  by (simp add: lookup_store)

lemma store_other: "k \<noteq> key v \<Longrightarrow> lookup k (store v t) = lookup k t"
  by (cases "lookup (key v) t") (simp_all add: lookup_store store_absent)

lemma push_same: "lookup (key v) (push v t) = Some v"
  by (simp add: lookup_push)

lemma push_other: "k \<noteq> key v \<Longrightarrow> lookup k (push v t) = lookup k t"
  by (simp add: lookup_push)

lemma push_hides_old: "lookup k (push v t) = Some w \<Longrightarrow> k = key v \<Longrightarrow> w = v"
  by (simp add: lookup_push)

lemma store_idem: "lookup (key v) t \<noteq> None \<Longrightarrow> lookup k (store v (store v t)) = lookup k (store v t)"
  by (simp add: lookup_store)

end

text \<open>A list of nodes with a key field is such a table, whatever the field.\<close>

lemma keyed_list_table:
  "session_table (\<lambda>k. List.find (\<lambda>x. key x = k)) (\<lambda>v. upd_first (\<lambda>x. key x = key v) v) (#) key"
proof unfold_locales
  fix k t v assume "List.find (\<lambda>x. key x = k) t = Some v"
  then show "key v = k" using find_Some_in_set by fastforce
next
  fix v t k assume "List.find (\<lambda>x. key x = key v) t \<noteq> None"
  then show "List.find (\<lambda>x. key x = k) (upd_first (\<lambda>x. key x = key v) v t) =
      (if k = key v then Some v else List.find (\<lambda>x. key x = k) t)"
    by (cases "k = key v") (auto simp: find_upd_first_same intro!: find_upd_first_other)
qed (auto simp: upd_first_absent)

section \<open>Fixed-size lists\<close>

lemma nth_replicate_int: "0 \<le> i \<Longrightarrow> i < int n \<Longrightarrow> replicate n v ! nat i = v"
  by simp

lemma in_range_replicate [simp]: "in_range i (replicate n v) \<longleftrightarrow> 0 \<le> i \<and> i < int n"
  by (simp add: in_range_def)

section \<open>Simulations\<close>

text \<open>
  Every step from a related pair of states is matched by abstract steps, possibly none; then so is every run.
\<close>

locale simulation =
  fixes cstep :: "'c \<Rightarrow> 'c \<Rightarrow> bool" and astep :: "'a \<Rightarrow> 'a \<Rightarrow> bool" and rel :: "'c \<Rightarrow> 'a \<Rightarrow> bool"
  assumes simulates: "rel c a \<Longrightarrow> cstep c c' \<Longrightarrow> \<exists>a'. astep\<^sup>*\<^sup>* a a' \<and> rel c' a'"
begin

lemma run:
  assumes "cstep\<^sup>*\<^sup>* c c'" "rel c a"
  shows "\<exists>a'. astep\<^sup>*\<^sup>* a a' \<and> rel c' a'"
  using assms
proof (induction rule: rtranclp_induct)
  case (step c1 c2)
  then obtain a1 where "astep\<^sup>*\<^sup>* a a1" "rel c1 a1" by blast
  with simulates [OF this(2) step.hyps(2)] show ?case by (meson rtranclp_trans)
qed blast

end

end
