(* ===== verification/Packet.thy ===== *)
theory Packet
  imports Prelude
begin

text \<open>
  The packet format of \<^verbatim>\<open>packet.h\<close> and the codec part of \<^verbatim>\<open>packet.c\<close> (\<^verbatim>\<open>init_packet\<close>,
  \<^verbatim>\<open>build_packet_from_buf\<close>, the header conversion that opens \<^verbatim>\<open>handle_packet\<close>), with the conversion that
  \<^verbatim>\<open>peer.c\<close> applies before \<^verbatim>\<open>spiffy_sendto\<close>.

  The target is the one of the \<^verbatim>\<open>Makefile\<close>: gcc on a little-endian machine with signed \<^verbatim>\<open>char\<close>. A packet
  is the record of its fields as they stand in memory; \<open>packet_bytes\<close> is its memory image (16 bytes
  of header without padding, then the data array), \<open>build_packet_from_buf\<close> the cast of a received
  buffer. \<^verbatim>\<open>init_packet\<close> copies a four byte array that has no terminating NUL with \<^verbatim>\<open>strcat\<close>; the bytes that
  follow that array on the stack are the parameter \<open>stk\<close> of the model.
\<close>

section \<open>Byte order\<close>

definition htons :: "16 word \<Rightarrow> 16 word" where
  "htons w = push_bit 8 w OR drop_bit 8 w"

definition htonl :: "32 word \<Rightarrow> 32 word" where
  "htonl w = push_bit 24 w OR push_bit 16 (take_bit 8 (drop_bit 8 w))
    OR push_bit 8 (take_bit 8 (drop_bit 16 w)) OR drop_bit 24 w"

abbreviation ntohs :: "16 word \<Rightarrow> 16 word" where "ntohs \<equiv> htons"
abbreviation ntohl :: "32 word \<Rightarrow> 32 word" where "ntohl \<equiv> htonl"

lemma ntohs_htons [simp]: "htons (htons w) = w"
  by (rule bit_word_eqI) (auto simp: htons_def bit_simps)

lemma bit_htonl:
  "bit (htonl w) n \<longleftrightarrow>
    (if n < 8 then bit w (n + 24) else if n < 16 then bit w (n + 8)
     else if n < 24 then bit w (n - 8) else n < 32 \<and> bit w (n - 24))"
  using bit_imp_le_length [of w "n + 24"] bit_imp_le_length [of w "n + 8"]
  by (auto simp: htonl_def bit_simps add.commute dest: bit_imp_le_length)

lemma ntohl_htonl [simp]: "htonl (htonl w) = w"
  by (rule bit_word_eqI) (auto simp: bit_htonl)

lemma htonl_0 [simp]: "htonl 0 = 0"
  by (simp add: htonl_def)

text \<open>The little-endian memory images of a \<^verbatim>\<open>short\<close> and of an \<^verbatim>\<open>int\<close>.\<close>

definition le16_bytes :: "16 word \<Rightarrow> byte list" where
  "le16_bytes w = [ucast w, ucast (drop_bit 8 w)]"

definition le16 :: "byte list \<Rightarrow> 16 word" where
  "le16 bs = ucast (bs ! 0) OR push_bit 8 (ucast (bs ! 1))"

definition le32_bytes :: "32 word \<Rightarrow> byte list" where
  "le32_bytes w = [ucast w, ucast (drop_bit 8 w), ucast (drop_bit 16 w), ucast (drop_bit 24 w)]"

definition le32 :: "byte list \<Rightarrow> 32 word" where
  "le32 bs = ucast (bs ! 0) OR push_bit 8 (ucast (bs ! 1))
    OR push_bit 16 (ucast (bs ! 2)) OR push_bit 24 (ucast (bs ! 3))"

lemma length_le_bytes [simp]: "length (le16_bytes w) = 2" "length (le32_bytes v) = 4"
  by (simp_all add: le16_bytes_def le32_bytes_def)

lemma le16_le16_bytes [simp]: "le16 (le16_bytes w) = w"
  unfolding le16_def le16_bytes_def by (rule bit_word_eqI) (auto simp: bit_simps)

lemma le32_le32_bytes [simp]: "le32 (le32_bytes w) = w"
  unfolding le32_def le32_bytes_def
proof (rule bit_word_eqI, goal_cases)
  case (1 n)
  then show ?case by (cases "n < 16"; cases "n < 24") (auto simp: bit_simps)
qed

lemma sint_small: "0 \<le> i \<Longrightarrow> i < 2 ^ 31 \<Longrightarrow> sint (word_of_int i :: 32 word) = i"
  by (simp add: sint_uint uint_word_of_int signed_take_bit_int_eq_self)

section \<open>Headers and packets\<close>

record header_t =
  magicnum :: "16 word"
  version :: byte
  packet_type :: byte
  header_len :: "16 word"
  packet_len :: "16 word"
  seq_num :: "32 word"
  ack_num :: "32 word"

record data_packet_t =
  header :: header_t
  data :: "byte list"

text \<open>
  \<open>hdr_swap\<close>: the five conversions that end \<^verbatim>\<open>init_packet\<close> and open \<^verbatim>\<open>handle_packet\<close> (\<^verbatim>\<open>htons\<close> and
  \<^verbatim>\<open>ntohs\<close> are the same function). \<open>seq_ack_swap\<close>: the two conversions before sending a response.
\<close>

definition hdr_swap :: "header_t \<Rightarrow> header_t" where
  "hdr_swap h = h\<lparr>magicnum := htons (magicnum h), header_len := htons (header_len h),
     packet_len := htons (packet_len h), seq_num := htonl (seq_num h), ack_num := htonl (ack_num h)\<rparr>"

definition pkt_swap :: "data_packet_t \<Rightarrow> data_packet_t" where
  "pkt_swap p = p\<lparr>header := hdr_swap (header p)\<rparr>"

definition seq_ack_swap :: "data_packet_t \<Rightarrow> data_packet_t" where
  "seq_ack_swap p = p\<lparr>header := (header p)\<lparr>ack_num := ntohl (ack_num (header p)),
     seq_num := ntohl (seq_num (header p))\<rparr>\<rparr>"

lemma hdr_swap_involution [simp]: "hdr_swap (hdr_swap h) = h"
  by (simp add: hdr_swap_def)

lemma pkt_swap_involution [simp]: "pkt_swap (pkt_swap p) = p"
  by (simp add: pkt_swap_def)

section \<open>init_packet\<close>

definition DATA_LEN :: nat where "DATA_LEN = 1200"

lemma DATA_LEN_nat [layout_simps]: "DATA_LEN = 1200"
  by (simp add: DATA_LEN_def)

text \<open>\<open>c_string mem\<close>: the bytes that \<^verbatim>\<open>strcat\<close> copies from \<open>mem\<close>, up to the first NUL.\<close>

definition c_string :: "byte list \<Rightarrow> byte list res" where
  "c_string mem = (if 0 \<in> set mem then Inr (takeWhile (\<lambda>b. b \<noteq> 0) mem) else Inl Out_Of_Bounds)"

definition memcpy :: "byte list \<Rightarrow> nat \<Rightarrow> byte list option \<Rightarrow> nat \<Rightarrow> byte list res" where
  "memcpy dst k src n =
     (case src of
        None \<Rightarrow> if n = 0 then Inr dst else Inl Null_Deref
      | Some bs \<Rightarrow>
          if n \<le> length bs \<and> k + n \<le> length dst then Inr (blit dst k (take n bs))
          else Inl Out_Of_Bounds)"

definition init_packet :: "byte list \<Rightarrow> byte \<Rightarrow> byte list option \<Rightarrow> nat \<Rightarrow> data_packet_t res" where
  "init_packet stk type src len =
     (let data_length = (case src of None \<Rightarrow> 0 | Some _ \<Rightarrow> len);
          h = \<lparr>magicnum = 15441, version = 1, packet_type = type, header_len = 16,
               packet_len = of_nat (data_length + 16), seq_num = 0, ack_num = 0\<rparr>;
          zero = replicate DATA_LEN 0
      in if type = 0 \<or> type = 1 then
           rbind (c_string ([of_nat (data_length div 20), 1, 1, 1] @ stk)) (\<lambda>padding.
           rbind (memcpy zero 0 (Some (padding @ [0])) (length padding + 1)) (\<lambda>d.
           rbind (memcpy d 4 src len) (\<lambda>d.
           Inr \<lparr>header = hdr_swap (h\<lparr>packet_len := packet_len h + 4\<rparr>), data = d\<rparr>)))
         else
           rbind (case src of None \<Rightarrow> Inr zero | Some _ \<Rightarrow> memcpy zero 0 src len) (\<lambda>d.
           Inr \<lparr>header = hdr_swap h, data = d\<rparr>))"

section \<open>Memory image and transmission\<close>

definition packet_bytes :: "data_packet_t \<Rightarrow> byte list" where
  "packet_bytes p = (let h = header p in
     le16_bytes (magicnum h) @ [version h, packet_type h] @ le16_bytes (header_len h)
     @ le16_bytes (packet_len h) @ le32_bytes (seq_num h) @ le32_bytes (ack_num h) @ data p)"

definition build_packet_from_buf :: "byte list \<Rightarrow> data_packet_t" where
  "build_packet_from_buf buf =
     \<lparr>header = \<lparr>magicnum = le16 (take 2 buf), version = buf ! 2, packet_type = buf ! 3,
        header_len = le16 (take 2 (drop 4 buf)), packet_len = le16 (take 2 (drop 6 buf)),
        seq_num = le32 (take 4 (drop 8 buf)), ack_num = le32 (take 4 (drop 12 buf))\<rparr>,
      data = drop 16 buf\<rparr>"

text \<open>
  The bytes handed to \<^verbatim>\<open>spiffy_sendto(sock, packet, ntohs(packet->header.packet_len), ...)\<close>, and the
  \<^verbatim>\<open>BUFLEN\<close>-byte buffer of \<^verbatim>\<open>process_inbound_udp\<close> after a datagram arrived in it: a longer datagram
  is truncated, a shorter one leaves the rest of the buffer as it was.
\<close>

definition sendto_bytes :: "data_packet_t \<Rightarrow> byte list res" where
  "sendto_bytes p =
     (let n = unat (ntohs (packet_len (header p))); image = packet_bytes p
      in if n \<le> length image then Inr (take n image) else Inl Out_Of_Bounds)"

definition recvfrom_into :: "byte list \<Rightarrow> byte list \<Rightarrow> byte list" where
  "recvfrom_into buf msg = take (length buf) msg @ drop (length msg) buf"

section \<open>Laws of the codec\<close>

text \<open>\<open>host_header\<close>: the header a packet has once its fields are back in host order.\<close>

definition host_header :: "byte \<Rightarrow> nat \<Rightarrow> 32 word \<Rightarrow> 32 word \<Rightarrow> header_t" where
  "host_header t n s a = \<lparr>magicnum = 15441, version = 1, packet_type = t, header_len = 16,
     packet_len = of_nat n, seq_num = s, ack_num = a\<rparr>"

lemma host_header_simps [simp]:
  "packet_type (host_header t n s a) = t" "packet_len (host_header t n s a) = of_nat n"
  "header_len (host_header t n s a) = 16"
  "seq_num (host_header t n s a) = s" "ack_num (host_header t n s a) = a"
  by (simp_all add: host_header_def)

lemma hdr_swap_seq_ack [simp]:
  "(hdr_swap (host_header t n 0 0))\<lparr>seq_num := s\<rparr> = hdr_swap (host_header t n (htonl s) 0)"
  "(hdr_swap (host_header t n 0 0))\<lparr>ack_num := s\<rparr> = hdr_swap (host_header t n 0 (htonl s))"
  "packet_len (hdr_swap h) = htons (packet_len h)" "packet_type (hdr_swap h) = packet_type h"
  "seq_num (hdr_swap h) = htonl (seq_num h)" "ack_num (hdr_swap h) = htonl (ack_num h)"
  by (simp_all add: host_header_def hdr_swap_def)

lemma seq_ack_swap_host:
  "seq_ack_swap \<lparr>header = hdr_swap (host_header t n (htonl s) (htonl a)), data = d\<rparr>
     = \<lparr>header = hdr_swap (host_header t n s a), data = d\<rparr>"
  by (simp add: seq_ack_swap_def host_header_def hdr_swap_def)

lemma memcpy_Some:
  "memcpy dst k (Some bs) n =
     (if n \<le> length bs \<and> k + n \<le> length dst then Inr (blit dst k (take n bs)) else Inl Out_Of_Bounds)"
  by (simp add: memcpy_def)

lemma init_packet_plain:
  assumes "t \<noteq> 0" "t \<noteq> 1"
  shows "init_packet stk t (Some src) len =
     (if len \<le> length src \<and> len \<le> 1200
      then Inr \<lparr>header = hdr_swap (host_header t (len + 16) 0 0),
                data = take len src @ replicate (1200 - len) 0\<rparr>
      else Inl Out_Of_Bounds)"
  using assms
  by (simp add: init_packet_def memcpy_Some layout_simps blit_def host_header_def)

lemma init_packet_no_data:
  assumes "t \<noteq> 0" "t \<noteq> 1"
  shows "init_packet stk t None len =
     Inr \<lparr>header = hdr_swap (host_header t 16 0 0), data = replicate 1200 0\<rparr>"
  using assms by (simp add: init_packet_def layout_simps host_header_def)

lemma length_packet_bytes [simp]: "length (packet_bytes p) = 16 + length (data p)"
  by (simp add: packet_bytes_def Let_def)

lemma build_packet_bytes:
  "build_packet_from_buf (packet_bytes p @ rest) = p\<lparr>data := data p @ rest\<rparr>"
  by (simp add: build_packet_from_buf_def packet_bytes_def Let_def nth_append)

lemma build_packet_take:
  assumes "16 \<le> n"
  shows "build_packet_from_buf (take n (packet_bytes p) @ rest) =
    p\<lparr>data := take (n - 16) (data p) @ rest\<rparr>"
proof -
  have "take n (packet_bytes p) = packet_bytes (p\<lparr>data := take (n - 16) (data p)\<rparr>)"
    using assms by (simp add: packet_bytes_def Let_def take_Cons' le_Suc_ex)
  then show ?thesis by (simp add: build_packet_bytes)
qed

text \<open>
  A packet that has left and arrived: with a 1500-byte receive buffer the header is intact and the
  first \<open>n - 16\<close> bytes of the data are those sent, where \<open>n\<close> is the length in the header.
\<close>

definition transmit :: "byte list \<Rightarrow> data_packet_t \<Rightarrow> data_packet_t res" where
  "transmit buf p = rbind (sendto_bytes p) (\<lambda>msg. Inr (build_packet_from_buf (recvfrom_into buf msg)))"

lemma transmit_ok:
  assumes "unat (ntohs (packet_len (header p))) = n" "16 \<le> n" "n \<le> 16 + length (data p)"
    "n \<le> length buf"
  shows "transmit buf p = Inr (p\<lparr>data := take (n - 16) (data p) @ drop n buf\<rparr>)"
  using assms
  by (simp add: transmit_def sendto_bytes_def Let_def recvfrom_into_def build_packet_take min_def)

section \<open>Lists of hashes in WHOHAS and IHAVE packets\<close>

text \<open>
  \<open>packet_count\<close> is \<^verbatim>\<open>int count = packet->data[0]\<close>, a signed \<^verbatim>\<open>char\<close> widened to \<^verbatim>\<open>int\<close>;
  \<open>packet_hash p i\<close> is the copy of the \<open>i\<close>-th hash into a local array.
\<close>

definition packet_count :: "data_packet_t \<Rightarrow> int res" where
  "packet_count p = rbind (rd (data p) 0) (\<lambda>b. Inr (sint b))"

definition packet_hash :: "data_packet_t \<Rightarrow> nat \<Rightarrow> byte list res" where
  "packet_hash p i =
     (if 4 + 20 * i + 20 \<le> length (data p) then Inr (take 20 (drop (4 + 20 * i) (data p)))
      else Inl Out_Of_Bounds)"

lemma init_packet_hashes:
  assumes "t = 0 \<or> t = 1" "0 < k" "k < 60" "length src = 20 * k"
    "c_string stk = Inr junk" "length junk \<le> 1195"
  shows "\<exists>rest. init_packet stk t (Some src) (20 * k) =
     Inr \<lparr>header = hdr_swap (host_header t (20 + 20 * k) 0 0),
          data = [of_nat k, 1, 1, 1] @ src @ rest\<rparr> \<and> length rest = 1196 - 20 * k"
proof -
  have "unat (of_nat k :: byte) = k"
    using assms(3) by (simp add: unat_of_nat)
  then have k: "(of_nat k :: byte) \<noteq> 0"
    using assms(2) by (metis less_not_refl2 unat_0)
  have str: "c_string ([of_nat (20 * k div 20), 1, 1, 1] @ stk) = Inr ([of_nat k, 1, 1, 1] @ junk)"
    using k assms(5) by (auto simp: c_string_def split: if_splits)
  let ?pad = "[of_nat k, 1, 1, 1] @ junk :: byte list"
  define d where "d = blit (replicate DATA_LEN 0) 0 (?pad @ [0])"
  have d: "memcpy (replicate DATA_LEN 0) 0 (Some (?pad @ [0])) (length ?pad + 1) = Inr d"
    using assms(6) by (simp add: memcpy_Some d_def layout_simps)
  have len: "length d = 1200" and pre: "take 4 d = [of_nat k, 1, 1, 1]"
    using assms(6) by (simp_all add: d_def layout_simps blit_def)
  have e: "memcpy d 4 (Some src) (20 * k) = Inr (take 4 d @ src @ drop (4 + 20 * k) d)"
    using assms(3,4) len by (simp add: memcpy_Some blit_def)
  have "init_packet stk t (Some src) (20 * k) =
     Inr \<lparr>header = hdr_swap (host_header t (20 + 20 * k) 0 0),
          data = take 4 d @ src @ drop (4 + 20 * k) d\<rparr>"
    using assms(1) str d e
    by (simp add: init_packet_def Let_def host_header_def del: append_Cons replicate.simps)
  then show ?thesis using len pre by (intro exI [of _ "drop (4 + 20 * k) d"]) simp
qed

section \<open>The kilobytes of a chunk\<close>

text \<open>A chunk of 512 kB travels in 512 packets; \<open>chunk_slice F k\<close> is the payload of the \<open>k\<close>-th.\<close>

definition chunk_slice :: "byte list \<Rightarrow> nat \<Rightarrow> byte list" where
  "chunk_slice F k = take 1024 (drop (k * 1024) F)"

lemma length_chunk_slice: "length F = 524288 \<Longrightarrow> k < 512 \<Longrightarrow> length (chunk_slice F k) = 1024"
  by (simp add: chunk_slice_def)

lemma concat_slices:
  assumes "length F = 524288"
  shows "concat (map (chunk_slice F) [0..<512]) = F"
proof -
  have "concat (map (chunk_slice F) [0..<n]) = take (n * 1024) F" for n
    by (induction n) (simp_all add: chunk_slice_def take_add [symmetric] add.commute)
  from this [of 512] assms show ?thesis by simp
qed

section \<open>Properties of the codec\<close>

text \<open>
  C25. A WHOHAS or IHAVE packet with up to 59 hashes reaches the other side: whatever bytes stand behind
  the unterminated padding array that \<^verbatim>\<open>init_packet\<close> copies with \<^verbatim>\<open>strcat\<close>, the receiver reads the same
  number of hashes and every hash unchanged.
\<close>

theorem hash_list_roundtrip:
  assumes "t = 0 \<or> t = 1" and "0 < k" and "k < 60" and "length hashes = 20 * k"
    and "c_string stk = Inr junk" and "length junk \<le> 1195" and "length buf = 1500"
  shows "\<exists>p q. init_packet stk t (Some hashes) (20 * k) = Inr p \<and> transmit buf p = Inr q \<and>
    packet_count q = Inr (int k) \<and> packet_type (header (pkt_swap q)) = t \<and>
    (\<forall>i < k. packet_hash q i = Inr (take 20 (drop (20 * i) hashes)))"
proof -
  obtain rest where p: "init_packet stk t (Some hashes) (20 * k) =
      Inr \<lparr>header = hdr_swap (host_header t (20 + 20 * k) 0 0),
           data = [of_nat k, 1, 1, 1] @ hashes @ rest\<rparr>" "length rest = 1196 - 20 * k"
    using init_packet_hashes [OF assms(1-6)] by blast
  let ?p = "\<lparr>header = hdr_swap (host_header t (20 + 20 * k) 0 0),
    data = [of_nat k, 1, 1, 1] @ hashes @ rest\<rparr>"
  let ?q = "?p\<lparr>data := [of_nat k, 1, 1, 1] @ hashes @ drop (20 + 20 * k) buf\<rparr>"
  have n: "unat (ntohs (packet_len (header ?p))) = 20 + 20 * k"
    using assms(3) unat_of_nat [of "20 + 20 * k", where ?'a = 16] by simp
  have fits: "20 + 20 * k \<le> 16 + length (data ?p)" using p(2) assms(3,4) by simp
  have cut: "20 + 20 * k - 16 = 4 + 20 * k" by simp
  have "take (20 + 20 * k - 16) (data ?p) = [of_nat k, 1, 1, 1] @ hashes"
    using assms(4) unfolding cut by (simp add: take_Cons')
  then have q: "transmit buf ?p = Inr ?q"
    using transmit_ok [OF n _ fits, of buf] assms(3,7) by simp
  have "sint (of_nat k :: byte) = int k"
    using assms(3) by (simp add: sint_uint uint_word_of_int_eq unsigned_of_nat take_bit_nat_eq_self
        signed_take_bit_int_eq_self)
  then have count: "packet_count ?q = Inr (int k)" by (simp add: packet_count_def in_range_def)
  have hash: "packet_hash ?q i = Inr (take 20 (drop (20 * i) hashes))" if "i < k" for i
  proof -
    have "20 * i + 20 \<le> 20 * k" using that by simp
    moreover have "drop (4 + 20 * i) ([of_nat k, 1, 1, 1] @ xs) = drop (20 * i) xs" for xs :: "byte list"
      by (simp add: drop_Cons')
    ultimately show ?thesis using assms(4) by (simp add: packet_hash_def)
  qed
  show ?thesis using p(1) q count hash by (auto simp: pkt_swap_def)
qed

theorem hash_list_roundtrip_witness:
  "\<exists>p q. init_packet [200, 17, 0] 0 (Some (map of_nat [0..<40])) 40 = Inr p \<and>
     transmit (replicate 1500 255) p = Inr q \<and> packet_count q = Inr 2 \<and>
     packet_hash q 1 = Inr (map of_nat [20..<40])"
proof -
  have s: "c_string [200, 17, 0 :: byte] = Inr [200, 17]" by (simp add: c_string_def)
  have h: "take 20 (drop (20 * 1) (map of_nat [0..<40])) = (map of_nat [20..<40] :: byte list)"
    by (simp add: take_map drop_map)
  obtain p q where pq: "init_packet [200, 17, 0] 0 (Some (map of_nat [0..<40])) (20 * 2) = Inr p"
      "transmit (replicate 1500 255) p = Inr q" "packet_count q = Inr (int 2)"
      "\<forall>i < 2. packet_hash q i = Inr (take 20 (drop (20 * i) (map of_nat [0..<40])))"
    using hash_list_roundtrip [OF _ _ _ _ s, of 0 2 "map of_nat [0..<40]" "replicate 1500 255"]
    by auto
  have "packet_hash q 1 = Inr (map of_nat [20..<40])" using pq(4) h by (metis one_less_numeral_iff semiring_norm(76))
  then show ?thesis using pq by auto
qed

end
