(* ===== verification/Sha1.thy ===== *)
theory Sha1
  imports Packet
begin

text \<open>
  SHA-1 as \<^verbatim>\<open>sha.c\<close> computes it, in the configuration the \<^verbatim>\<open>Makefile\<close> builds (neither
  \<^verbatim>\<open>WORDS_BIGENDIAN\<close> nor \<^verbatim>\<open>RUNTIME_ENDIAN\<close> nor \<^verbatim>\<open>SHA1_FAST_COPY\<close>, \<^verbatim>\<open>SHA1_UNROLL\<close> 20), and its client
  \<^verbatim>\<open>shahash\<close> (\<^verbatim>\<open>chunk.c\<close>).

  The word buffer of the context is a view of its byte buffer through the little-endian machine. The
  buffer of a fresh context is uninitialised: \<open>sha1_init\<close> leaves that field of its argument alone.
  The loop of \<^verbatim>\<open>SHA1Update\<close> does not end on a context whose buffer is full, so it is a partial
  function; on contexts that \<^verbatim>\<open>SHA1Init\<close> made it always ends.

  The second half states SHA-1 the way FIPS 180-4 does, over whole padded messages and with round
  functions and constants chosen by the round number, and proves that the code computes it, in
  however many pieces the message is given (locale \<open>stream_hash\<close>).
\<close>

section \<open>The code\<close>

definition ROTL :: "32 word \<Rightarrow> nat \<Rightarrow> 32 word" where
  "ROTL x n = push_bit n x OR drop_bit (32 - n) x"

definition ROTR :: "32 word \<Rightarrow> nat \<Rightarrow> 32 word" where
  "ROTR x n = drop_bit n x OR push_bit (32 - n) x"

definition F_0_19 :: "32 word \<Rightarrow> 32 word \<Rightarrow> 32 word \<Rightarrow> 32 word" where
  "F_0_19 x y z = z XOR (x AND (y XOR z))"

definition F_20_39 :: "32 word \<Rightarrow> 32 word \<Rightarrow> 32 word \<Rightarrow> 32 word" where
  "F_20_39 x y z = x XOR y XOR z"

definition F_40_59 :: "32 word \<Rightarrow> 32 word \<Rightarrow> 32 word \<Rightarrow> 32 word" where
  "F_40_59 x y z = (x AND (y OR z)) OR (y AND z)"

definition F_60_79 :: "32 word \<Rightarrow> 32 word \<Rightarrow> 32 word \<Rightarrow> 32 word" where
  "F_60_79 x y z = x XOR y XOR z"

type_synonym regs = "32 word \<times> 32 word \<times> 32 word \<times> 32 word \<times> 32 word"

fun do_round ::
  "(32 word \<Rightarrow> 32 word \<Rightarrow> 32 word \<Rightarrow> 32 word) \<Rightarrow> 32 word \<Rightarrow> regs \<Rightarrow> 32 word \<Rightarrow> regs" where
  "do_round F K (a, b, c, d, e) w =
     (let temp = ROTL a 5 + F b c d + e + w + K in (temp, a, ROTL b 30, c, d))"

definition K_0_19 :: "32 word" where "K_0_19 = 0x5a827999"
definition K_20_39 :: "32 word" where "K_20_39 = 0x6ed9eba1"
definition K_40_59 :: "32 word" where "K_40_59 = 0x8f1bbcdc"
definition K_60_79 :: "32 word" where "K_60_79 = 0xca62c1d6"

definition BYTESWAP :: "32 word \<Rightarrow> 32 word" where
  "BYTESWAP x = (ROTR x 8 AND 0xff00ff00) OR (ROTL x 8 AND 0x00ff00ff)"

definition byteswap64 :: "64 word \<Rightarrow> 64 word" where
  "byteswap64 x =
     (let a = ucast (drop_bit 32 x) :: 32 word; b = ucast x :: 32 word
      in push_bit 32 (ucast (BYTESWAP b)) OR ucast (BYTESWAP a))"

definition sha1_padding :: "byte list" where
  "sha1_padding = 0x80 # replicate 63 0"

record sha1_ctx =
  sc_total :: "64 word"
  sc_hash :: "32 word list"
  sc_length :: "32 word"
  sc_buffer :: "byte list"

definition sha1_init :: "sha1_ctx \<Rightarrow> sha1_ctx" where
  "sha1_init sc = sc\<lparr>sc_total := 0,
     sc_hash := [0x67452301, 0xefcdab89, 0x98badcfe, 0x10325476, 0xc3d2e1f0], sc_length := 0\<rparr>"

text \<open>
  \<^verbatim>\<open>SHA1Guts\<close>: the sixteen words of the block, the loop that extends them to 80 (\<open>n\<close> iterations
  left), the four groups of twenty rounds, and the addition to the hash.
\<close>

definition buffer_words :: "byte list \<Rightarrow> 32 word list" where
  "buffer_words cbuf = map (\<lambda>i. BYTESWAP (le32 (take 4 (drop (4 * i) cbuf)))) [0..<16]"

fun schedule :: "nat \<Rightarrow> 32 word list \<Rightarrow> 32 word list" where
  "schedule 0 W = W"
| "schedule (Suc n) W =
     (let t = length W
      in schedule n (W @ [ROTL (W ! (t - 3) XOR W ! (t - 8) XOR W ! (t - 14) XOR W ! (t - 16)) 1]))"

definition rounds :: "32 word list \<Rightarrow> regs \<Rightarrow> regs" where
  "rounds W st =
     foldl (do_round F_60_79 K_60_79)
       (foldl (do_round F_40_59 K_40_59)
         (foldl (do_round F_20_39 K_20_39)
           (foldl (do_round F_0_19 K_0_19) st (take 20 W))
           (take 20 (drop 20 W)))
         (take 20 (drop 40 W)))
       (take 20 (drop 60 W))"

definition sha1_guts :: "32 word list \<Rightarrow> byte list \<Rightarrow> 32 word list" where
  "sha1_guts h cbuf =
     (case rounds (schedule 64 (buffer_words cbuf)) (h ! 0, h ! 1, h ! 2, h ! 3, h ! 4) of
        (a, b, c, d, e) \<Rightarrow> [h ! 0 + a, h ! 1 + b, h ! 2 + c, h ! 3 + d, h ! 4 + e])"

text \<open>One iteration of the loop of \<^verbatim>\<open>SHA1Update\<close>, and the loop.\<close>

definition update_step :: "sha1_ctx \<Rightarrow> byte list \<Rightarrow> (sha1_ctx \<times> byte list) res" where
  "update_step sc dat =
     (let left = 64 - sc_length sc;
          n = (if unat left > length dat then length dat else unat left)
      in rbind (memcpy (sc_buffer sc) (unat (sc_length sc)) (Some dat) n) (\<lambda>buf.
         let sc = sc\<lparr>sc_buffer := buf, sc_total := sc_total sc + of_nat n * 8,
                    sc_length := sc_length sc + of_nat n\<rparr>
         in Inr (if sc_length sc = 64
                 then sc\<lparr>sc_hash := sha1_guts (sc_hash sc) (sc_buffer sc), sc_length := 0\<rparr> else sc,
                 drop n dat)))"

partial_function (option) sha1_update :: "sha1_ctx \<Rightarrow> byte list \<Rightarrow> sha1_ctx res option" where
  "sha1_update sc dat =
     (if dat = [] then Some (Inr sc)
      else case update_step sc dat of
             Inl e \<Rightarrow> Some (Inl e)
           | Inr r \<Rightarrow> sha1_update (fst r) (snd r))"

definition update_then ::
  "'c res option \<Rightarrow> ('c \<Rightarrow> 'a res option) \<Rightarrow> 'a res option" where
  "update_then m f =
     (case m of None \<Rightarrow> None | Some (Inl e) \<Rightarrow> Some (Inl e) | Some (Inr sc) \<Rightarrow> f sc)"

definition le64_bytes :: "64 word \<Rightarrow> byte list" where
  "le64_bytes w = le32_bytes (ucast w) @ le32_bytes (ucast (drop_bit 32 w))"

definition word_bytes :: "32 word \<Rightarrow> byte list" where
  "word_bytes w = [ucast (drop_bit 24 w), ucast (drop_bit 16 w), ucast (drop_bit 8 w), ucast w]"

definition sha1_final :: "sha1_ctx \<Rightarrow> byte list res option" where
  "sha1_final sc =
     (let bytes_to_pad = 120 - sc_length sc;
          bytes_to_pad = (if bytes_to_pad > 64 then bytes_to_pad - 64 else bytes_to_pad);
          length_pad = byteswap64 (sc_total sc)
      in update_then (sha1_update sc (take (unat bytes_to_pad) sha1_padding)) (\<lambda>sc.
         update_then (sha1_update sc (le64_bytes length_pad)) (\<lambda>sc.
         Some (Inr (concat (map word_bytes (sc_hash sc)))))))"

definition shahash :: "sha1_ctx \<Rightarrow> byte list \<Rightarrow> byte list res option" where
  "shahash uninit str = update_then (sha1_update (sha1_init uninit) str) sha1_final"

section \<open>SHA-1 as FIPS 180-4 defines it\<close>

definition Ch :: "32 word \<Rightarrow> 32 word \<Rightarrow> 32 word \<Rightarrow> 32 word" where
  "Ch x y z = (x AND y) XOR (NOT x AND z)"

definition Parity :: "32 word \<Rightarrow> 32 word \<Rightarrow> 32 word \<Rightarrow> 32 word" where
  "Parity x y z = x XOR y XOR z"

definition Maj :: "32 word \<Rightarrow> 32 word \<Rightarrow> 32 word \<Rightarrow> 32 word" where
  "Maj x y z = (x AND y) XOR (x AND z) XOR (y AND z)"

definition f_t :: "nat \<Rightarrow> 32 word \<Rightarrow> 32 word \<Rightarrow> 32 word \<Rightarrow> 32 word" where
  "f_t t = (if t < 20 then Ch else if t < 40 then Parity else if t < 60 then Maj else Parity)"

definition K_t :: "nat \<Rightarrow> 32 word" where
  "K_t t = (if t < 20 then 0x5a827999 else if t < 40 then 0x6ed9eba1
            else if t < 60 then 0x8f1bbcdc else 0xca62c1d6)"

definition be32 :: "byte list \<Rightarrow> 32 word" where
  "be32 bs = push_bit 24 (ucast (bs ! 0)) OR push_bit 16 (ucast (bs ! 1))
    OR push_bit 8 (ucast (bs ! 2)) OR ucast (bs ! 3)"

function W_t :: "byte list \<Rightarrow> nat \<Rightarrow> 32 word" where
  "W_t M t =
     (if t < 16 then be32 (take 4 (drop (4 * t) M))
      else ROTL (W_t M (t - 3) XOR W_t M (t - 8) XOR W_t M (t - 14) XOR W_t M (t - 16)) 1)"
  by pat_completeness auto
termination by (relation "measure snd") auto

declare W_t.simps [simp del]

fun fips_rounds :: "byte list \<Rightarrow> nat \<Rightarrow> regs \<Rightarrow> regs" where
  "fips_rounds M 0 st = st"
| "fips_rounds M (Suc t) st =
     (case fips_rounds M t st of (a, b, c, d, e) \<Rightarrow>
        (ROTL a 5 + f_t t b c d + e + K_t t + W_t M t, a, ROTL b 30, c, d))"

definition compress :: "32 word list \<Rightarrow> byte list \<Rightarrow> 32 word list" where
  "compress h M =
     (case fips_rounds M 80 (h ! 0, h ! 1, h ! 2, h ! 3, h ! 4) of
        (a, b, c, d, e) \<Rightarrow> [h ! 0 + a, h ! 1 + b, h ! 2 + c, h ! 3 + d, h ! 4 + e])"

function absorb :: "32 word list \<Rightarrow> byte list \<Rightarrow> 32 word list" where
  "absorb h M = (if length M < 64 then h else absorb (compress h (take 64 M)) (drop 64 M))"
  by pat_completeness auto
termination by (relation "measure (\<lambda>(h, M). length M)") auto

declare absorb.simps [simp del]

definition be64_bytes :: "nat \<Rightarrow> byte list" where
  "be64_bytes n = map (\<lambda>i. of_nat (n div 2 ^ (8 * (7 - i)))) [0..<8]"

definition pad :: "byte list \<Rightarrow> byte list" where
  "pad M = M @ [0x80] @ replicate ((119 - length M mod 64) mod 64) 0 @ be64_bytes (8 * length M)"

definition sha1_spec :: "byte list \<Rightarrow> byte list" where
  "sha1_spec M = concat (map word_bytes
     (absorb [0x67452301, 0xefcdab89, 0x98badcfe, 0x10325476, 0xc3d2e1f0] (pad M)))"

section \<open>One block\<close>

lemma F_functions: "F_0_19 = Ch" "F_20_39 = Parity" "F_40_59 = Maj" "F_60_79 = Parity"
proof -
  show "F_0_19 = Ch"
    unfolding fun_eq_iff F_0_19_def Ch_def by (intro allI bit_word_eqI) (auto simp: bit_simps)
  show "F_40_59 = Maj"
    unfolding fun_eq_iff F_40_59_def Maj_def by (intro allI bit_word_eqI) (auto simp: bit_simps)
qed (simp_all add: fun_eq_iff F_20_39_def F_60_79_def Parity_def)

lemma bit_byte_high: "8 \<le> n \<Longrightarrow> \<not> bit (b :: byte) n"
  using bit_imp_le_length [of b n] by auto

lemma bit_masks:
  assumes "n < 32"
  shows "bit (0xff00ff00 :: 32 word) n \<longleftrightarrow> 8 \<le> n \<and> n < 16 \<or> 24 \<le> n"
    and "bit (0x00ff00ff :: 32 word) n \<longleftrightarrow> n < 8 \<or> 16 \<le> n \<and> n < 24"
proof -
  have "\<forall>n \<in> set [0..<32]. bit (0xff00ff00 :: 32 word) n \<longleftrightarrow> 8 \<le> n \<and> n < 16 \<or> 24 \<le> n"
    by code_simp
  with assms show "bit (0xff00ff00 :: 32 word) n \<longleftrightarrow> 8 \<le> n \<and> n < 16 \<or> 24 \<le> n" by simp
  have "\<forall>n \<in> set [0..<32]. bit (0x00ff00ff :: 32 word) n \<longleftrightarrow> n < 8 \<or> 16 \<le> n \<and> n < 24"
    by code_simp
  with assms show "bit (0x00ff00ff :: 32 word) n \<longleftrightarrow> n < 8 \<or> 16 \<le> n \<and> n < 24" by simp
qed

lemma octet_cases:
  fixes n :: nat
  assumes "n < 32"
  obtains "n < 8" "n div 8 = 0" "n mod 8 = n"
  | "8 \<le> n" "n < 16" "n div 8 = 1" "n mod 8 = n - 8"
  | "16 \<le> n" "n < 24" "n div 8 = 2" "n mod 8 = n - 16"
  | "24 \<le> n" "n < 32" "n div 8 = 3" "n mod 8 = n - 24"
proof -
  have m: "n mod 8 = n - 8 * (n div 8)" by (simp add: minus_mult_div_eq_mod)
  have q: "n div 8 < 4" "8 * (n div 8) \<le> n" "n < 8 * (n div 8) + 8" using assms by linarith+
  then consider "n div 8 = 0" | "n div 8 = 1" | "n div 8 = 2" | "n div 8 = 3" by linarith
  then show thesis
  proof cases
    case 1
    with q m show thesis by (intro that(1)) simp_all
  next
    case 2
    with q m show thesis by (intro that(2)) simp_all
  next
    case 3
    with q m show thesis by (intro that(3)) simp_all
  next
    case 4
    with q m show thesis by (intro that(4)) simp_all
  qed
qed

lemma bit_le32:
  assumes "n < 32"
  shows "bit (le32 bs) n = bit (bs ! (n div 8)) (n mod 8)"
  using assms by (cases n rule: octet_cases) (simp_all add: le32_def bit_simps bit_byte_high less_imp_diff_less)

lemma bit_be32:
  assumes "n < 32"
  shows "bit (be32 bs) n = bit (bs ! (3 - n div 8)) (n mod 8)"
  using assms by (cases n rule: octet_cases) (simp_all add: be32_def bit_simps bit_byte_high less_imp_diff_less)

lemma bit_ROTL:
  assumes "n < 32" "0 < k" "k < 32"
  shows "bit (ROTL x k) n = bit x (if n < k then n + (32 - k) else n - k)"
  using assms bit_imp_le_length [of x "n + (32 - k)"]
  by (auto simp: ROTL_def bit_simps add.commute)

lemma bit_ROTR:
  assumes "n < 32" "0 < k" "k < 32"
  shows "bit (ROTR x k) n = bit x (if n + k < 32 then n + k else n + k - 32)"
  using assms bit_imp_le_length [of x "n + k"]
  by (auto simp: ROTR_def bit_simps add.commute)

lemma bit_BYTESWAP:
  assumes "n < 32"
  shows "bit (BYTESWAP x) n = bit x (8 * (3 - n div 8) + n mod 8)"
proof -
  have "bit (BYTESWAP x) n =
      (bit (ROTR x 8) n \<and> (8 \<le> n \<and> n < 16 \<or> 24 \<le> n) \<or> bit (ROTL x 8) n \<and> (n < 8 \<or> 16 \<le> n \<and> n < 24))"
    by (simp only: BYTESWAP_def bit_or_iff bit_and_iff bit_masks [OF assms])
  with assms show ?thesis
    by (cases n rule: octet_cases) (simp_all add: bit_ROTL bit_ROTR add.commute)
qed

lemma BYTESWAP_le32: "BYTESWAP (le32 bs) = be32 bs"
proof (rule bit_word_eqI)
  fix n assume "n < LENGTH(32)"
  then have n: "n < 32" by simp
  have q: "n div 8 \<le> 3" "n mod 8 < 8" using n by auto
  then have "8 * (3 - n div 8) + n mod 8 < 32" by linarith
  with n q show "bit (BYTESWAP (le32 bs)) n = bit (be32 bs) n"
    by (simp add: bit_BYTESWAP bit_le32 bit_be32)
qed

section \<open>The rounds\<close>

lemma schedule_W:
  "16 \<le> t \<Longrightarrow> schedule n (map (W_t M) [0..<t]) = map (W_t M) [0..<t + n]"
proof (induction n arbitrary: t)
  case (Suc n)
  let ?W = "map (W_t M) [0..<t]"
  have "ROTL (?W ! (t - 3) XOR ?W ! (t - 8) XOR ?W ! (t - 14) XOR ?W ! (t - 16)) 1 = W_t M t"
    using Suc.prems by (subst W_t.simps) simp
  then have "schedule (Suc n) ?W = schedule n (map (W_t M) [0..<Suc t])"
    by (simp add: Let_def)
  then show ?case using Suc.IH [of "Suc t"] Suc.prems by simp
qed simp

lemma buffer_words_W: "buffer_words M = map (W_t M) [0..<16]"
  by (simp add: buffer_words_def BYTESWAP_le32 W_t.simps)

lemma fips_segment:
  assumes "\<And>t. s \<le> t \<Longrightarrow> t < s + n \<Longrightarrow> f_t t = F \<and> K_t t = K"
  shows "foldl (do_round F K) (fips_rounds M s st) (map (W_t M) [s..<s + n]) = fips_rounds M (s + n) st"
  using assms
proof (induction n)
  case (Suc n)
  have "[s..<s + Suc n] = [s..<s + n] @ [s + n]" by simp
  moreover have "f_t (s + n) = F \<and> K_t (s + n) = K" using Suc.prems by simp
  ultimately show ?case
    using Suc by (simp add: Let_def split: prod.split)
qed simp

lemma rounds_fips: "rounds (map (W_t M) [0..<80]) st = fips_rounds M 80 st"
proof -
  have seg: "take 20 (drop s (map (W_t M) [0..<80])) = map (W_t M) [s..<s + 20]" if "s + 20 \<le> 80" for s
    using that by (simp add: take_map drop_map)
  have first: "take 20 (map (W_t M) [0..<80]) = map (W_t M) [0..<0 + 20]"
    using seg [of 0] by simp
  have 1: "foldl (do_round Ch K_0_19) st (map (W_t M) [0..<0 + 20]) = fips_rounds M 20 st"
    using fips_segment [of 0 20 Ch K_0_19 M st] by (simp add: f_t_def K_t_def K_0_19_def)
  have 2: "foldl (do_round Parity K_20_39) (fips_rounds M 20 st) (map (W_t M) [20..<20 + 20])
      = fips_rounds M 40 st"
    using fips_segment [of 20 20 Parity K_20_39 M st] by (simp add: f_t_def K_t_def K_20_39_def)
  have 3: "foldl (do_round Maj K_40_59) (fips_rounds M 40 st) (map (W_t M) [40..<40 + 20])
      = fips_rounds M 60 st"
    using fips_segment [of 40 20 Maj K_40_59 M st] by (simp add: f_t_def K_t_def K_40_59_def)
  have 4: "foldl (do_round Parity K_60_79) (fips_rounds M 60 st) (map (W_t M) [60..<60 + 20])
      = fips_rounds M 80 st"
    using fips_segment [of 60 20 Parity K_60_79 M st] by (simp add: f_t_def K_t_def K_60_79_def)
  show ?thesis
    unfolding rounds_def F_functions first using seg [of 20] seg [of 40] seg [of 60] 1 2 3 4
    by (simp only: numeral_plus_numeral semiring_norm numeral_le_iff simp_thms)
qed

lemma sha1_guts_compress: "sha1_guts h M = compress h M"
proof -
  have "schedule 64 (buffer_words M) = map (W_t M) [0..<80]"
    using schedule_W [of 16 64 M] unfolding buffer_words_W by simp
  then show ?thesis by (simp only: sha1_guts_def compress_def rounds_fips)
qed

section \<open>Messages in pieces\<close>

lemma absorb_append:
  "length p mod 64 = 0 \<Longrightarrow> absorb h (p @ q) = absorb (absorb h p) q"
proof (induction p arbitrary: h rule: length_induct)
  case (1 p)
  show ?case
  proof (cases "length p < 64")
    case True
    with 1(2) have "p = []" by simp
    then show ?thesis by (simp add: absorb.simps [of h "[]"])
  next
    case False
    then have "length (drop 64 p) mod 64 = 0" using 1(2) by (simp add: le_mod_geq [symmetric])
    then have "absorb (compress h (take 64 p)) (drop 64 p @ q) =
        absorb (absorb (compress h (take 64 p)) (drop 64 p)) q"
      using 1(1) False by auto
    moreover have "absorb h p = absorb (compress h (take 64 p)) (drop 64 p)"
      using False by (simp add: absorb.simps [of h p])
    moreover have "absorb h (p @ q) = absorb (compress h (take 64 p)) (drop 64 p @ q)"
      using False by (simp add: absorb.simps [of h "p @ q"])
    ultimately show ?thesis by simp
  qed
qed

lemma absorb_short: "length p < 64 \<Longrightarrow> absorb h p = h"
  by (simp add: absorb.simps)

lemma absorb_block: "length p = 64 \<Longrightarrow> absorb h p = compress h p"
  by (subst absorb.simps) (simp add: absorb_short)

text \<open>
  \<open>absorbed sc M\<close>: the context after the message \<open>M\<close>. The whole blocks of \<open>M\<close> are in the hash, the
  rest is in the buffer, and the length counts the bits modulo \<open>2 ^ 64\<close>.
\<close>

abbreviation initial_hash :: "32 word list" where
  "initial_hash \<equiv> [0x67452301, 0xefcdab89, 0x98badcfe, 0x10325476, 0xc3d2e1f0]"

definition absorbed :: "sha1_ctx \<Rightarrow> byte list \<Rightarrow> bool" where
  "absorbed sc M \<longleftrightarrow> length (sc_buffer sc) = 64 \<and> sc_total sc = of_nat (8 * length M) \<and>
     (\<exists>p r. M = p @ r \<and> length p mod 64 = 0 \<and> length r < 64 \<and>
        sc_hash sc = absorb initial_hash p \<and> sc_length sc = of_nat (length r) \<and>
        take (length r) (sc_buffer sc) = r)"

lemma absorbed_init: "length (sc_buffer sc) = 64 \<Longrightarrow> absorbed (sha1_init sc) []"
  by (simp add: absorbed_def sha1_init_def absorb_short)

lemma take_blit_end: "k + length src \<le> length dst \<Longrightarrow> take (k + length src) (blit dst k src) = take k dst @ src"
  by (simp add: blit_def)

lemma update_step_absorbed:
  assumes "absorbed sc M" "dat \<noteq> []"
  shows "\<exists>sc' n. update_step sc dat = Inr (sc', drop n dat) \<and> 0 < n \<and> n \<le> length dat \<and>
    absorbed sc' (M @ take n dat) \<and> (drop n dat = [] \<or> sc_length sc' = 0)"
proof -
  obtain p r where M: "M = p @ r" "length p mod 64 = 0" "length r < 64"
      "sc_hash sc = absorb initial_hash p" "sc_length sc = of_nat (length r)"
      "take (length r) (sc_buffer sc) = r"
    and buf: "length (sc_buffer sc) = 64" and tot: "sc_total sc = of_nat (8 * length M)"
    using assms(1) by (auto simp: absorbed_def)
  define n where "n = min (64 - length r) (length dat)"
  have u: "unat (of_nat (length r) :: 32 word) = length r" using M(3) by (simp add: unat_of_nat)
  have d: "(64 - of_nat (length r) :: 32 word) = of_nat (64 - length r)"
    using M(3) by (simp add: of_nat_diff)
  have left: "unat (64 - of_nat (length r) :: 32 word) = 64 - length r"
    unfolding d unat_of_nat by simp
  have n: "0 < n" "n \<le> length dat" "length r + n \<le> 64" using assms(2) M(3) by (auto simp: n_def)
  let ?buf = "blit (sc_buffer sc) (length r) (take n dat)"
  have b: "length ?buf = 64" "take (length r + n) ?buf = r @ take n dat"
    using n buf M(6) take_blit_end [of "length r" "take n dat" "sc_buffer sc"]
    by (simp_all add: length_blit)
  have t: "sc_total sc + of_nat n * 8 = of_nat (8 * length (M @ take n dat))"
    using n by (simp add: tot algebra_simps)
  have full: "of_nat (length r) + of_nat n = (64 :: 32 word) \<longleftrightarrow> length r + n = 64"
    using n(3) unat_of_nat [of "length r + n", where ?'a = 32] by (simp add: word_unat_eq_iff)
  define sc1 where "sc1 = sc\<lparr>sc_buffer := ?buf, sc_total := sc_total sc + of_nat n * 8,
    sc_length := of_nat (length r) + of_nat n\<rparr>"
  define sc2 where "sc2 = (if length r + n = 64
    then sc1\<lparr>sc_hash := compress (sc_hash sc) ?buf, sc_length := 0\<rparr> else sc1)"
  have "(if unat (64 - of_nat (length r) :: 32 word) > length dat then length dat
      else unat (64 - of_nat (length r) :: 32 word)) = n"
    unfolding left n_def by auto
  then have step: "update_step sc dat = Inr (sc2, drop n dat)"
    using n buf full u
    by (simp add: update_step_def M(5) memcpy_Some sc1_def sc2_def sha1_guts_compress)
  have "absorbed sc2 (M @ take n dat)"
  proof (cases "length r + n = 64")
    case True
    then have "length ?buf = length r + n" using b(1) by simp
    then have whole: "?buf = r @ take n dat" using b(2) by (metis take_all order_refl)
    have "compress (sc_hash sc) ?buf = absorb initial_hash (p @ ?buf)"
      using M(2,4) b(1) by (simp add: absorb_append absorb_block)
    moreover have "length (p @ ?buf) mod 64 = 0" using M(2) b(1) by simp
    ultimately show ?thesis
      using True b(1) t M(1) whole unfolding absorbed_def
      by (intro conjI exI [of _ "p @ ?buf"] exI [of _ "[]"]) (simp_all add: sc2_def sc1_def)
  next
    case False
    then have "length (r @ take n dat) < 64" using n by simp
    then show ?thesis
      using False b t M n unfolding absorbed_def
      by (intro conjI exI [of _ p] exI [of _ "r @ take n dat"]) (simp_all add: sc2_def sc1_def)
  qed
  moreover have "drop n dat = [] \<or> sc_length sc2 = 0" using M(3) by (auto simp: n_def sc2_def)
  ultimately show ?thesis using step n by blast
qed

theorem sha1_update_absorbed:
  "absorbed sc M \<Longrightarrow> \<exists>sc'. sha1_update sc dat = Some (Inr sc') \<and> absorbed sc' (M @ dat)"
proof (induction dat arbitrary: sc M rule: length_induct)
  case (1 dat)
  show ?case
  proof (cases "dat = []")
    case True
    with 1 show ?thesis by (simp add: sha1_update.simps)
  next
    case False
    obtain sc1 n where s: "update_step sc dat = Inr (sc1, drop n dat)" "0 < n" "n \<le> length dat"
        "absorbed sc1 (M @ take n dat)"
      using update_step_absorbed [OF 1(2) False] by blast
    then have "length (drop n dat) < length dat" by simp
    then obtain sc2 where "sha1_update sc1 (drop n dat) = Some (Inr sc2)"
        "absorbed sc2 ((M @ take n dat) @ drop n dat)"
      using 1(1) s(4) by blast
    then show ?thesis using False s(1) by (simp add: sha1_update.simps [of sc dat])
  qed
qed

section \<open>Padding\<close>

lemma byte_of_BYTESWAP:
  assumes "j \<le> 3"
  shows "(ucast (drop_bit (8 * j) (BYTESWAP y)) :: byte) = ucast (drop_bit (8 * (3 - j)) y)"
proof (rule bit_word_eqI)
  fix n assume "n < LENGTH(8)"
  then have n: "n < 8" by simp
  have "8 * j + n < 32" "(8 * j + n) div 8 = j" "(8 * j + n) mod 8 = n" using assms n by auto
  then have "bit (BYTESWAP y) (8 * j + n) = bit y (8 * (3 - j) + n)"
    using bit_BYTESWAP [of "8 * j + n" y] by simp
  with n show "bit (ucast (drop_bit (8 * j) (BYTESWAP y)) :: byte) n =
      bit (ucast (drop_bit (8 * (3 - j)) y) :: byte) n"
    by (simp add: bit_simps)
qed

lemma le32_bytes_BYTESWAP: "le32_bytes (BYTESWAP y) = word_bytes y"
  using byte_of_BYTESWAP [of 0 y] byte_of_BYTESWAP [of 1 y] byte_of_BYTESWAP [of 2 y]
    byte_of_BYTESWAP [of 3 y]
  by (simp add: le32_bytes_def word_bytes_def)

lemma byteswap64_halves:
  "(ucast (byteswap64 x) :: 32 word) = BYTESWAP (ucast (drop_bit 32 x))"
  "(ucast (drop_bit 32 (byteswap64 x)) :: 32 word) = BYTESWAP (ucast x)"
  by (rule bit_word_eqI, auto simp: byteswap64_def Let_def bit_simps dest: bit_imp_le_length)+

lemma byte_of_nat:
  assumes "k \<le> 56"
  shows "(ucast (drop_bit k (of_nat n :: 64 word)) :: byte) = of_nat (n div 2 ^ k)"
proof (rule bit_word_eqI)
  fix i assume "i < LENGTH(8)"
  then show "bit (ucast (drop_bit k (of_nat n :: 64 word)) :: byte) i = bit (of_nat (n div 2 ^ k) :: byte) i"
    using assms by (simp add: bit_simps drop_bit_eq_div [symmetric])
qed

lemma byte_of_half:
  fixes x :: "64 word"
  assumes "k \<le> 24"
  shows "(ucast (drop_bit k (ucast (drop_bit 32 x) :: 32 word)) :: byte) = ucast (drop_bit (k + 32) x)"
    "(ucast (drop_bit k (ucast x :: 32 word)) :: byte) = ucast (drop_bit k x)"
  using assms by (intro bit_word_eqI; auto simp: bit_simps ac_simps)+

lemma length_pad_bytes: "le64_bytes (byteswap64 (of_nat n)) = be64_bytes n"
proof -
  have l: "[0..<8] = [0, 1, 2, 3, 4, 5, 6, 7 :: nat]" by (simp add: upt_rec)
  have z: "(ucast (ucast (drop_bit 32 x) :: 32 word) :: byte) = ucast (drop_bit 32 x)"
    "(ucast (ucast x :: 32 word) :: byte) = ucast x" for x :: "64 word"
    using byte_of_half [of 0 x] by simp_all
  show ?thesis
    using byte_of_nat [of 56 n] byte_of_nat [of 48 n] byte_of_nat [of 40 n] byte_of_nat [of 32 n]
      byte_of_nat [of 24 n] byte_of_nat [of 16 n] byte_of_nat [of 8 n] byte_of_nat [of 0 n]
    by (simp add: le64_bytes_def byteswap64_halves le32_bytes_BYTESWAP word_bytes_def be64_bytes_def l
        byte_of_half z)
qed

lemma length_be64_bytes [simp]: "length (be64_bytes n) = 8"
  by (simp add: be64_bytes_def)

lemma length_pad: "length (pad M) mod 64 = 0"
proof -
  define q r where "q = length M div 64" and "r = length M mod 64"
  have M: "length M = 64 * q + r" "r < 64" by (simp_all add: q_def r_def)
  have "length (pad M) = 64 * q + r + 9 + (119 - r) mod 64"
    using M by (simp add: pad_def)
  also have "\<dots> = 64 * (q + (if r < 56 then 1 else 2))"
  proof (cases "r < 56")
    case True
    then have "(119 - r) mod 64 = 55 - r" by (simp add: mod_if)
    with True show ?thesis by simp
  next
    case False
    with M(2) have "(119 - r) mod 64 = 119 - r" by simp
    with False M(2) show ?thesis by simp
  qed
  finally show ?thesis by simp
qed

lemma pad_count:
  assumes "r < (64 :: nat)"
  shows "unat (let b = 120 - of_nat r :: 32 word in if b > 64 then b - 64 else b) =
    1 + (119 - r) mod 64"
proof -
  have b: "(120 - of_nat r :: 32 word) = of_nat (120 - r)" using assms by (simp add: of_nat_diff)
  have u: "unat (of_nat (120 - r) :: 32 word) = 120 - r"
    unfolding unat_of_nat using assms by simp
  have gt: "(of_nat (120 - r) :: 32 word) > 64 \<longleftrightarrow> r < 56" using u by (simp add: word_less_nat_alt) linarith
  show ?thesis
  proof (cases "r < 56")
    case True
    then have c: "(of_nat (120 - r) - 64 :: 32 word) = of_nat (56 - r)" by (simp add: of_nat_diff)
    have "(119 - r) mod 64 = 55 - r" using True by (simp add: mod_if)
    moreover have "unat (of_nat (56 - r) :: 32 word) = 56 - r" unfolding unat_of_nat by simp
    ultimately show ?thesis using True gt unfolding Let_def b c by simp
  next
    case False
    with assms have "(119 - r) mod 64 = 119 - r" by simp
    then show ?thesis using False assms gt u unfolding Let_def b by simp
  qed
qed

section \<open>The interface of a streaming hash\<close>

text \<open>
  What a client of \<^verbatim>\<open>sha.h\<close> relies on: after \<open>init\<close>, any sequence of \<open>upd\<close> and then \<open>fin\<close> return, and
  yield the digest of everything given. \<open>feed\<close> is such a sequence.
\<close>

fun feed ::
  "('c \<Rightarrow> byte list \<Rightarrow> 'c res option) \<Rightarrow> 'c \<Rightarrow> byte list list \<Rightarrow> 'c res option" where
  "feed upd c [] = Some (Inr c)"
| "feed upd c (d # ds) = update_then (upd c d) (\<lambda>c. feed upd c ds)"

locale stream_hash =
  fixes init :: "'c \<Rightarrow> 'c"
    and upd :: "'c \<Rightarrow> byte list \<Rightarrow> 'c res option"
    and fin :: "'c \<Rightarrow> byte list res option"
    and fresh :: "'c \<Rightarrow> bool"
    and holds :: "'c \<Rightarrow> byte list \<Rightarrow> bool"
    and digest :: "byte list \<Rightarrow> byte list"
  assumes init_holds: "fresh c \<Longrightarrow> holds (init c) []"
    and upd_holds: "holds c M \<Longrightarrow> \<exists>c'. upd c d = Some (Inr c') \<and> holds c' (M @ d)"
    and fin_digest: "holds c M \<Longrightarrow> fin c = Some (Inr (digest M))"
begin

lemma feed_holds:
  "holds c M \<Longrightarrow> \<exists>c'. feed upd c ds = Some (Inr c') \<and> holds c' (M @ concat ds)"
proof (induction ds arbitrary: c M)
  case (Cons d ds)
  obtain c1 where c1: "upd c d = Some (Inr c1)" "holds c1 (M @ d)"
    using upd_holds [OF Cons.prems] by blast
  obtain c2 where "feed upd c1 ds = Some (Inr c2)" "holds c2 ((M @ d) @ concat ds)"
    using Cons.IH [OF c1(2)] by blast
  with c1(1) show ?case by (simp add: update_then_def)
qed simp

lemma pieces_digest:
  "fresh c \<Longrightarrow> update_then (feed upd (init c) ds) fin = Some (Inr (digest (concat ds)))"
  using feed_holds [OF init_holds, of c ds] fin_digest by (auto simp: update_then_def)

lemma one_shot_digest: "fresh c \<Longrightarrow> update_then (upd (init c) d) fin = Some (Inr (digest d))"
  using upd_holds [OF init_holds, of c d] fin_digest by (auto simp: update_then_def)

end

text \<open>What \<^verbatim>\<open>SHA1Final\<close> appends makes the message the padded one, which leaves nothing in the buffer.\<close>

lemma final_pieces:
  assumes "absorbed sc M"
  shows "(M @ take (unat (let b = 120 - sc_length sc in if b > 64 then b - 64 else b)) sha1_padding) @
    be64_bytes (8 * length M) = pad M"
proof -
  obtain p r where M: "M = p @ r" "length p mod 64 = 0" "length r < 64" "sc_length sc = of_nat (length r)"
    using assms by (auto simp: absorbed_def)
  have r: "length M mod 64 = length r" using M(1-3) by (simp add: mod_add_left_eq [symmetric])
  have "take (Suc z) sha1_padding = 0x80 # replicate z 0" if "z < 64" for z
    using that by (simp add: sha1_padding_def min_def)
  then show ?thesis using pad_count [OF M(3)] by (simp add: M(4) pad_def r)
qed

lemma padded_hash:
  assumes "absorbed sc (pad M)" shows "sc_hash sc = absorb initial_hash (pad M)"
proof -
  obtain p r where P: "pad M = p @ r" "length p mod 64 = 0" "length r < 64" "sc_hash sc = absorb initial_hash p"
    using assms by (auto simp: absorbed_def)
  have "length r mod 64 = 0" using length_pad [of M] P(1,2) by (metis length_append mod_add_left_eq add_0)
  with P(3) have "r = []" by simp
  with P show ?thesis by simp
qed

lemma sha1_final_digest:
  assumes "absorbed sc M" shows "sha1_final sc = Some (Inr (sha1_spec M))"
proof -
  let ?k = "unat (let b = 120 - sc_length sc in if b > 64 then b - 64 else b)"
  obtain sc1 where sc1: "sha1_update sc (take ?k sha1_padding) = Some (Inr sc1)"
      "absorbed sc1 (M @ take ?k sha1_padding)"
    using sha1_update_absorbed [OF assms] by blast
  obtain sc2 where sc2: "sha1_update sc1 (be64_bytes (8 * length M)) = Some (Inr sc2)" "absorbed sc2 (pad M)"
    using sha1_update_absorbed [OF sc1(2)] final_pieces [OF assms] by metis
  have "le64_bytes (byteswap64 (sc_total sc)) = be64_bytes (8 * length M)"
    using assms length_pad_bytes [of "8 * length M"] by (simp add: absorbed_def)
  then show ?thesis
    using sc1(1) sc2(1) padded_hash [OF sc2(2)]
    by (simp add: sha1_final_def Let_def update_then_def sha1_spec_def)
qed

interpretation sha1: stream_hash sha1_init sha1_update sha1_final "\<lambda>sc. length (sc_buffer sc) = 64"
  absorbed sha1_spec
  by unfold_locales (rule absorbed_init sha1_update_absorbed sha1_final_digest; assumption)+

section \<open>Properties of the hash\<close>

text \<open>
  One block: the sixteen byte-swapped words, the in-place schedule and the eighty unrolled rounds
  of \<^verbatim>\<open>SHA1Guts\<close>, with its rewritten choice and majority functions, are the compression function of
  FIPS 180-4.
\<close>

theorem sha1_guts_is_fips_compression: "sha1_guts h M = compress h M"
  by (rule sha1_guts_compress)

text \<open>
  C9. \<^verbatim>\<open>shahash\<close> returns, without touching memory outside its buffers, the SHA-1 digest of its argument,
  for every argument and whatever the uninitialised context held.
\<close>

theorem shahash_is_sha1:
  assumes "length (sc_buffer uninit) = 64"
  shows "shahash uninit str = Some (Inr (sha1_spec str))"
  unfolding shahash_def by (rule sha1.one_shot_digest [OF assms])

text \<open>
  \<^verbatim>\<open>SHA1Update\<close> may be called any number of times with pieces of any length: the digest is the one
  of the concatenation.
\<close>

theorem sha1_in_pieces:
  assumes "length (sc_buffer uninit) = 64"
  shows "update_then (feed sha1_update (sha1_init uninit) pieces) sha1_final =
    Some (Inr (sha1_spec (concat pieces)))"
  by (rule sha1.pieces_digest [OF assms])

definition uninit_ctx :: sha1_ctx where
  "uninit_ctx = \<lparr>sc_total = 7, sc_hash = [1, 2, 3, 4, 5], sc_length = 9, sc_buffer = replicate 64 255\<rparr>"

theorem shahash_is_sha1_witness:
  "shahash uninit_ctx [0x61, 0x62, 0x63] = Some (Inr (sha1_spec [0x61, 0x62, 0x63]))"
  by (rule shahash_is_sha1) (simp add: uninit_ctx_def)

theorem sha1_in_pieces_witness:
  "update_then (feed sha1_update (sha1_init uninit_ctx) [[0x61], [], [0x62, 0x63]]) sha1_final =
     Some (Inr (sha1_spec [0x61, 0x62, 0x63]))"
  using sha1_in_pieces [of uninit_ctx "[[0x61], [], [0x62, 0x63]]"] by (simp add: uninit_ctx_def)

end
