(* ===== verification/Hex.thy ===== *)
theory Hex
  imports Sha1
begin

text \<open>
  The rest of \<^verbatim>\<open>chunk.c\<close>: \<^verbatim>\<open>make_chunks\<close>, \<^verbatim>\<open>binary2hex\<close> and \<^verbatim>\<open>hex2binary\<close>, and the command line tool
  \<^verbatim>\<open>make_chunks.c\<close> that prints the hashes of a file.

  Characters are bytes, compared as signed \<^verbatim>\<open>char\<close>s where the code compares them; \<^verbatim>\<open>toupper\<close> is that of
  the C locale. Output arrays are lists of their full capacity. A file is its list of bytes. The
  context on the stack of \<^verbatim>\<open>shahash\<close> is uninitialised (\<open>uninit\<close>).
\<close>

section \<open>Hexadecimal strings\<close>

definition c_toupper :: "byte \<Rightarrow> byte" where
  "c_toupper c = (if 0x61 \<le> c \<and> c \<le> 0x7a then c - 32 else c)"

definition hex_digit_value :: "byte \<Rightarrow> byte" where
  "hex_digit_value hex =
     (let hex = c_toupper hex in if sint hex \<le> 0x39 then hex - 0x30 else hex - (0x41 - 0x0A))"

function hex_loop :: "byte list \<Rightarrow> nat \<Rightarrow> nat \<Rightarrow> nat \<Rightarrow> byte list \<Rightarrow> byte list res" where
  "hex_loop hex len base i buf =
     (if i < len then
        rbind (rd hex (int i)) (\<lambda>a.
        rbind (rd hex (int (i + 1))) (\<lambda>b.
        rbind (wr buf (int (base + i div 2)) (push_bit 4 (hex_digit_value a) OR hex_digit_value b)) (\<lambda>buf'.
        hex_loop hex len base (i + 2) buf')))
      else Inr buf)"
  by pat_completeness auto
termination by (relation "measure (\<lambda>(_, len, _, i, _). len - i)") auto

declare hex_loop.simps [simp del]

text \<open>\<open>hex2binary hex len buf base\<close> is \<^verbatim>\<open>hex2binary(hex, len, buf + base)\<close>.\<close>

definition hex2binary :: "byte list \<Rightarrow> nat \<Rightarrow> byte list \<Rightarrow> nat \<Rightarrow> byte list res" where
  "hex2binary hex len buf base = hex_loop hex len base 0 buf"

definition hex_char :: "byte \<Rightarrow> byte" where
  "hex_char v = (if v < 10 then 0x30 + v else 0x61 + (v - 10))"

definition hex_chars :: "byte \<Rightarrow> byte list" where
  "hex_chars b = [hex_char (drop_bit 4 b), hex_char (b AND 0xf)]"

fun binary2hex_loop :: "byte list \<Rightarrow> nat \<Rightarrow> byte list \<Rightarrow> byte list res" where
  "binary2hex_loop [] i hex = Inr hex"
| "binary2hex_loop (b # bs) i hex =
     rbind (memcpy hex (i * 2) (Some (hex_chars b @ [0])) 3) (binary2hex_loop bs (Suc i))"

definition binary2hex :: "byte list \<Rightarrow> byte list \<Rightarrow> byte list res" where
  "binary2hex buf hex =
     rbind (binary2hex_loop buf 0 hex) (\<lambda>hex. wr hex (int (length buf * 2)) 0)"

section \<open>Decoding and encoding\<close>

fun decode :: "byte list \<Rightarrow> byte list" where
  "decode (a # b # cs) = (push_bit 4 (hex_digit_value a) OR hex_digit_value b) # decode cs"
| "decode _ = []"

definition encode :: "byte list \<Rightarrow> byte list" where
  "encode bs = concat (map hex_chars bs)"

lemma length_encode [simp]: "length (encode bs) = 2 * length bs"
  by (induction bs) (simp_all add: encode_def hex_chars_def)

lemma length_decode [simp]: "length (decode cs) = length cs div 2"
  by (induction cs rule: decode.induct) auto

lemma hex_char_value: "v < 16 \<Longrightarrow> hex_digit_value (hex_char v) = v"
proof -
  assume "v < 16"
  then have "unat v < 16" by (simp add: word_less_nat_alt)
  then have "unat v \<in> set [0..<16]" by simp
  moreover have "\<forall>n \<in> set [0..<16]. hex_digit_value (hex_char (of_nat n)) = of_nat n"
    by code_simp
  ultimately have "hex_digit_value (hex_char (of_nat (unat v))) = of_nat (unat v)" by blast
  then show ?thesis by simp
qed

lemma nibbles:
  "drop_bit 4 b < (16 :: byte)" "take_bit 4 b < (16 :: byte)" "b AND 0xf = take_bit 4 b"
proof -
  have "unat (drop_bit 4 b) = unat b div 16"
    by (subst unat_drop_bit_eq) (simp add: drop_bit_eq_div)
  also have "\<dots> < 16"
    using unsigned_less [of b, where ?'a = nat] by (intro less_mult_imp_div_less) simp
  finally show "drop_bit 4 b < (16 :: byte)" by (simp add: word_less_nat_alt)
  have "unat (take_bit 4 b) < 2 ^ 4"
    unfolding unsigned_take_bit_eq by (rule take_bit_nat_less_exp)
  then show "take_bit 4 b < (16 :: byte)" by (simp add: word_less_nat_alt)
  show "b AND 0xf = take_bit 4 b" using take_bit_eq_mask [of 4 b] by (simp add: mask_numeral)
qed

lemma hex_chars_value:
  "push_bit 4 (hex_digit_value (hex_char (drop_bit 4 b))) OR hex_digit_value (hex_char (b AND 0xf)) = b"
proof -
  have "push_bit 4 (hex_digit_value (hex_char (drop_bit 4 b))) OR
      hex_digit_value (hex_char (b AND 0xf)) = push_bit 4 (drop_bit 4 b) OR take_bit 4 b"
    unfolding nibbles(3) by (simp only: hex_char_value nibbles)
  also have "\<dots> = b" by (rule bit_word_eqI) (auto simp: bit_simps)
  finally show ?thesis .
qed

lemma decode_encode [simp]: "decode (encode bs) = bs"
proof (induction bs)
  case (Cons b bs)
  have "encode (b # bs) = hex_char (drop_bit 4 b) # hex_char (b AND 0xf) # encode bs"
    by (simp add: encode_def hex_chars_def)
  then have "decode (encode (b # bs)) = (push_bit 4 (hex_digit_value (hex_char (drop_bit 4 b))) OR
      hex_digit_value (hex_char (b AND 0xf))) # decode (encode bs)"
    by (simp only: decode.simps)
  then show ?case unfolding hex_chars_value Cons .
qed (simp add: encode_def)

lemma hex_loop_result:
  assumes "i = 2 * m" "len = 2 * n" "m \<le> n" "len \<le> length hex" "base + n \<le> length buf"
  shows "hex_loop hex len base i buf =
    Inr (blit buf (base + m) (decode (take (len - i) (drop i hex))))"
  using assms(1,3,5)
proof (induction "n - m" arbitrary: m i buf)
  case 0
  then show ?case using assms(2) by (simp add: hex_loop.simps)
next
  case (Suc d)
  have i: "i < len" "Suc i < length hex" using Suc assms(2,4) by auto
  define v where "v = push_bit 4 (hex_digit_value (hex ! i)) OR hex_digit_value (hex ! Suc i)"
  have dr: "drop i hex = hex ! i # hex ! Suc i # drop (i + 2) hex"
    using i by (simp add: Cons_nth_drop_Suc)
  have le: "len - i = Suc (Suc (len - (i + 2)))" using i(1) Suc.prems(1) assms(2) by simp
  have dec: "decode (take (len - i) (drop i hex)) = v # decode (take (len - (i + 2)) (drop (i + 2) hex))"
    unfolding dr le by (simp add: v_def)
  have b: "base + m < length buf" using Suc by simp
  have nat: "nat (2 * int m) = 2 * m" by linarith
  have "hex_loop hex len base i buf = hex_loop hex len base (i + 2) (buf[base + m := v])"
    using i b Suc.prems(1)
    by (subst hex_loop.simps) (simp add: in_range_def v_def nat_add_distrib nat flip: of_nat_Suc of_nat_add)
  also have "\<dots> = Inr (blit (buf[base + m := v]) (base + Suc m)
      (decode (take (len - (i + 2)) (drop (i + 2) hex))))"
    using Suc by (intro Suc.hyps(1)) auto
  also have "blit (buf[base + m := v]) (base + Suc m) (decode (take (len - (i + 2)) (drop (i + 2) hex)))
      = blit buf (base + m) (decode (take (len - i) (drop i hex)))"
    unfolding dec using b by (simp add: blit_def take_Suc_conv_app_nth)
  finally show ?case .
qed

lemma hex2binary_decode:
  assumes "len = 2 * n" "len \<le> length hex" "base + n \<le> length buf"
  shows "hex2binary hex len buf base = Inr (blit buf base (decode (take len hex)))"
  unfolding hex2binary_def
  using hex_loop_result [OF _ assms(1) _ assms(2,3), of 0 0] by simp

lemma binary2hex_loop_result:
  assumes "length pre = 2 * i" "length bs * 2 < length rest"
  shows "\<exists>rest'. binary2hex_loop bs i (pre @ rest) = Inr (pre @ encode bs @ rest') \<and>
    length rest' = length rest - 2 * length bs"
  using assms
proof (induction bs arbitrary: i pre rest)
  case Nil
  then show ?case by (simp add: encode_def)
next
  case (Cons b bs)
  have h: "length (hex_chars b) = 2" by (simp add: hex_chars_def)
  have copy: "memcpy (pre @ rest) (i * 2) (Some (hex_chars b @ [0])) 3 =
      Inr ((pre @ hex_chars b) @ (0 # drop 3 rest))"
    using Cons.prems h by (simp add: memcpy_Some blit_def mult.commute)
  have r: "length (0 # drop 3 rest) = length rest - 2" using Cons.prems by simp
  have room: "length bs * 2 < length (0 # drop 3 rest)" unfolding r using Cons.prems(2) by simp
  have at: "length (pre @ hex_chars b) = 2 * Suc i" using Cons.prems(1) h by simp
  obtain rest' where "binary2hex_loop bs (Suc i) ((pre @ hex_chars b) @ (0 # drop 3 rest)) =
      Inr ((pre @ hex_chars b) @ encode bs @ rest')" "length rest' = length (0 # drop 3 rest) - 2 * length bs"
    using Cons.IH [OF at room] by blast
  with copy r show ?case by (simp add: encode_def)
qed

lemma binary2hex_encode:
  assumes "2 * length bs < length hex"
  shows "\<exists>rest. binary2hex bs hex = Inr (encode bs @ 0 # rest)"
proof -
  obtain rest where r: "binary2hex_loop bs 0 hex = Inr (encode bs @ rest)"
      "length rest = length hex - 2 * length bs"
    using binary2hex_loop_result [of "[]" 0 bs hex] assms by auto
  then obtain x xs where "rest = x # xs" using assms by (cases rest) auto
  moreover have "nat (int (length bs) * 2) = 2 * length bs" by linarith
  ultimately show ?thesis
    using r(1) by (simp add: binary2hex_def in_range_def list_update_append)
qed

section \<open>Chunks of a file\<close>

definition BT_CHUNK_SIZE :: nat where "BT_CHUNK_SIZE = 524288"

text \<open>
  \<^verbatim>\<open>make_chunks\<close>: \<open>room\<close> is the number of allocated entries of \<^verbatim>\<open>chunk_hashes\<close> that are left. The loop
  stops when \<^verbatim>\<open>fread\<close> returns 0.
\<close>

function make_chunks :: "sha1_ctx \<Rightarrow> byte list \<Rightarrow> nat \<Rightarrow> byte list list res option" where
  "make_chunks uninit fp room =
     (let bytes = take BT_CHUNK_SIZE fp
      in if bytes = [] then Some (Inr [])
         else if room = 0 then Some (Inl Out_Of_Bounds)
         else update_then (shahash uninit bytes) (\<lambda>h.
              update_then (make_chunks uninit (drop BT_CHUNK_SIZE fp) (room - 1)) (\<lambda>hs.
              Some (Inr (h # hs)))))"
  by pat_completeness auto
termination by (relation "measure (\<lambda>(_, fp, _). length fp)") (auto simp: BT_CHUNK_SIZE_def)

declare make_chunks.simps [simp del]

text \<open>
  The main function of \<^verbatim>\<open>make_chunks.c\<close>: \<^verbatim>\<open>get_numchunks\<close> rounds the size up to whole chunks, and every
  hash becomes a line with its number.
\<close>

definition get_numchunks :: "nat \<Rightarrow> nat" where
  "get_numchunks st_size = (st_size + BT_CHUNK_SIZE - 1) div BT_CHUNK_SIZE"

definition print_hash :: "byte list \<Rightarrow> byte list res" where
  "print_hash h = rbind (binary2hex h (replicate 41 0)) c_string"

fun print_hashes :: "nat \<Rightarrow> byte list list \<Rightarrow> (nat \<times> byte list) list res" where
  "print_hashes i [] = Inr []"
| "print_hashes i (h # hs) =
     rbind (print_hash h) (\<lambda>ascii. rbind (print_hashes (Suc i) hs) (\<lambda>ls. Inr ((i, ascii) # ls)))"

definition make_chunks_main :: "sha1_ctx \<Rightarrow> byte list \<Rightarrow> (nat \<times> byte list) list res option" where
  "make_chunks_main uninit file =
     update_then (make_chunks uninit file (get_numchunks (length file)))
       (\<lambda>hashes. Some (print_hashes 0 hashes))"

function file_chunks :: "byte list \<Rightarrow> byte list list" where
  "file_chunks fp = (if fp = [] then [] else take BT_CHUNK_SIZE fp # file_chunks (drop BT_CHUNK_SIZE fp))"
  by pat_completeness auto
termination by (relation "measure length") (auto simp: BT_CHUNK_SIZE_def)

declare file_chunks.simps [simp del]

lemma chunk_size_pos: "0 < BT_CHUNK_SIZE"
  by (simp add: BT_CHUNK_SIZE_def)

lemma ceil_step:
  assumes "0 < B" "0 < (n :: nat)"
  shows "(n + B - 1) div B = Suc ((n - B + B - 1) div B)"
proof -
  have eq: "n + B - 1 = (n - 1) + B" using assms by linarith
  have "B \<noteq> 0" using assms(1) by simp
  then have 1: "(n + B - 1) div B = Suc ((n - 1) div B)"
    unfolding eq Suc_eq_plus1 by (rule div_add_self2)
  have "(n - B + B - 1) div B = (n - 1) div B"
  proof (cases "n < B")
    case True
    then have "n - B + B - 1 < B" "n - 1 < B" using assms by linarith+
    then show ?thesis by (simp only: div_less)
  next
    case False
    then have "n - B + B - 1 = n - 1" by linarith
    then show ?thesis by (simp only:)
  qed
  with 1 show ?thesis by (simp only:)
qed

lemma length_file_chunks: "length (file_chunks fp) = get_numchunks (length fp)"
proof (induction fp rule: file_chunks.induct)
  case (1 fp)
  show ?case
  proof (cases "fp = []")
    case True
    then show ?thesis using chunk_size_pos by (simp add: file_chunks.simps get_numchunks_def)
  next
    case False
    then have "0 < length fp" by simp
    have "length (file_chunks fp) = Suc (length (file_chunks (drop BT_CHUNK_SIZE fp)))"
      using False by (subst file_chunks.simps) simp
    also have "\<dots> = Suc (get_numchunks (length fp - BT_CHUNK_SIZE))"
      using 1 [OF False] by simp
    also have "\<dots> = get_numchunks (length fp)"
      unfolding get_numchunks_def using chunk_size_pos \<open>0 < length fp\<close> by (rule ceil_step [symmetric])
    finally show ?thesis .
  qed
qed

lemma make_chunks_result:
  assumes "length (sc_buffer uninit) = 64" "length (file_chunks fp) \<le> room"
  shows "make_chunks uninit fp room = Some (Inr (map sha1_spec (file_chunks fp)))"
  using assms(2)
proof (induction fp arbitrary: room rule: file_chunks.induct)
  case (1 fp)
  have sha: "shahash uninit d = Some (Inr (sha1_spec d))" for d
    unfolding shahash_def by (rule sha1.one_shot_digest [OF assms(1)])
  show ?case
  proof (cases "fp = []")
    case True
    then show ?thesis by (simp add: make_chunks.simps file_chunks.simps)
  next
    case False
    then have fc: "file_chunks fp = take BT_CHUNK_SIZE fp # file_chunks (drop BT_CHUNK_SIZE fp)"
      by (simp add: file_chunks.simps [of fp])
    then have "length (file_chunks (drop BT_CHUNK_SIZE fp)) \<le> room - 1" "room \<noteq> 0"
      using 1(2) by simp_all
    then show ?thesis
      using 1(1) [OF False] False chunk_size_pos
      by (subst make_chunks.simps) (simp add: Let_def sha fc update_then_def)
  qed
qed

lemma length_word_bytes [simp]: "length (word_bytes w) = 4"
  by (simp add: word_bytes_def)

lemma length_compress [simp]: "length (compress h M) = 5"
  by (simp add: compress_def split: prod.split)

lemma length_absorb: "length h = 5 \<Longrightarrow> length (absorb h M) = 5"
  by (induction h M rule: absorb.induct) (simp add: absorb.simps)

lemma length_sha1_spec [simp]: "length (sha1_spec M) = 20"
proof -
  have "length (concat (map word_bytes ws)) = 4 * length ws" for ws by (induction ws) simp_all
  then show ?thesis by (simp add: sha1_spec_def length_absorb)
qed

lemma encode_nonzero: "0 \<notin> set (encode bs)"
proof -
  have "hex_char v \<noteq> 0" if "v < 16" for v
  proof -
    have "unat v < 16" using that by (simp add: word_less_nat_alt)
    then have "unat v \<in> set [0..<16]" by simp
    moreover have "\<forall>n \<in> set [0..<16]. hex_char (of_nat n) \<noteq> 0" by code_simp
    ultimately have "hex_char (of_nat (unat v)) \<noteq> 0" by blast
    then show ?thesis by simp
  qed
  then have "hex_char (drop_bit 4 b) \<noteq> 0" "hex_char (b AND 0xf) \<noteq> 0" for b
    using nibbles [of b] by simp_all
  then show ?thesis unfolding encode_def hex_chars_def by auto
qed

lemma print_hash_result:
  assumes "length h = 20" shows "print_hash h = Inr (encode h)"
proof -
  obtain rest where "binary2hex h (replicate 41 0) = Inr (encode h @ 0 # rest)"
    using binary2hex_encode [of h "replicate 41 0"] assms by auto
  moreover have "takeWhile (\<lambda>b. b \<noteq> 0) (encode h @ 0 # rest) = encode h"
    using encode_nonzero [of h] by (subst takeWhile_append2) auto
  ultimately show ?thesis by (simp add: print_hash_def c_string_def)
qed

lemma print_hashes_result:
  "\<forall>h \<in> set hs. length h = 20 \<Longrightarrow> print_hashes i hs = Inr (enumerate i (map encode hs))"
  by (induction hs arbitrary: i) (simp_all add: print_hash_result)

section \<open>Properties of chunk hashing\<close>

text \<open>
  \<^verbatim>\<open>binary2hex\<close> and \<^verbatim>\<open>hex2binary\<close> are inverse: a binary string written into a large enough array and
  read back into another is unchanged, at any base address inside it and without a fault.
\<close>

theorem hex_roundtrip:
  assumes "2 * length bs < length out" and "base + length bs \<le> length buf"
  shows "\<exists>hex. binary2hex bs out = Inr hex \<and>
    hex2binary hex (2 * length bs) buf base = Inr (blit buf base bs)"
proof -
  obtain rest where r: "binary2hex bs out = Inr (encode bs @ 0 # rest)"
    using binary2hex_encode [OF assms(1)] by blast
  have "hex2binary (encode bs @ 0 # rest) (2 * length bs) buf base = Inr (blit buf base bs)"
    using hex2binary_decode [of "2 * length bs" "length bs" "encode bs @ 0 # rest" base buf] assms(2)
    by simp
  with r show ?thesis by blast
qed

text \<open>
  C26. \<^verbatim>\<open>make_chunks\<close> prints one line for every 512 kB of the file, the last one possibly shorter, with the
  number of the chunk and its SHA-1 in lower-case hexadecimal, and the arrays it allocates from the
  file size are exactly large enough.
\<close>

theorem make_chunks_prints_hashes:
  assumes "length (sc_buffer uninit) = 64"
  shows "make_chunks_main uninit file =
    Some (Inr (enumerate 0 (map (\<lambda>c. encode (sha1_spec c)) (file_chunks file))))"
  using make_chunks_result [of uninit "file" "get_numchunks (length file)"]
    print_hashes_result [of "map sha1_spec (file_chunks file)" 0] assms
  by (simp add: make_chunks_main_def update_then_def length_file_chunks comp_def)

theorem hex_roundtrip_witness:
  "\<exists>hex. binary2hex [0x3f, 0xa0] (replicate 5 9) = Inr hex \<and>
     hex2binary hex 4 [1, 2, 3, 4] 1 = Inr [1, 0x3f, 0xa0, 4]"
  using hex_roundtrip [of "[0x3f, 0xa0]" "replicate 5 9" 1 "[1, 2, 3, 4]"] by (simp add: blit_def)

theorem make_chunks_prints_hashes_witness:
  "make_chunks_main uninit_ctx [0x61, 0x62, 0x63] =
     Some (Inr [(0, encode (sha1_spec [0x61, 0x62, 0x63]))])"
proof -
  have "file_chunks [0x61, 0x62, 0x63] = [[0x61, 0x62, 0x63]]"
    by (simp add: file_chunks.simps BT_CHUNK_SIZE_def)
  then show ?thesis
    using make_chunks_prints_hashes [of uninit_ctx "[0x61, 0x62, 0x63]"] by (simp add: uninit_ctx_def)
qed

end
