(* ===== verification/ChunkFiles.thy ===== *)
theory ChunkFiles
  imports Hex
begin

text \<open>
  The functions of \<^verbatim>\<open>packet.c\<close> that read chunk files: \<^verbatim>\<open>read_chunkfile\<close>, \<^verbatim>\<open>find_in_local_has\<close>,
  \<^verbatim>\<open>get_hash_from_master_chunkfile\<close>, \<^verbatim>\<open>get_off_set_from_master_chunkfile\<close> and \<^verbatim>\<open>get_data_from_hash\<close>, with
  the conversions of \<^verbatim>\<open>fscanf\<close> that they use.

  The file system is a map from names to contents. The arrays \<^verbatim>\<open>line\<close> and \<^verbatim>\<open>temp\<close> have 40 bytes and
  receive strings of 40 characters with their NUL; the parameter \<open>slack\<close> holds the bytes behind the
  array that the program may overwrite without harm (stack padding), and writing beyond them is a
  fault. \<^verbatim>\<open>%d\<close> is read without a bound, for numbers that fit an \<^verbatim>\<open>int\<close>. \<^verbatim>\<open>content_path\<close> counts as empty
  until a name was read into it.
\<close>

type_synonym files = "byte list \<Rightarrow> byte list option"

section \<open>Conversions of fscanf and atoi\<close>

definition is_space :: "byte \<Rightarrow> bool" where
  "is_space b \<longleftrightarrow> b = 32 \<or> 9 \<le> b \<and> b \<le> 13"

definition is_digit :: "byte \<Rightarrow> bool" where
  "is_digit b \<longleftrightarrow> 0x30 \<le> b \<and> b \<le> 0x39"

definition skip_space :: "byte list \<Rightarrow> byte list" where
  "skip_space s = dropWhile is_space s"

definition digits_value :: "byte list \<Rightarrow> int" where
  "digits_value ds = foldl (\<lambda>v d. 10 * v + (uint d - 0x30)) 0 ds"

definition scan_digits :: "byte list \<Rightarrow> (int \<times> byte list) option" where
  "scan_digits s =
     (if takeWhile is_digit s = [] then None
      else Some (digits_value (takeWhile is_digit s), dropWhile is_digit s))"

definition scan_int :: "byte list \<Rightarrow> (int \<times> byte list) option" where
  "scan_int s =
     (case skip_space s of
        [] \<Rightarrow> None
      | c # r \<Rightarrow>
          if c = 0x2d then map_option (\<lambda>(v, r). (- v, r)) (scan_digits r)
          else if c = 0x2b then scan_digits r else scan_digits (c # r))"

definition atoi :: "byte list \<Rightarrow> int" where
  "atoi s = (case scan_int s of None \<Rightarrow> 0 | Some (v, _) \<Rightarrow> v)"

definition scan_word :: "byte list \<Rightarrow> (byte list \<times> byte list) option" where
  "scan_word s =
     (if skip_space s = [] then None
      else Some (takeWhile (\<lambda>b. \<not> is_space b) (skip_space s), dropWhile (\<lambda>b. \<not> is_space b) (skip_space s)))"

text \<open>
  \<^verbatim>\<open>fscanf(fp, "%d %s", &index, line)\<close>: \<open>None\<close> when it returns 0 or EOF; the word is \<open>None\<close> when only the
  number was converted.
\<close>

definition scan_line :: "byte list \<Rightarrow> (int \<times> byte list option \<times> byte list) option" where
  "scan_line s =
     (case scan_int s of
        None \<Rightarrow> None
      | Some (v, r) \<Rightarrow>
          Some (case scan_word r of None \<Rightarrow> (v, None, []) | Some (w, r') \<Rightarrow> (v, Some w, r')))"

definition put_word :: "byte list \<Rightarrow> byte list option \<Rightarrow> byte list res" where
  "put_word arr w = (case w of None \<Rightarrow> Inr arr | Some w \<Rightarrow> memcpy arr 0 (Some (w @ [0])) (length w + 1))"

lemma length_skip_space: "length (skip_space s) \<le> length s"
  by (simp add: skip_space_def length_dropWhile_le)

lemma length_scan_digits: "scan_digits s = Some (v, r) \<Longrightarrow> length r < length s"
proof -
  assume s: "scan_digits s = Some (v, r)"
  then have "takeWhile is_digit s \<noteq> []" "r = dropWhile is_digit s"
    by (auto simp: scan_digits_def split: if_splits)
  moreover have "length s = length (takeWhile is_digit s) + length (dropWhile is_digit s)"
    by (metis length_append takeWhile_dropWhile_id)
  ultimately show ?thesis by simp
qed

lemma length_scan_int: "scan_int s = Some (v, r) \<Longrightarrow> length r < length s"
  using length_skip_space [of s] length_scan_digits
  by (fastforce simp: scan_int_def split: list.splits if_splits)

lemma length_scan_word: "scan_word s = Some (w, r) \<Longrightarrow> length r \<le> length s"
  using length_skip_space [of s] length_dropWhile_le [of "\<lambda>b. \<not> is_space b" "skip_space s"]
  by (auto simp: scan_word_def split: if_splits)

lemma length_scan_line: "scan_line s = Some (v, w, r) \<Longrightarrow> length r < length s"
  using length_scan_int [of s] length_scan_word
  by (fastforce simp: scan_line_def split: option.splits prod.splits)

section \<open>The list of local chunks\<close>

text \<open>The loop of \<^verbatim>\<open>read_chunkfile\<close>; its result is \<^verbatim>\<open>data\<close>, \<^verbatim>\<open>count\<close>, and whether it ran to the end.\<close>

function read_loop ::
  "byte list \<Rightarrow> byte list \<Rightarrow> byte list \<Rightarrow> nat \<Rightarrow> (byte list \<times> nat \<times> bool) res" where
  "read_loop s line dat count =
     (case scan_line s of
        None \<Rightarrow> Inr (dat, count, True)
      | Some (index, w, rest) \<Rightarrow>
          rbind (put_word line w) (\<lambda>line.
          rbind (c_string line) (\<lambda>str.
          if length str > 40 then Inr (dat, count, False)
          else rbind (hex2binary line 40 dat count) (\<lambda>dat.
               read_loop (skip_space rest) (blit line 0 (replicate 40 0)) dat (count + 20)))))"
  by pat_completeness auto
termination
  by (relation "measure (\<lambda>(s, _). length s)")
     (auto dest!: length_scan_line intro: le_less_trans [OF length_skip_space])

declare read_loop.simps [simp del]

definition read_chunkfile ::
  "byte list \<Rightarrow> files \<Rightarrow> byte list \<Rightarrow> byte list \<Rightarrow> (byte list \<times> int) res" where
  "read_chunkfile slack fs chunkfile dat =
     (case fs chunkfile of
        None \<Rightarrow> Inr (dat, -1)
      | Some s \<Rightarrow>
          rbind (read_loop s (replicate 40 0 @ slack) dat 0) (\<lambda>(dat, count, complete).
          if \<not> complete then Inr (dat, -1)
          else rbind (wr dat (int count) 0) (\<lambda>dat. Inr (dat, int count))))"

definition find_in_local_has :: "byte list \<Rightarrow> byte list \<Rightarrow> int res" where
  "find_in_local_has hash local =
     rbind (c_string local) (\<lambda>str.
     Inr (if \<exists>i < length str div 20. take 20 (drop (i * 20) local) = hash then 1 else 0))"

section \<open>The master chunk file\<close>

definition scan_header ::
  "byte list \<Rightarrow> byte list \<Rightarrow> byte list \<Rightarrow> (byte list \<times> byte list \<times> byte list) res" where
  "scan_header s temp path =
     rbind (case scan_word s of
              None \<Rightarrow> Inr (temp, path, [])
            | Some (w, r) \<Rightarrow>
                rbind (put_word temp (Some w)) (\<lambda>temp.
                case scan_word r of
                  None \<Rightarrow> Inr (temp, path, [])
                | Some (w, r) \<Rightarrow>
                    rbind (put_word path (Some w)) (\<lambda>path. Inr (temp, path, skip_space r))))
       (\<lambda>(temp, path, s).
     case scan_word s of
       None \<Rightarrow> Inr (temp, path, [])
     | Some (w, r) \<Rightarrow> rbind (put_word temp (Some w)) (\<lambda>temp. Inr (temp, path, skip_space r)))"

text \<open>
  The search loops. \<open>match_loop\<close> is the one of \<^verbatim>\<open>get_off_set_from_master_chunkfile\<close> (\<open>clear\<close> false) and of
  \<^verbatim>\<open>get_data_from_hash\<close> (\<open>clear\<close> true: \<^verbatim>\<open>temp\<close> is zeroed after every line); it returns the last index
  read and whether the hash was found.
\<close>

function match_loop ::
  "bool \<Rightarrow> byte list \<Rightarrow> byte list \<Rightarrow> byte list \<Rightarrow> int \<Rightarrow> (int \<times> bool) res" where
  "match_loop clear hash s temp index =
     (case scan_line s of
        None \<Rightarrow> Inr (index, False)
      | Some (v, w, rest) \<Rightarrow>
          rbind (put_word temp w) (\<lambda>temp.
          rbind (hex2binary temp 40 (replicate 20 0) 0) (\<lambda>local.
          if local = hash then Inr (v, True)
          else match_loop clear hash rest (if clear then blit temp 0 (replicate 40 0) else temp) v)))"
  by pat_completeness auto
termination
  by (relation "measure (\<lambda>(_, _, s, _). length s)") (auto dest!: length_scan_line)

declare match_loop.simps [simp del]

function hash_loop :: "int \<Rightarrow> byte list \<Rightarrow> byte list \<Rightarrow> byte list option res" where
  "hash_loop offset s temp =
     (case scan_line s of
        None \<Rightarrow> Inr None
      | Some (v, w, rest) \<Rightarrow>
          rbind (put_word temp w) (\<lambda>temp.
          if v = offset
          then rbind (hex2binary temp 40 (replicate 20 0) 0) (\<lambda>hash. Inr (Some hash))
          else hash_loop offset rest temp))"
  by pat_completeness auto
termination
  by (relation "measure (\<lambda>(_, s, _). length s)") (auto dest!: length_scan_line)

declare hash_loop.simps [simp del]

text \<open>\<^verbatim>\<open>temp\<close> and \<^verbatim>\<open>content_path\<close> after the header was read and \<^verbatim>\<open>temp\<close> was zeroed.\<close>

definition open_master ::
  "byte list \<Rightarrow> byte list \<Rightarrow> (byte list \<times> byte list \<times> byte list) res" where
  "open_master slack s =
     rbind (scan_header s (replicate 40 0 @ slack) (replicate 512 0)) (\<lambda>(temp, path, s).
     Inr (blit temp 0 (replicate 40 0), path, s))"

definition get_hash_from_master_chunkfile ::
  "byte list \<Rightarrow> files \<Rightarrow> byte list \<Rightarrow> int \<Rightarrow> byte list option res" where
  "get_hash_from_master_chunkfile slack fs master offset =
     (case fs master of
        None \<Rightarrow> Inr None
      | Some s \<Rightarrow> rbind (open_master slack s) (\<lambda>(temp, path, s). hash_loop offset s temp))"

definition get_off_set_from_master_chunkfile ::
  "byte list \<Rightarrow> files \<Rightarrow> byte list \<Rightarrow> byte list \<Rightarrow> int res" where
  "get_off_set_from_master_chunkfile slack fs master hash =
     (case fs master of
        None \<Rightarrow> Inr (-1)
      | Some s \<Rightarrow>
          rbind (open_master slack s) (\<lambda>(temp, path, s).
          rbind (match_loop False hash s temp 0) (\<lambda>(index, found).
          Inr (if found then index else -1))))"

text \<open>
  \<^verbatim>\<open>fread(data, 512 * 1024, 1, content)\<close> after \<^verbatim>\<open>fseek\<close>: a negative position is refused and leaves the
  file at its start; the part of the buffer that the file does not reach keeps its old bytes.
\<close>

definition read_content :: "byte list \<Rightarrow> int \<Rightarrow> byte list \<Rightarrow> byte list" where
  "read_content content pos dat =
     blit dat 0 (take (length dat) (drop (if pos < 0 then 0 else nat pos) content))"

definition get_data_from_hash ::
  "byte list \<Rightarrow> int \<Rightarrow> byte list \<Rightarrow> files \<Rightarrow> byte list \<Rightarrow> byte list \<Rightarrow> byte list option res" where
  "get_data_from_hash slack uninit_index uninit_data fs master hash =
     (case fs master of
        None \<Rightarrow> Inr None
      | Some s \<Rightarrow>
          rbind (open_master slack s) (\<lambda>(temp, path, s).
          rbind (match_loop True hash s temp uninit_index) (\<lambda>(index, found).
          rbind (c_string path) (\<lambda>name.
          case fs name of
            None \<Rightarrow> Inl Null_Deref
          | Some content \<Rightarrow>
              if -2147483648 \<le> 524288 * index \<and> 524288 * index \<le> 2147483647
              then Inr (Some (read_content content (524288 * index) uninit_data))
              else Inl Int_Overflow))))"

section \<open>Well-formed chunk files\<close>

text \<open>\<open>entry_line\<close>: a line as \<^verbatim>\<open>make_chunks\<close> prints it, number, space, hash, newline.\<close>

fun print_nat :: "nat \<Rightarrow> byte list" where
  "print_nat n = (if n < 10 then [of_nat (48 + n)] else print_nat (n div 10) @ [of_nat (48 + n mod 10)])"

declare print_nat.simps [simp del]

definition entry_line :: "nat \<times> byte list \<Rightarrow> byte list" where
  "entry_line e = print_nat (fst e) @ [32] @ encode (snd e) @ [10]"

definition chunk_text :: "(nat \<times> byte list) list \<Rightarrow> byte list" where
  "chunk_text es = concat (map entry_line es)"

lemma digit_byte:
  assumes "d < 10"
  shows "uint (of_nat (48 + d) :: byte) = 48 + int d" "is_digit (of_nat (48 + d))"
proof -
  have u: "unat (of_nat (48 + d) :: byte) = 48 + d" unfolding unat_of_nat using assms by simp
  then show "uint (of_nat (48 + d) :: byte) = 48 + int d"
    by (metis of_nat_add of_nat_numeral uint_nat)
  show "is_digit (of_nat (48 + d))"
    using assms u by (simp add: is_digit_def word_le_nat_alt)
qed

lemma print_nat_digits:
  "print_nat n \<noteq> [] \<and> (\<forall>b \<in> set (print_nat n). is_digit b) \<and> digits_value (print_nat n) = int n"
proof (induction n rule: print_nat.induct)
  case (1 n)
  show ?case
  proof (cases "n < 10")
    case True
    then show ?thesis using digit_byte [of n] by (simp add: print_nat.simps digits_value_def)
  next
    case False
    have d: "n mod 10 < 10" by simp
    have "int n = int (10 * (n div 10) + n mod 10)" by simp
    then have "int n = 10 * int (n div 10) + int (n mod 10)"
      by (simp only: of_nat_add of_nat_mult of_nat_numeral)
    then show ?thesis
      using False 1 digit_byte [OF d] by (subst (1 2 3) print_nat.simps) (simp add: digits_value_def)
  qed
qed

lemma digit_not_space: "is_digit b \<Longrightarrow> \<not> is_space b \<and> b \<noteq> 0x2d \<and> b \<noteq> 0x2b"
  by (auto simp: is_digit_def is_space_def word_le_nat_alt)

lemma scan_int_print: "\<not> is_digit c \<Longrightarrow> scan_int (print_nat n @ c # r) = Some (int n, c # r)"
proof -
  assume c: "\<not> is_digit c"
  note p = print_nat_digits [of n]
  have tw: "takeWhile is_digit (print_nat n @ c # r) = print_nat n"
    "dropWhile is_digit (print_nat n @ c # r) = c # r"
    using p c by (simp_all add: takeWhile_append2 dropWhile_append2)
  then have d: "scan_digits (print_nat n @ c # r) = Some (int n, c # r)"
    using p by (simp add: scan_digits_def)
  obtain x xs where x: "print_nat n = x # xs" "is_digit x" using p by (cases "print_nat n") auto
  show ?thesis
    using d digit_not_space [OF x(2)] by (simp add: scan_int_def skip_space_def x(1))
qed

lemma hex_char_not_space:
  assumes "v < 16" shows "\<not> is_space (hex_char v)"
proof -
  have "unat v < 16" using assms by (simp add: word_less_nat_alt)
  then have "unat v \<in> set [0..<16]" by simp
  moreover have "\<forall>n \<in> set [0..<16]. \<not> is_space (hex_char (of_nat n))" by code_simp
  ultimately have "\<not> is_space (hex_char (of_nat (unat v)))" by blast
  then show ?thesis by simp
qed

lemma encode_no_space: "b \<in> set (encode bs) \<Longrightarrow> \<not> is_space b"
  by (auto simp: encode_def hex_chars_def nibbles hex_char_not_space)

lemma scan_word_word:
  assumes "\<And>b. b \<in> set w \<Longrightarrow> \<not> is_space b" "w \<noteq> []" "is_space c"
  shows "scan_word (w @ c # r) = Some (w, c # r)" "scan_word (32 # w @ c # r) = Some (w, c # r)"
proof -
  obtain x xs where x: "w = x # xs" "\<not> is_space x" using assms(1,2) by (cases w) auto
  have sp: "is_space 32" by (simp add: is_space_def)
  have "skip_space (w @ c # r) = w @ c # r" "skip_space (32 # w @ c # r) = w @ c # r"
    using x(2) sp by (simp_all add: skip_space_def x(1))
  moreover have "takeWhile (\<lambda>b. \<not> is_space b) (w @ c # r) = w"
    "dropWhile (\<lambda>b. \<not> is_space b) (w @ c # r) = c # r"
    using assms(1,3) by (simp_all add: takeWhile_append2 dropWhile_append2)
  ultimately show "scan_word (w @ c # r) = Some (w, c # r)" "scan_word (32 # w @ c # r) = Some (w, c # r)"
    using assms(2) by (simp_all add: scan_word_def)
qed

lemma encode_Nil_iff [simp]: "encode bs = [] \<longleftrightarrow> bs = []"
  by (metis length_0_conv length_encode mult_is_0 zero_neq_numeral)

lemma scan_line_entry:
  assumes "snd e \<noteq> []"
  shows "scan_line (entry_line e @ r) = Some (int (fst e), Some (encode (snd e)), 10 # r)"
proof -
  have "\<not> is_digit 32" by (simp add: is_digit_def)
  moreover have "is_space 10" by (simp add: is_space_def)
  ultimately show ?thesis
    using scan_int_print [of 32 "fst e" "encode (snd e) @ 10 # r"]
      scan_word_word(2) [of "encode (snd e)" 10 r] encode_no_space assms
    by (simp add: scan_line_def entry_line_def)
qed

lemma scan_line_space: "is_space c \<Longrightarrow> scan_line (c # s) = scan_line s"
  by (simp add: scan_line_def scan_int_def skip_space_def)

lemma scan_line_Nil [simp]: "scan_line [] = None"
  by (simp add: scan_line_def scan_int_def skip_space_def)

lemma skip_space_chunk_text: "skip_space (10 # chunk_text es) = chunk_text es"
proof -
  have "skip_space (chunk_text es) = chunk_text es"
  proof (cases es)
    case (Cons e es')
    obtain x xs where x: "print_nat (fst e) = x # xs" "is_digit x"
      using print_nat_digits [of "fst e"] by (cases "print_nat (fst e)") auto
    show ?thesis
      using digit_not_space [OF x(2)] by (simp add: Cons chunk_text_def entry_line_def skip_space_def x(1))
  qed (simp add: chunk_text_def skip_space_def)
  then show ?thesis by (simp add: skip_space_def is_space_def)
qed

section \<open>Reading a list of hashes\<close>

lemma blit_blit:
  "k + length h \<le> length dat \<Longrightarrow> blit (blit dat k h) (k + length h) t = blit dat k (h @ t)"
  by (simp add: blit_def ac_simps)

lemma blit_end: "k + length h < length dat \<Longrightarrow> (blit dat k h)[k + length h := v] = blit dat k (h @ [v])"
  by (simp add: blit_def list_update_append Cons_nth_drop_Suc [symmetric])

lemma put_word_hash:
  assumes "length h = 20" "41 \<le> length arr"
  shows "put_word arr (Some (encode h)) = Inr (encode h @ 0 # drop 41 arr)"
  using assms by (simp add: put_word_def memcpy_Some blit_def)

lemma put_word_overflow:
  "length h = 20 \<Longrightarrow> length arr = 40 \<Longrightarrow> put_word arr (Some (encode h)) = Inl Out_Of_Bounds"
  by (simp add: put_word_def memcpy_Some)

lemma c_string_hash: "c_string (encode h @ 0 # r) = Inr (encode h)"
proof -
  have "takeWhile (\<lambda>b. b \<noteq> 0) (encode h @ 0 # r) = encode h"
    using encode_nonzero [of h] by (subst takeWhile_append2) auto
  then show ?thesis by (simp add: c_string_def)
qed

lemma hex2binary_hash:
  assumes "length h = 20" "base + 20 \<le> length buf"
  shows "hex2binary (encode h @ r) 40 buf base = Inr (blit buf base h)"
proof -
  have "take 40 (encode h @ r) = encode h" using assms(1) by simp
  then show ?thesis
    using hex2binary_decode [of 40 20 "encode h @ r" base buf] assms by simp
qed

lemma hex_loop_fault:
  assumes "i = 2 * m" "len = 2 * n" "m \<le> n" "len \<le> length hex" "length buf < base + n"
    "base + m \<le> length buf"
  shows "hex_loop hex len base i buf = Inl Out_Of_Bounds"
  using assms(1,3,5,6)
proof (induction "n - m" arbitrary: m i buf)
  case (Suc d)
  have i: "i < len" "Suc i < length hex" using Suc assms(2,4) by auto
  have nat: "nat (2 * int m) = 2 * m" by linarith
  show ?case
  proof (cases "base + m < length buf")
    case True
    define v where "v = push_bit 4 (hex_digit_value (hex ! i)) OR hex_digit_value (hex ! Suc i)"
    have "hex_loop hex len base i buf = hex_loop hex len base (i + 2) (buf[base + m := v])"
      using i True Suc.prems(1)
      by (subst hex_loop.simps)
         (simp add: in_range_def v_def nat_add_distrib nat flip: of_nat_Suc of_nat_add)
    also have "\<dots> = Inl Out_Of_Bounds" using Suc True by (intro Suc.hyps(1) [of "Suc m"]) auto
    finally show ?thesis .
  next
    case False
    then show ?thesis
      using i Suc.prems(1)
      by (subst hex_loop.simps) (simp add: in_range_def flip: of_nat_Suc of_nat_add)
  qed
qed (use assms in simp)

lemma hex2binary_hash_fault:
  assumes "length h = 20" "length buf < base + 20" "base \<le> length buf"
  shows "hex2binary (encode h @ r) 40 buf base = Inl Out_Of_Bounds"
  unfolding hex2binary_def
  by (rule hex_loop_fault [of 0 0 40 20]) (use assms in auto)

lemma read_loop_step:
  assumes "length (snd e) = 20" "41 \<le> length line"
  shows "read_loop (chunk_text (e # es)) line dat count =
    rbind (hex2binary (encode (snd e) @ 0 # drop 41 line) 40 dat count) (\<lambda>dat.
      read_loop (chunk_text es) (blit (encode (snd e) @ 0 # drop 41 line) 0 (replicate 40 0)) dat (count + 20))"
proof -
  have "snd e \<noteq> []" using assms(1) by auto
  then have "scan_line (chunk_text (e # es)) =
      Some (int (fst e), Some (encode (snd e)), 10 # chunk_text es)"
    using scan_line_entry [of e "chunk_text es"] by (simp add: chunk_text_def)
  then show ?thesis
    using assms put_word_hash [OF assms]
    by (subst read_loop.simps) (simp add: c_string_hash skip_space_chunk_text)
qed

lemma read_loop_chunk_text:
  assumes "\<forall>e \<in> set es. length (snd e) = 20" "41 \<le> length line" "count \<le> length dat"
  shows "read_loop (chunk_text es) line dat count =
    (if count + 20 * length es \<le> length dat
     then Inr (blit dat count (concat (map snd es)), count + 20 * length es, True)
     else Inl Out_Of_Bounds)"
  using assms
proof (induction es arbitrary: line dat count)
  case Nil
  then show ?case by (simp add: read_loop.simps chunk_text_def)
next
  case (Cons e es)
  have e: "length (snd e) = 20" using Cons.prems by simp
  let ?line = "blit (encode (snd e) @ 0 # drop 41 line) 0 (replicate 40 0)"
  have line: "41 \<le> length ?line" using Cons.prems e by (simp add: blit_def)
  note step = read_loop_step [OF e Cons.prems(2), of es dat count]
  show ?case
  proof (cases "count + 20 \<le> length dat")
    case True
    let ?dat = "blit dat count (snd e)"
    have d: "length ?dat = length dat" using True e by (simp add: length_blit)
    have "read_loop (chunk_text es) ?line ?dat (count + 20) =
      (if count + 20 + 20 * length es \<le> length dat
       then Inr (blit ?dat (count + 20) (concat (map snd es)), count + 20 + 20 * length es, True)
       else Inl Out_Of_Bounds)"
      using Cons.IH [where line = ?line and dat = ?dat and count = "count + 20"] Cons.prems(1) line True d
      by simp
    moreover have "blit ?dat (count + 20) t = blit dat count (snd e @ t)" for t
      using blit_blit [of count "snd e" dat t] True e by simp
    ultimately show ?thesis
      unfolding step hex2binary_hash [OF e True] by (simp add: add.assoc)
  next
    case False
    then show ?thesis
      unfolding step using hex2binary_hash_fault [OF e] Cons.prems(3) by simp
  qed
qed

section \<open>The has list\<close>

lemma takeWhile_concat_zero:
  assumes "\<forall>h \<in> set hs. length h = 20"
  shows "length (takeWhile (\<lambda>b. b \<noteq> 0) (concat hs @ 0 # r)) div 20 =
    length (takeWhile (\<lambda>h. 0 \<notin> set h) hs)"
  using assms
proof (induction hs)
  case (Cons h hs)
  show ?case
  proof (cases "0 \<in> set h")
    case True
    then have "length (takeWhile (\<lambda>b. b \<noteq> 0) (h @ concat hs @ 0 # r)) =
        length (takeWhile (\<lambda>b. b \<noteq> 0) h)"
      by (subst takeWhile_append1 [of 0]) auto
    moreover obtain xs ys where h: "h = xs @ 0 # ys" "0 \<notin> set xs" using split_list_first [OF True] by auto
    have "takeWhile (\<lambda>b. b \<noteq> 0) h = xs"
      unfolding h(1) using h(2) by (subst takeWhile_append2) auto
    then have "length (takeWhile (\<lambda>b. b \<noteq> 0) h) < length h" by (simp add: h(1))
    ultimately show ?thesis using True Cons.prems by simp
  next
    case False
    then have "takeWhile (\<lambda>b. b \<noteq> 0) (h @ concat hs @ 0 # r) =
        h @ takeWhile (\<lambda>b. b \<noteq> 0) (concat hs @ 0 # r)"
      by (intro takeWhile_append2) auto
    then show ?thesis using False Cons by simp
  qed
qed simp

lemma take_drop_concat:
  assumes "\<forall>h \<in> set hs. length h = 20" "i < length hs"
  shows "take 20 (drop (i * 20) (concat hs @ r)) = hs ! i"
  using assms
proof (induction hs arbitrary: i)
  case (Cons h hs)
  show ?case
  proof (cases i)
    case (Suc j)
    then show ?thesis using Cons by simp
  qed (use Cons in simp)
qed simp

lemma find_in_local_has_result:
  assumes "\<forall>h \<in> set hs. length h = 20"
  shows "find_in_local_has hash (concat hs @ 0 # r) =
    Inr (if hash \<in> set (takeWhile (\<lambda>h. 0 \<notin> set h) hs) then 1 else 0)"
proof -
  let ?k = "length (takeWhile (\<lambda>h. 0 \<notin> set h) hs)"
  have k: "?k \<le> length hs" by (rule length_takeWhile_le)
  have "take 20 (drop (i * 20) (concat hs @ 0 # r)) = takeWhile (\<lambda>h. 0 \<notin> set h) hs ! i"
    if "i < ?k" for i
    using take_drop_concat [OF assms, of i] takeWhile_nth [OF that] that k by simp
  then have ex: "(\<exists>i < ?k. take 20 (drop (i * 20) (concat hs @ 0 # r)) = hash) \<longleftrightarrow>
      hash \<in> set (takeWhile (\<lambda>h. 0 \<notin> set h) hs)"
    unfolding in_set_conv_nth by auto
  show ?thesis
    using ex by (simp add: find_in_local_has_def c_string_def takeWhile_concat_zero [OF assms])
qed

section \<open>Searching the master chunk file\<close>

text \<open>\<open>master_text\<close>: the words \<^verbatim>\<open>File:\<close> and \<^verbatim>\<open>Chunks:\<close>, the name of the data file, and the hashes.\<close>

definition master_text :: "byte list \<Rightarrow> (nat \<times> byte list) list \<Rightarrow> byte list" where
  "master_text path es =
     [0x46, 0x69, 0x6c, 0x65, 0x3a] @ [32] @ path @ [10] @
     [0x43, 0x68, 0x75, 0x6e, 0x6b, 0x73, 0x3a] @ [10] @ chunk_text es"

definition path_ok :: "byte list \<Rightarrow> bool" where
  "path_ok path \<longleftrightarrow> path \<noteq> [] \<and> length path < 512 \<and> (\<forall>b \<in> set path. \<not> is_space b \<and> b \<noteq> 0)"

lemma open_master_text:
  assumes "path_ok path"
  shows "\<exists>temp. open_master slack (master_text path es) =
    Inr (temp, path @ 0 # replicate (511 - length path) 0, chunk_text es) \<and>
    length temp = 40 + length slack"
proof -
  let ?a = "replicate 40 0 @ slack" and ?t = "chunk_text es"
  have sp: "is_space 10" "is_space 32" by (simp_all add: is_space_def)
  have f: "\<not> is_space b" if "b \<in> set [0x46, 0x69, 0x6c, 0x65, 0x3a]" for b
    using that by (auto simp: is_space_def)
  have c: "\<not> is_space b" if "b \<in> set [0x43, 0x68, 0x75, 0x6e, 0x6b, 0x73, 0x3a]" for b
    using that by (auto simp: is_space_def)
  have p: "\<not> is_space b" if "b \<in> set path" for b using that assms by (simp add: path_ok_def)
  have s1: "scan_word (master_text path es) = Some ([0x46, 0x69, 0x6c, 0x65, 0x3a],
      32 # path @ 10 # [0x43, 0x68, 0x75, 0x6e, 0x6b, 0x73, 0x3a] @ 10 # ?t)"
    using scan_word_word(1) [of "[0x46, 0x69, 0x6c, 0x65, 0x3a]" 32
        "path @ 10 # [0x43, 0x68, 0x75, 0x6e, 0x6b, 0x73, 0x3a] @ 10 # ?t"] f sp(2)
    by (simp add: master_text_def)
  have s2: "scan_word (32 # path @ 10 # [0x43, 0x68, 0x75, 0x6e, 0x6b, 0x73, 0x3a] @ 10 # ?t) =
      Some (path, 10 # [0x43, 0x68, 0x75, 0x6e, 0x6b, 0x73, 0x3a] @ 10 # ?t)"
    using assms by (intro scan_word_word(2) [OF p _ sp(1)]) (simp_all add: path_ok_def)
  have k: "skip_space (10 # [0x43, 0x68, 0x75, 0x6e, 0x6b, 0x73, 0x3a] @ 10 # ?t) =
      [0x43, 0x68, 0x75, 0x6e, 0x6b, 0x73, 0x3a] @ 10 # ?t"
    using c sp by (simp add: skip_space_def)
  have s3: "scan_word ([0x43, 0x68, 0x75, 0x6e, 0x6b, 0x73, 0x3a] @ 10 # ?t) =
      Some ([0x43, 0x68, 0x75, 0x6e, 0x6b, 0x73, 0x3a], 10 # ?t)"
    by (rule scan_word_word(1) [OF c _ sp(1)]) simp_all
  obtain t1 where t1: "put_word ?a (Some [0x46, 0x69, 0x6c, 0x65, 0x3a]) = Inr t1" "length t1 = 40 + length slack"
    by (simp add: put_word_def memcpy_Some length_blit)
  have pp: "put_word (replicate 512 0) (Some path) = Inr (path @ 0 # replicate (511 - length path) 0)"
    using assms by (simp add: put_word_def memcpy_Some blit_def path_ok_def)
  obtain t2 where t2: "put_word t1 (Some [0x43, 0x68, 0x75, 0x6e, 0x6b, 0x73, 0x3a]) = Inr t2"
      "length t2 = 40 + length slack"
    using t1(2) by (simp add: put_word_def memcpy_Some length_blit)
  have "scan_header (master_text path es) ?a (replicate 512 0) =
      Inr (t2, path @ 0 # replicate (511 - length path) 0, ?t)"
    unfolding scan_header_def s1 option.case prod.case t1(1) rbind_Inr s2 pp k s3 t2(1)
    by (simp add: skip_space_chunk_text)
  then show ?thesis using t2(2) by (simp add: open_master_def length_blit)
qed

fun match_spec :: "byte list \<Rightarrow> (nat \<times> byte list) list \<Rightarrow> int \<Rightarrow> int \<times> bool" where
  "match_spec hash [] index = (index, False)"
| "match_spec hash (e # es) index =
     (if snd e = hash then (int (fst e), True) else match_spec hash es (int (fst e)))"

lemma match_loop_chunk_text:
  assumes "\<forall>e \<in> set es. length (snd e) = 20" "41 \<le> length temp" "pre = [] \<or> pre = [10]"
  shows "match_loop clear hash (pre @ chunk_text es) temp index = Inr (match_spec hash es index)"
  using assms
proof (induction es arbitrary: pre temp index)
  case Nil
  have "is_space 10" by (simp add: is_space_def)
  then have "scan_line (pre @ chunk_text []) = None"
    using Nil.prems(3) by (auto simp: chunk_text_def scan_line_space)
  then show ?case by (subst match_loop.simps) simp
next
  case (Cons e es)
  have e: "length (snd e) = 20" "snd e \<noteq> []" using Cons.prems(1) by auto
  have "is_space 10" by (simp add: is_space_def)
  then have s: "scan_line (pre @ chunk_text (e # es)) =
      Some (int (fst e), Some (encode (snd e)), [10] @ chunk_text es)"
    using Cons.prems(3) scan_line_entry [OF e(2), of "chunk_text es"]
    by (auto simp: chunk_text_def scan_line_space)
  let ?temp = "encode (snd e) @ 0 # drop 41 temp"
  have hex: "hex2binary ?temp 40 (replicate 20 0) 0 = Inr (snd e)"
    using hex2binary_hash [of "snd e" 0 "replicate 20 0"] e(1) by (simp add: blit_def)
  have len: "length ?temp = length temp" using Cons.prems(2) e(1) by simp
  have "match_loop clear hash ([10] @ chunk_text es) (if clear then blit ?temp 0 (replicate 40 0) else ?temp)
      (int (fst e)) = Inr (match_spec hash es (int (fst e)))"
    using Cons.prems(1,2) len by (intro Cons.IH) (auto simp: length_blit)
  then show ?case
    by (subst match_loop.simps) (simp add: s put_word_hash [OF e(1) Cons.prems(2)] hex)
qed

lemma hash_loop_chunk_text:
  assumes "\<forall>e \<in> set es. length (snd e) = 20" "41 \<le> length temp" "pre = [] \<or> pre = [10]"
  shows "hash_loop offset (pre @ chunk_text es) temp =
    Inr (map_option snd (List.find (\<lambda>e. int (fst e) = offset) es))"
  using assms
proof (induction es arbitrary: pre temp)
  case Nil
  have "is_space 10" by (simp add: is_space_def)
  then have "scan_line (pre @ chunk_text []) = None"
    using Nil.prems(3) by (auto simp: chunk_text_def scan_line_space)
  then show ?case by (subst hash_loop.simps) simp
next
  case (Cons e es)
  have e: "length (snd e) = 20" "snd e \<noteq> []" using Cons.prems(1) by auto
  have "is_space 10" by (simp add: is_space_def)
  then have s: "scan_line (pre @ chunk_text (e # es)) =
      Some (int (fst e), Some (encode (snd e)), [10] @ chunk_text es)"
    using Cons.prems(3) scan_line_entry [OF e(2), of "chunk_text es"]
    by (auto simp: chunk_text_def scan_line_space)
  let ?temp = "encode (snd e) @ 0 # drop 41 temp"
  have hex: "hex2binary ?temp 40 (replicate 20 0) 0 = Inr (snd e)"
    using hex2binary_hash [of "snd e" 0 "replicate 20 0"] e(1) by (simp add: blit_def)
  have "hash_loop offset ([10] @ chunk_text es) ?temp =
      Inr (map_option snd (List.find (\<lambda>e. int (fst e) = offset) es))"
    using Cons.prems(1,2) e(1) by (intro Cons.IH) auto
  then show ?case
    by (subst hash_loop.simps) (simp add: s put_word_hash [OF e(1) Cons.prems(2)] hex)
qed

lemma match_spec_found:
  "snd (match_spec hash es i) \<longleftrightarrow> hash \<in> snd ` set es"
  "match_spec hash es i = (v, True) \<Longrightarrow> \<exists>e \<in> set es. int (fst e) = v \<and> snd e = hash"
  "match_spec hash es i = (v, False) \<Longrightarrow> v = (if es = [] then i else int (fst (last es)))"
  by (induction es arbitrary: i) (auto split: if_splits)

section \<open>Properties of the chunk files\<close>

lemma read_chunkfile_text:
  assumes "fs name = Some (chunk_text es)" "\<forall>e \<in> set es. length (snd e) = 20" "slack \<noteq> []"
  shows "read_chunkfile slack fs name dat =
    (if 20 * length es < length dat
     then Inr (blit dat 0 (concat (map snd es) @ [0]), 20 * int (length es)) else Inl Out_Of_Bounds)"
proof -
  have len: "length (concat (map snd es)) = 20 * length es"
    using assms(2) by (induction es) simp_all
  have "41 \<le> length (replicate 40 0 @ slack)" using assms(3) by (cases slack) simp_all
  note r = read_loop_chunk_text [OF assms(2) this, of 0 dat]
  have nat: "nat (20 * int (length es)) = 20 * length es" by linarith
  show ?thesis
  proof (cases "20 * length es < length dat")
    case True
    have "length (blit dat 0 (concat (map snd es))) = length dat"
      using True len by (simp add: length_blit)
    then show ?thesis
      using True r assms(1) blit_end [of 0 "concat (map snd es)" dat 0] len nat
      by (simp add: read_chunkfile_def in_range_def)
  next
    case False
    then show ?thesis
      using r assms(1) len by (auto simp: read_chunkfile_def in_range_def length_blit)
  qed
qed

text \<open>
  C28. \<^verbatim>\<open>read_chunkfile\<close> on a file as \<^verbatim>\<open>make_chunks\<close> prints it. It delivers the binary hashes in order
  with a terminating NUL exactly when they fit the caller's array and the 41st byte of a line can be
  overwritten; in every other case it writes out of bounds.
\<close>

theorem read_chunkfile_result:
  assumes "fs name = Some (chunk_text es)" and "\<forall>e \<in> set es. length (snd e) = 20"
  shows "read_chunkfile slack fs name dat =
    (if (es = [] \<or> slack \<noteq> []) \<and> 20 * length es < length dat
     then Inr (blit dat 0 (concat (map snd es) @ [0]), 20 * int (length es)) else Inl Out_Of_Bounds)"
proof (cases "slack \<noteq> [] \<or> es = []")
  case True
  show ?thesis
  proof (cases "es = []")
    case True
    then show ?thesis
      using assms(1) by (simp add: read_chunkfile_def chunk_text_def read_loop.simps wr_def in_range_def
          blit_def upd_conv_take_nth_drop)
  qed (use True read_chunkfile_text [of fs name es slack dat, OF assms] in simp)
next
  case False
  then obtain e es' where es0: "es = e # es'" by (cases es) auto
  then have "length (snd e) = 20" using assms(2) by simp
  then have es: "es = e # es'" "length (snd e) = 20" "snd e \<noteq> []" using es0 by auto
  have "scan_line (chunk_text es) = Some (int (fst e), Some (encode (snd e)), 10 # chunk_text es')"
    using scan_line_entry [OF es(3), of "chunk_text es'"] by (simp add: es(1) chunk_text_def)
  then show ?thesis
    using False assms(1) put_word_overflow [OF es(2), of "replicate 40 0"]
    by (simp add: read_chunkfile_def read_loop.simps)
qed

text \<open>
  Which hashes a peer finds in its has list: the list is searched with \<^verbatim>\<open>strlen\<close> although the hashes
  are binary, so a chunk is found exactly when neither its hash nor any hash before it contains a
  zero byte.
\<close>

theorem has_list_stops_at_zero_byte:
  assumes "fs name = Some (chunk_text es)" and "\<forall>e \<in> set es. length (snd e) = 20"
    and "slack \<noteq> []" and "20 * length es < length local"
  shows "\<exists>local'. read_chunkfile slack fs name local = Inr (local', 20 * int (length es)) \<and>
    (\<forall>hash. find_in_local_has hash local' =
       Inr (if hash \<in> set (takeWhile (\<lambda>h. 0 \<notin> set h) (map snd es)) then 1 else 0))"
proof -
  have "blit local 0 (concat (map snd es) @ [0]) =
      concat (map snd es) @ 0 # drop (length (concat (map snd es)) + 1) local"
    by (simp add: blit_0)
  then show ?thesis
    using read_chunkfile_text [of fs name es slack local, OF assms(1-3)] assms(2,4)
      find_in_local_has_result [of "map snd es"]
    by simp
qed

lemma master_offset_text:
  assumes "fs master = Some (master_text path es)" and "path_ok path"
    and "\<forall>e \<in> set es. length (snd e) = 20" and "slack \<noteq> []"
  shows "get_off_set_from_master_chunkfile slack fs master hash =
    Inr (case List.find (\<lambda>e. snd e = hash) es of None \<Rightarrow> -1 | Some e \<Rightarrow> int (fst e))"
proof -
  obtain temp where t: "open_master slack (master_text path es) =
        Inr (temp, path @ 0 # replicate (511 - length path) 0, chunk_text es)"
      "length temp = 40 + length slack"
    using open_master_text [OF assms(2)] by blast
  have "41 \<le> length temp" using t(2) assms(4) by (cases slack) simp_all
  then have m: "match_loop False hash (chunk_text es) temp 0 = Inr (match_spec hash es 0)"
    using match_loop_chunk_text [OF assms(3), of temp "[]"] by simp
  have "(case match_spec hash es i of (index, found) \<Rightarrow> if found then index else -1) =
      (case List.find (\<lambda>e. snd e = hash) es of None \<Rightarrow> -1 | Some e \<Rightarrow> int (fst e))" for i
    by (induction es arbitrary: i) auto
  then show ?thesis
    using assms(1) t(1) m by (simp add: get_off_set_from_master_chunkfile_def case_prod_beta)
qed

text \<open>
  \<^verbatim>\<open>get_off_set_from_master_chunkfile\<close> maps a hash of the master chunk file to the number of the
  first line that carries it, and every other hash to -1.
\<close>

theorem master_offset_of_hash:
  assumes "fs master = Some (master_text path es)" and "path_ok path"
    and "\<forall>e \<in> set es. length (snd e) = 20" and "slack \<noteq> []"
  shows "get_off_set_from_master_chunkfile slack fs master hash =
    Inr (case List.find (\<lambda>e. snd e = hash) es of None \<Rightarrow> -1 | Some e \<Rightarrow> int (fst e))"
  using assms by (rule master_offset_text)

lemma match_spec_first:
  "fst (match_spec hash es index) = int i \<Longrightarrow> hash \<in> snd ` set es \<Longrightarrow> List.find (\<lambda>e. snd e = hash) es = Some (i, hash)"
  by (induction es arbitrary: index) (auto split: if_splits)

lemma data_of_hash_entry:
  assumes "fs master = Some (master_text path es)" and "path_ok path" and "fs path = Some content"
    and "\<forall>e \<in> set es. length (snd e) = 20 \<and> fst e < 4096 \<and> 524288 * (fst e + 1) \<le> length content"
    and "slack \<noteq> []" and "es \<noteq> []" and "length uninit_data = 524288"
  shows "\<exists>i. get_data_from_hash slack uninit_index uninit_data fs master hash =
      Inr (Some (take 524288 (drop (524288 * i) content))) \<and>
    fst (match_spec hash es uninit_index) = int i \<and>
    (if hash \<in> snd ` set es then (i, hash) \<in> set es else i = fst (last es))"
proof -
  obtain temp where t: "open_master slack (master_text path es) =
        Inr (temp, path @ 0 # replicate (511 - length path) 0, chunk_text es)"
      "length temp = 40 + length slack"
    using open_master_text [OF assms(2)] by blast
  have "41 \<le> length temp" using t(2) assms(5) by (cases slack) simp_all
  then have m: "match_loop True hash (chunk_text es) temp uninit_index =
      Inr (match_spec hash es uninit_index)"
    using match_loop_chunk_text [of es temp "[]"] assms(4) by simp
  have name: "c_string (path @ 0 # r) = Inr path" for r
  proof -
    have "takeWhile (\<lambda>b. b \<noteq> 0) (path @ 0 # r) = path"
      using assms(2) by (subst takeWhile_append2) (auto simp: path_ok_def)
    then show ?thesis by (simp add: c_string_def)
  qed
  obtain v found where s: "match_spec hash es uninit_index = (v, found)" by fastforce
  obtain e where e: "e \<in> set es" "v = int (fst e)"
      "if hash \<in> snd ` set es then snd e = hash else e = last es"
    using match_spec_found [of hash es uninit_index] s assms(6)
    by (cases found) (auto intro: last_in_set)
  have fit: "fst e < 4096" "524288 * (fst e + 1) \<le> length content" using assms(4) e(1) by auto
  have nat: "nat (524288 * int (fst e)) = 524288 * fst e" by linarith
  have "read_content content (524288 * v) uninit_data = take 524288 (drop (524288 * fst e) content)"
    using fit assms(7) by (simp add: read_content_def blit_def e(2) nat)
  moreover have "-2147483648 \<le> 524288 * v" "524288 * v \<le> 2147483647" using fit(1) e(2) by simp_all
  ultimately have "get_data_from_hash slack uninit_index uninit_data fs master hash =
      Inr (Some (take 524288 (drop (524288 * fst e) content)))"
    using assms(1,3) t(1) m s name by (simp add: get_data_from_hash_def)
  moreover have "if hash \<in> snd ` set es then (fst e, hash) \<in> set es else fst e = fst (last es)"
    using e by (metis prod.collapse)
  moreover have "fst (match_spec hash es uninit_index) = int (fst e)" using s e(2) by simp
  ultimately show ?thesis by blast
qed

lemma data_of_hash_text:
  assumes "fs master = Some (master_text path es)" and "path_ok path" and "fs path = Some content"
    and "\<forall>e \<in> set es. length (snd e) = 20 \<and> fst e < 4096 \<and> 524288 * (fst e + 1) \<le> length content"
    and "slack \<noteq> []" and "es \<noteq> []" and "length uninit_data = 524288"
  shows "\<exists>i. get_data_from_hash slack uninit_index uninit_data fs master hash =
      Inr (Some (take 524288 (drop (524288 * i) content))) \<and>
    (if hash \<in> snd ` set es then (i, hash) \<in> set es else i = fst (last es))"
  using data_of_hash_entry [OF assms, of uninit_index hash] by blast

text \<open>
  C27. \<^verbatim>\<open>get_data_from_hash\<close> returns the 512 kB of the data file at the position of the hash. A hash that
  the master file does not list is not refused: it is served the chunk of the last line.
\<close>

theorem data_of_hash:
  assumes "fs master = Some (master_text path es)" and "path_ok path" and "fs path = Some content"
    and "\<forall>e \<in> set es. length (snd e) = 20 \<and> fst e < 4096 \<and> 524288 * (fst e + 1) \<le> length content"
    and "slack \<noteq> []" and "es \<noteq> []" and "length uninit_data = 524288"
  shows "\<exists>i. get_data_from_hash slack uninit_index uninit_data fs master hash =
      Inr (Some (take 524288 (drop (524288 * i) content))) \<and>
    (if hash \<in> snd ` set es then (i, hash) \<in> set es else i = fst (last es))"
  using assms by (rule data_of_hash_text)

text \<open>
  \<^verbatim>\<open>get_hash_from_master_chunkfile\<close> inverts the lookup of the offset on a master file without
  repeated hashes or numbers; an offset that the file does not list (such as -1) has no hash.
\<close>

theorem master_hash_of_offset:
  assumes "fs master = Some (master_text path es)" and "path_ok path"
    and "\<forall>e \<in> set es. length (snd e) = 20" and "slack \<noteq> []"
    and "distinct (map fst es)" and "distinct (map snd es)"
  shows "((i, hash) \<in> set es \<longrightarrow>
      get_hash_from_master_chunkfile slack fs master (int i) = Inr (Some hash) \<and>
      get_off_set_from_master_chunkfile slack fs master hash = Inr (int i)) \<and>
    (off \<notin> int ` fst ` set es \<longrightarrow> get_hash_from_master_chunkfile slack fs master off = Inr None)"
proof -
  obtain temp where t: "open_master slack (master_text path es) =
        Inr (temp, path @ 0 # replicate (511 - length path) 0, chunk_text es)"
      "length temp = 40 + length slack"
    using open_master_text [OF assms(2)] by blast
  have len: "41 \<le> length temp" using t(2) assms(4) by (cases slack) simp_all
  have h: "get_hash_from_master_chunkfile slack fs master off =
      Inr (map_option snd (List.find (\<lambda>e. int (fst e) = off) es))" for off
    using hash_loop_chunk_text [OF assms(3) len, of "[]"] assms(1) t(1)
    by (simp add: get_hash_from_master_chunkfile_def)
  have m: "match_loop False hash (chunk_text es) temp 0 = Inr (match_spec hash es 0)"
    using match_loop_chunk_text [OF assms(3) len, of "[]"] by simp
  have 1: "List.find (\<lambda>e. int (fst e) = int i) es = Some (i, hash)" "match_spec hash es k = (int i, True)"
    if "(i, hash) \<in> set es" for k
    using that assms(5,6) by (induction es arbitrary: k) (auto simp: rev_image_eqI)
  have 2: "List.find (\<lambda>e. int (fst e) = off) es = None" if "off \<notin> int ` fst ` set es"
    using that by (force simp: find_None_iff)
  show ?thesis
    using 1 2 h m assms(1) t(1) by (auto simp: get_off_set_from_master_chunkfile_def)
qed

section \<open>The properties at concrete inputs\<close>

definition example_entries :: "(nat \<times> byte list) list" where
  "example_entries = [(0, replicate 20 1), (3, replicate 20 0), (5, replicate 20 2)]"

definition example_path :: "byte list" where "example_path = [0x61, 0x2f, 0x62]"

definition example_files :: files where
  "example_files = [[0x63] \<mapsto> chunk_text example_entries, [0x6d] \<mapsto> master_text example_path example_entries,
     example_path \<mapsto> replicate (524288 * 6) 7]"

lemma example_files_simps [simp]:
  "example_files [0x63] = Some (chunk_text example_entries)"
  "example_files [0x6d] = Some (master_text example_path example_entries)"
  "example_files example_path = Some (replicate (524288 * 6) 7)"
  by (simp_all add: example_files_def example_path_def)

lemma example_entries_ok:
  "\<forall>e \<in> set example_entries. length (snd e) = 20" "length example_entries = 3" "path_ok example_path"
  by (auto simp: example_entries_def example_path_def path_ok_def is_space_def)

theorem read_chunkfile_result_witness:
  "read_chunkfile [9] example_files [0x63] (replicate 60 5) = Inl Out_Of_Bounds \<and>
   read_chunkfile [] example_files [0x63] (replicate 100 5) = Inl Out_Of_Bounds \<and>
   read_chunkfile [9] example_files [0x63] (replicate 100 5) =
     Inr (concat (map snd example_entries) @ 0 # replicate 39 5, 60)"
proof -
  have "length (concat (map snd example_entries)) = 60" by (simp add: example_entries_def)
  moreover have "example_entries \<noteq> []" by (simp add: example_entries_def)
  moreover note r = read_chunkfile_result [of example_files "[0x63]" example_entries]
  ultimately show ?thesis
    using r [of "[9]" "replicate 60 5"] r [of "[]" "replicate 100 5"] r [of "[9]" "replicate 100 5"]
      example_entries_ok
    by (simp add: blit_0)
qed

theorem has_list_stops_at_zero_byte_witness:
  "\<exists>local'. read_chunkfile [9] example_files [0x63] (replicate 100 5) = Inr (local', 60) \<and>
     find_in_local_has (replicate 20 1) local' = Inr 1 \<and>
     find_in_local_has (replicate 20 2) local' = Inr 0"
proof -
  obtain local' where l: "read_chunkfile [9] example_files [0x63] (replicate 100 5) = Inr (local', 60)"
      "\<forall>hash. find_in_local_has hash local' =
         Inr (if hash \<in> set (takeWhile (\<lambda>h. 0 \<notin> set h) (map snd example_entries)) then 1 else 0)"
    using has_list_stops_at_zero_byte [of example_files "[0x63]" example_entries "[9]" "replicate 100 5"]
      example_entries_ok
    by auto
  have "takeWhile (\<lambda>h. 0 \<notin> set h) (map snd example_entries) = [replicate 20 1]"
    by (simp add: example_entries_def)
  with l show ?thesis by (auto simp: replicate_eq_replicate)
qed

theorem master_offset_of_hash_witness:
  "get_off_set_from_master_chunkfile [9] example_files [0x6d] (replicate 20 2) = Inr 5 \<and>
   get_off_set_from_master_chunkfile [9] example_files [0x6d] (replicate 20 7) = Inr (-1)"
  using master_offset_of_hash [of example_files "[0x6d]" example_path example_entries "[9]"]
    example_entries_ok
  by (simp add: example_entries_def replicate_eq_replicate)

theorem data_of_hash_witness:
  "get_data_from_hash [9] 0 (replicate 524288 0) example_files [0x6d] (replicate 20 8) =
     Inr (Some (replicate 524288 7))"
proof -
  have e: "\<forall>e \<in> set example_entries. length (snd e) = 20 \<and> fst e < 4096 \<and>
      524288 * (fst e + 1) \<le> length (replicate (524288 * 6) (7 :: byte))"
    by (auto simp: example_entries_def)
  have l: "fst (last example_entries) = 5" "example_entries \<noteq> []"
    "replicate 20 8 \<notin> snd ` set example_entries"
    by (auto simp: example_entries_def replicate_eq_replicate)
  obtain i where "get_data_from_hash [9] 0 (replicate 524288 0) example_files [0x6d] (replicate 20 8) =
        Inr (Some (take 524288 (drop (524288 * i) (replicate (524288 * 6) 7))))" "i = 5"
    using data_of_hash [OF example_files_simps(2) example_entries_ok(3) example_files_simps(3) e,
        of "[9]" "replicate 524288 0" 0 "replicate 20 8"] l
    by auto
  then show ?thesis by (simp add: min_def)
qed

theorem master_hash_of_offset_witness:
  "get_hash_from_master_chunkfile [9] example_files [0x6d] 3 = Inr (Some (replicate 20 0)) \<and>
   get_hash_from_master_chunkfile [9] example_files [0x6d] (-1) = Inr None"
  using master_hash_of_offset [of example_files "[0x6d]" example_path example_entries "[9]" 3
      "replicate 20 0" "-1"] example_entries_ok
  by (auto simp: example_entries_def replicate_eq_replicate)

end
