(* ===== verification/Float32.thy ===== *)
theory Float32
  imports Prelude
begin

text \<open>
  The \<^verbatim>\<open>float\<close> arithmetic of \<^verbatim>\<open>congestion_control()\<close> (\<^verbatim>\<open>flow_control.c\<close>): IEEE 754 binary32, round to
  nearest, ties to even, on the finite values, represented exactly as rationals.

  \<open>f32_round\<close> scales its argument until the significand has 24 bits, rounds that to an integer and
  scales back; the number of doublings is at most 149 (the exponent of the least subnormal), the
  number of halvings at most 104, beyond which a binary32 overflows. The program forms only values
  between 0 and \<open>2 ^ 31\<close>, so infinities and NaNs are not modelled.
\<close>

definition rne :: "rat \<Rightarrow> int" where
  "rne x =
     (let f = \<lfloor>x\<rfloor>; r = x - of_int f in
      if r < 1 / 2 then f else if 1 / 2 < r then f + 1 else if even f then f else f + 1)"

fun doublings :: "nat \<Rightarrow> rat \<Rightarrow> nat" where
  "doublings 0 x = 0"
| "doublings (Suc n) x = (if 2 ^ 23 \<le> x then 0 else Suc (doublings n (2 * x)))"

fun halvings :: "nat \<Rightarrow> rat \<Rightarrow> nat" where
  "halvings 0 x = 0"
| "halvings (Suc n) x = (if x < 2 ^ 24 then 0 else Suc (halvings n (x / 2)))"

definition f32_round_pos :: "rat \<Rightarrow> rat" where
  "f32_round_pos x =
     (if x < 2 ^ 24 then (let k = doublings 149 x in of_int (rne (x * 2 ^ k)) / 2 ^ k)
      else (let k = halvings 104 x in of_int (rne (x / 2 ^ k)) * 2 ^ k))"

definition f32_round :: "rat \<Rightarrow> rat" where
  "f32_round x = (if x < 0 then - f32_round_pos (- x) else f32_round_pos x)"

definition f32_of_int :: "int \<Rightarrow> rat" where
  "f32_of_int i = f32_round (of_int i)"

definition f32_add :: "rat \<Rightarrow> rat \<Rightarrow> rat" where
  "f32_add x y = f32_round (x + y)"

definition f32_div :: "rat \<Rightarrow> rat \<Rightarrow> rat" where
  "f32_div x y = f32_round (x / y)"

lemma rne_mono_nonneg: "0 \<le> x \<Longrightarrow> 0 \<le> rne x"
  by (simp add: rne_def Let_def)

lemma rne_of_int [simp]: "rne (of_int i) = i"
  by (simp add: rne_def)

lemma f32_round_nonneg: "0 \<le> x \<Longrightarrow> 0 \<le> f32_round x"
  by (simp add: f32_round_def f32_round_pos_def Let_def rne_mono_nonneg)

lemma f32_add_nonneg: "0 \<le> x \<Longrightarrow> 0 \<le> y \<Longrightarrow> 0 \<le> f32_add x y"
  by (simp add: f32_add_def f32_round_nonneg)

lemma f32_of_int_nonneg: "0 \<le> i \<Longrightarrow> 0 \<le> f32_of_int i"
  by (simp add: f32_of_int_def f32_round_nonneg)

lemma f32_div_nonneg: "0 \<le> x \<Longrightarrow> 0 \<le> y \<Longrightarrow> 0 \<le> f32_div x y"
  by (simp add: f32_div_def f32_round_nonneg)

text \<open>Small integers are exact: a scaling by a power of two keeps an integer an integer.\<close>

lemma f32_of_int_exact:
  assumes "\<bar>i\<bar> < 2 ^ 24" shows "f32_of_int i = of_int i"
proof -
  have pos: "f32_round_pos (of_int j) = of_int j" if "\<bar>j\<bar> < 2 ^ 24" for j :: int
  proof -
    have lt: "(of_int j :: rat) < 2 ^ 24"
      using that of_int_less_iff [of j "2 ^ 24", where ?'a = rat] by simp
    have "rne (of_int j * 2 ^ k) = j * 2 ^ k" for k :: nat
      using rne_of_int [of "j * 2 ^ k"] by simp
    with lt that show ?thesis by (simp add: f32_round_pos_def Let_def)
  qed
  show ?thesis
    using pos [of i] pos [of "- i"] assms by (simp add: f32_of_int_def f32_round_def)
qed

text \<open>Dyadic fractions with a 24-bit numerator are exact too.\<close>

lemma doublings_dyadic:
  assumes "0 \<le> m" "m < 2 ^ 24" "j \<le> n"
  shows "j \<le> doublings n (of_int m / 2 ^ j)"
  using assms(3)
proof (induction n arbitrary: j)
  case (Suc n)
  show ?case
  proof (cases j)
    case (Suc i)
    have "(of_int m :: rat) < 2 ^ 24"
      using assms(2) of_int_less_iff [of m "2 ^ 24", where ?'a = rat] by simp
    also have "\<dots> \<le> 2 ^ 23 * 2 ^ j" using Suc by simp
    finally have "of_int m / 2 ^ j < (2 ^ 23 :: rat)" by (simp add: divide_less_eq)
    moreover have "2 * (of_int m / 2 ^ j) = (of_int m / 2 ^ i :: rat)" using Suc by simp
    ultimately show ?thesis using Suc.IH [of i] Suc.prems Suc by simp
  qed simp
qed simp

lemma f32_round_dyadic:
  assumes "0 \<le> m" "m < 2 ^ 24" "j \<le> 149"
  shows "f32_round (of_int m / 2 ^ j) = of_int m / 2 ^ j"
proof -
  have m: "(of_int m :: rat) < 2 ^ 24"
    using assms(2) of_int_less_iff [of m "2 ^ 24", where ?'a = rat] by simp
  have "(1 :: rat) \<le> 2 ^ j" by simp
  then have "of_int m / 2 ^ j \<le> (of_int m :: rat)" using assms(1) by (simp add: divide_le_eq mult_le_cancel_left1)
  with m have lt: "of_int m / 2 ^ j < (2 ^ 24 :: rat)" by linarith
  obtain i where i: "doublings 149 (of_int m / 2 ^ j) = j + i"
    using doublings_dyadic [OF assms] le_Suc_ex by blast
  have "(of_int m / 2 ^ j * 2 ^ (j + i) :: rat) = of_int (m * 2 ^ i)" by (simp add: power_add)
  then have "f32_round_pos (of_int m / 2 ^ j) = of_int (m * 2 ^ i) / 2 ^ (j + i)"
    using lt i by (simp add: f32_round_pos_def Let_def del: of_int_mult)
  also have "\<dots> = of_int m / 2 ^ j" by (simp add: power_add)
  finally have "f32_round_pos (of_int m / 2 ^ j) = of_int m / 2 ^ j" .
  moreover have "\<not> of_int m / 2 ^ j < (0 :: rat)" using assms(1) by (simp add: not_less)
  ultimately show ?thesis by (simp add: f32_round_def)
qed


section \<open>Rounding errors\<close>

text \<open>Rounding changes a normal number by at most one part in \<open>2 ^ 24\<close>.\<close>

lemma rne_error: "\<bar>of_int (rne x) - x\<bar> \<le> 1 / 2"
proof -
  define f where "f = \<lfloor>x\<rfloor>"
  have "of_int f \<le> x" "x < of_int f + 1" unfolding f_def by linarith+
  then show ?thesis unfolding rne_def Let_def f_def [symmetric] by (auto simp: abs_le_iff)
qed

lemma doublings_enough: "2 ^ 23 \<le> x * 2 ^ n \<Longrightarrow> 2 ^ 23 \<le> x * 2 ^ doublings n x"
proof (induction n arbitrary: x)
  case (Suc n)
  then have "2 ^ 23 \<le> (2 * x) * 2 ^ n" by (simp add: mult_ac)
  from Suc.IH [OF this] show ?case by (simp add: mult_ac)
qed simp

lemma f32_round_error:
  assumes "1 / 2 ^ 100 \<le> x" "x < 2 ^ 24"
  shows "\<bar>f32_round x - x\<bar> \<le> x / 2 ^ 24"
proof -
  let ?k = "doublings 149 x"
  have pos: "0 < x" using assms(1) less_le_trans [of 0 "1 / 2 ^ 100 :: rat" x] by simp
  have "2 ^ 23 \<le> (1 / 2 ^ 100) * (2 ^ 149 :: rat)" by simp
  also have "\<dots> \<le> x * 2 ^ 149" using assms(1) by (rule mult_right_mono) simp
  finally have big: "2 ^ 23 \<le> x * 2 ^ ?k" by (rule doublings_enough)
  have r: "f32_round x = of_int (rne (x * 2 ^ ?k)) / 2 ^ ?k" using pos assms(2) by (simp add: f32_round_def f32_round_pos_def Let_def)
  have "f32_round x - x = (of_int (rne (x * 2 ^ ?k)) - x * 2 ^ ?k) / 2 ^ ?k" unfolding r by (simp add: diff_divide_distrib)
  then have "\<bar>f32_round x - x\<bar> = \<bar>of_int (rne (x * 2 ^ ?k)) - x * 2 ^ ?k\<bar> / 2 ^ ?k" by (simp add: abs_divide)
  also have "\<dots> \<le> (1 / 2) / 2 ^ ?k" using rne_error [of "x * 2 ^ ?k"] by (rule divide_right_mono) simp
  also have "\<dots> \<le> x / 2 ^ 24" using big by (simp add: field_simps)
  finally show ?thesis .
qed

text \<open>The accumulator after \<open>n\<close> additions of \<open>a\<close>.\<close>

fun accumulated :: "rat \<Rightarrow> nat \<Rightarrow> rat" where
  "accumulated a 0 = 0"
| "accumulated a (Suc n) = f32_add (accumulated a n) a"

lemma accumulated_error:
  assumes w: "1 \<le> w" "w \<le> (2000 :: int)" and a: "a = f32_div 1 (of_int w)" and n: "n \<le> 4000" "\<forall>m < n. accumulated a m < 1"
  shows "0 \<le> accumulated a n \<and> \<bar>accumulated a n - of_nat n / of_int w\<bar> \<le> 4 * of_nat n / 2 ^ 24"
  using n
proof (induction n)
  case (Suc n)
  let ?x = "accumulated a n + a"
  have W: "1 \<le> (of_int w :: rat)" "(of_int w :: rat) \<le> 2000" using w of_int_le_iff [of w 2000, where ?'a = rat] by simp_all
  have inv: "1 / 2000 \<le> 1 / (of_int w :: rat)" "1 / (of_int w :: rat) \<le> 1" using W by (simp_all add: field_simps)
  then have ea: "\<bar>a - 1 / of_int w\<bar> \<le> 1 / of_int w / 2 ^ 24"
    unfolding a f32_div_def using f32_round_error [of "1 / of_int w"] by simp
  then have ea2: "\<bar>a - 1 / of_int w\<bar> \<le> 1 / 2 ^ 24" using inv(2) by simp
  have ih: "0 \<le> accumulated a n" "\<bar>accumulated a n - of_nat n / of_int w\<bar> \<le> 4 * of_nat n / 2 ^ 24" "accumulated a n < 1"
    using Suc by simp_all
  have x: "1 / 2 ^ 100 \<le> ?x" "?x < 2 ^ 24" "?x \<le> 3" using ih inv ea2 by (simp_all add: abs_if split: if_splits)
  have "\<bar>accumulated a (Suc n) - ?x\<bar> \<le> ?x / 2 ^ 24" using f32_round_error [OF x(1,2)] by (simp add: f32_add_def)
  then have s: "\<bar>accumulated a (Suc n) - ?x\<bar> \<le> 3 / 2 ^ 24" using x(3) by simp
  have e: "accumulated a (Suc n) - of_nat (Suc n) / of_int w =
      (accumulated a (Suc n) - ?x) + (accumulated a n - of_nat n / of_int w) + (a - 1 / of_int w)"
    by (simp add: add_divide_distrib)
  have "\<bar>accumulated a (Suc n) - of_nat (Suc n) / of_int w\<bar> \<le>
      \<bar>accumulated a (Suc n) - ?x\<bar> + \<bar>accumulated a n - of_nat n / of_int w\<bar> + \<bar>a - 1 / of_int w\<bar>"
    unfolding e by linarith
  also have "\<dots> \<le> 4 * of_nat (Suc n) / 2 ^ 24" using s ih(2) ea2 by (simp add: add_divide_distrib)
  finally have "\<bar>accumulated a (Suc n) - of_nat (Suc n) / of_int w\<bar> \<le> 4 * of_nat (Suc n) / 2 ^ 24" .
  moreover have "0 \<le> accumulated a (Suc n)"
    using x(1) f32_round_nonneg [of ?x] by (simp add: f32_add_def)
  ultimately show ?case by blast
qed simp


lemma doublings_eq:
  "2 ^ 23 \<le> x * 2 ^ k \<Longrightarrow> x * 2 ^ k < 2 ^ 24 \<Longrightarrow> k \<le> n \<Longrightarrow> doublings n x = k"
proof (induction n arbitrary: x k)
  case (Suc n)
  show ?case
  proof (cases k)
    case 0
    then show ?thesis using Suc.prems by simp
  next
    case (Suc i)
    have y: "x * 2 ^ k = (2 * x) * 2 ^ i" using Suc by (simp add: mult_ac)
    have "1 * x \<le> 2 ^ i * x" if "0 \<le> x" using that by (intro mult_right_mono) simp_all
    then have "x \<le> x * 2 ^ i \<or> x < 0" by (auto simp: mult_ac)
    then have "\<not> 2 ^ 23 \<le> x" using Suc.prems(2) unfolding y by auto
    then show ?thesis using Suc.IH [of "2 * x" i] Suc.prems unfolding y by (simp add: Suc)
  qed
qed simp

lemma f32_round_at:
  assumes "2 ^ 23 \<le> x * 2 ^ k" "x * 2 ^ k < 2 ^ 24" "k \<le> 149"
  shows "f32_round x = of_int (rne (x * 2 ^ k)) / 2 ^ k"
proof -
  have "0 < x * 2 ^ k" using assms(1) less_le_trans [of 0 "2 ^ 23 :: rat"] by simp
  then have pos: "0 < x" by (simp add: zero_less_mult_iff)
  have "1 * x \<le> 2 ^ k * x" using pos by (intro mult_right_mono) simp_all
  then have "x < 2 ^ 24" using assms(2) by (simp add: mult_ac)
  then show ?thesis using pos doublings_eq [OF assms] by (simp add: f32_round_def f32_round_pos_def Let_def)
qed

lemma rne_nearest: "\<bar>x - of_int m\<bar> < 1 / 2 \<Longrightarrow> rne x = m"
proof -
  assume m: "\<bar>x - of_int m\<bar> < 1 / 2"
  have "\<bar>of_int (rne x) - of_int m :: rat\<bar> < 1" using rne_error [of x] m by linarith
  then have "\<bar>rne x - m\<bar> < 1" by (simp only: of_int_diff [symmetric] of_int_abs [symmetric] of_int_less_1_iff)
  then show ?thesis by simp
qed

lemma f32_round_near:
  "2 ^ 23 \<le> x * 2 ^ k \<Longrightarrow> x * 2 ^ k < 2 ^ 24 \<Longrightarrow> k \<le> 149 \<Longrightarrow> \<bar>x * 2 ^ k - of_int m\<bar> < 1 / 2 \<Longrightarrow>
     f32_round x = of_int m / 2 ^ k"
  by (simp add: f32_round_at rne_nearest)

text \<open>A twelfth is one of the numbers that need one addition more than expected to reach 1.\<close>

lemma window_12: "accumulated (f32_div 1 12) 12 < 1"
proof -
  let ?a = "11184811 / 2 ^ 27 :: rat"
  have a: "f32_div 1 12 = ?a"
    using f32_round_near [of "1 / 12" 27 11184811] by (simp add: f32_div_def)
  have add: "f32_add x ?a = of_int m / 2 ^ k"
    if "2 ^ 23 \<le> (x + ?a) * 2 ^ k" "(x + ?a) * 2 ^ k < 2 ^ 24" "k \<le> 149" "\<bar>(x + ?a) * 2 ^ k - of_int m\<bar> < 1 / 2" for x k m
    unfolding f32_add_def by (rule f32_round_near [OF that])
  have s1: "f32_add 0 ?a = 11184811 / 2 ^ 27" using add [of "0" 27 11184811] by simp
  have s2: "f32_add (11184811 / 2 ^ 27) ?a = 11184811 / 2 ^ 26" using add [of "(11184811 / 2 ^ 27)" 26 11184811] by simp
  have s3: "f32_add (11184811 / 2 ^ 26) ?a = 8388608 / 2 ^ 25" using add [of "(11184811 / 2 ^ 26)" 25 8388608] by simp
  have s4: "f32_add (8388608 / 2 ^ 25) ?a = 11184811 / 2 ^ 25" using add [of "(8388608 / 2 ^ 25)" 25 11184811] by simp
  have s5: "f32_add (11184811 / 2 ^ 25) ?a = 13981014 / 2 ^ 25" using add [of "(11184811 / 2 ^ 25)" 25 13981014] by simp
  have s6: "f32_add (13981014 / 2 ^ 25) ?a = 8388608 / 2 ^ 24" using add [of "(13981014 / 2 ^ 25)" 24 8388608] by simp
  have s7: "f32_add (8388608 / 2 ^ 24) ?a = 9786709 / 2 ^ 24" using add [of "(8388608 / 2 ^ 24)" 24 9786709] by simp
  have s8: "f32_add (9786709 / 2 ^ 24) ?a = 11184810 / 2 ^ 24" using add [of "(9786709 / 2 ^ 24)" 24 11184810] by simp
  have s9: "f32_add (11184810 / 2 ^ 24) ?a = 12582911 / 2 ^ 24" using add [of "(11184810 / 2 ^ 24)" 24 12582911] by simp
  have s10: "f32_add (12582911 / 2 ^ 24) ?a = 13981012 / 2 ^ 24" using add [of "(12582911 / 2 ^ 24)" 24 13981012] by simp
  have s11: "f32_add (13981012 / 2 ^ 24) ?a = 15379113 / 2 ^ 24" using add [of "(13981012 / 2 ^ 24)" 24 15379113] by simp
  have s12: "f32_add (15379113 / 2 ^ 24) ?a = 16777214 / 2 ^ 24" using add [of "(15379113 / 2 ^ 24)" 24 16777214] by simp
  have "accumulated ?a (Suc (Suc (Suc (Suc (Suc (Suc (Suc (Suc (Suc (Suc (Suc (Suc 0)))))))))))) = 16777214 / 2 ^ 24"
    by (simp only: accumulated.simps s1 s2 s3 s4 s5 s6 s7 s8 s9 s10 s11 s12)
  then show ?thesis unfolding a by (simp add: numeral_eq_Suc)
qed

end
