(* ===== verification/Tracker.thy ===== *)
theory Tracker
  imports Packet
begin

text \<open>
  The retransmission timers: \<^verbatim>\<open>packet_tracker_t\<close> (\<^verbatim>\<open>packet.h\<close>), \<^verbatim>\<open>create_timer\<close>, \<^verbatim>\<open>timer_expired\<close> and
  \<^verbatim>\<open>remove_from_tracker\<close> (\<^verbatim>\<open>flow_control.c\<close>). The linked list \<^verbatim>\<open>p_tracker\<close> is a list from its head; its
  first node is a dummy with sequence number -441 whose other fields \<^verbatim>\<open>create_timer\<close> leaves
  uninitialised, so they are a parameter. The clock \<^verbatim>\<open>time(NULL)\<close> is a parameter in seconds.

  \<open>retransmit_queue\<close> is the contract on which \<^verbatim>\<open>handle_ack\<close> relies: removing an acknowledged
  packet drops exactly its entry.
\<close>

record sockaddr_in =
  sin_family :: "16 word"
  sin_port :: "16 word"
  s_addr :: "32 word"

record packet_tracker_t =
  tr_sock :: int
  tr_seq :: int
  tr_from :: sockaddr_in
  tr_send_time :: int
  tr_expire_time :: int
  tr_packet :: data_packet_t

section \<open>Operations\<close>

definition new_tracker :: "data_packet_t \<Rightarrow> int \<Rightarrow> sockaddr_in \<Rightarrow> int \<Rightarrow> packet_tracker_t" where
  "new_tracker pkt sock from now =
     \<lparr>tr_sock = sock, tr_seq = sint (seq_num (header pkt)), tr_from = from, tr_send_time = now,
      tr_expire_time = 0, tr_packet = pkt\<rparr>"

text \<open>The comparison \<^verbatim>\<open>itr->seq == packet->header.seq_num\<close> is made in \<^verbatim>\<open>unsigned int\<close>.\<close>

fun restart_timer :: "packet_tracker_t list \<Rightarrow> 32 word \<Rightarrow> int \<Rightarrow> packet_tracker_t list option" where
  "restart_timer [] q now = None"
| "restart_timer (t # ts) q now =
     (if word_of_int (tr_seq t) = q then Some (t\<lparr>tr_send_time := now\<rparr> # ts)
      else map_option ((#) t) (restart_timer ts q now))"

definition create_timer ::
  "packet_tracker_t \<Rightarrow> packet_tracker_t list \<Rightarrow> data_packet_t \<Rightarrow> int \<Rightarrow> sockaddr_in \<Rightarrow> int
     \<Rightarrow> packet_tracker_t list" where
  "create_timer uninit p_tracker pkt sock from now =
     (if p_tracker = [] then [uninit\<lparr>tr_seq := -441\<rparr>, new_tracker pkt sock from now]
      else case restart_timer p_tracker (seq_num (header pkt)) now of
             Some ts \<Rightarrow> ts
           | None \<Rightarrow> p_tracker @ [new_tracker pkt sock from now])"

definition TIMEOUT :: int where "TIMEOUT = 1"

definition timer_expired :: "packet_tracker_t \<Rightarrow> int \<Rightarrow> packet_tracker_t \<times> int" where
  "timer_expired t now =
     (if now - tr_send_time t \<ge> TIMEOUT then (t\<lparr>tr_expire_time := tr_expire_time t + 1\<rparr>, -1)
      else (t, 0))"

definition tracks :: "int \<Rightarrow> int \<Rightarrow> packet_tracker_t \<Rightarrow> bool" where
  "tracks sock q t \<longleftrightarrow> tr_sock t = sock \<and> tr_seq t - 1 = q"

fun unlink_first :: "packet_tracker_t list \<Rightarrow> int \<Rightarrow> int \<Rightarrow> packet_tracker_t list \<times> int" where
  "unlink_first [] sock q = ([], -1)"
| "unlink_first (p # ps) sock q =
     (if tracks sock q p then (ps, 1)
      else (case unlink_first ps sock q of (ps', r) \<Rightarrow> (p # ps', r)))"

definition remove_from_tracker ::
  "packet_tracker_t list \<Rightarrow> int \<Rightarrow> int \<Rightarrow> (packet_tracker_t list \<times> int) res" where
  "remove_from_tracker trk sock q =
     (case trk of
        [] \<Rightarrow> Inr ([], -1)
      | current # next \<Rightarrow>
          if tracks sock q current then (if next = [] then Inl Null_Deref else Inr (next, 1))
          else (case unlink_first next sock q of (next', r) \<Rightarrow> Inr (current # next', r)))"

section \<open>Invariant and contract\<close>

text \<open>
  The list is empty or starts with the dummy, and no two timers carry the same sequence number.
  \<open>timers\<close> are the pairs of peer and sequence number that are being timed.
\<close>

definition tracker_ok :: "packet_tracker_t list \<Rightarrow> bool" where
  "tracker_ok trk \<longleftrightarrow>
     (case trk of [] \<Rightarrow> True | d # ts \<Rightarrow> tr_seq d = -441 \<and> distinct (map tr_seq ts))"

definition timers :: "packet_tracker_t list \<Rightarrow> (int \<times> int) list" where
  "timers trk = map (\<lambda>t. (tr_sock t, tr_seq t)) (tl trk)"

locale retransmit_queue =
  fixes remove :: "'q \<Rightarrow> int \<Rightarrow> int \<Rightarrow> ('q \<times> int) res"
    and entries :: "'q \<Rightarrow> (int \<times> int) list"
    and ok :: "'q \<Rightarrow> bool"
  assumes remove_ok: "ok t \<Longrightarrow> 0 \<le> q \<Longrightarrow>
    \<exists>t' r. remove t sock q = Inr (t', r) \<and> ok t' \<and>
      entries t' = filter (\<lambda>e. e \<noteq> (sock, q + 1)) (entries t)"
begin

lemma remove_succeeds: "ok t \<Longrightarrow> 0 \<le> q \<Longrightarrow> \<exists>t' r. remove t sock q = Inr (t', r)"
  using remove_ok by blast

lemma removeD:
  assumes "remove t sock q = Inr (t', r)" "ok t" "0 \<le> q"
  shows "ok t'" "entries t' = filter (\<lambda>e. e \<noteq> (sock, q + 1)) (entries t)"
  using remove_ok [OF assms(2,3), of sock] assms(1) by auto

lemma removed_gone:
  assumes "remove t sock q = Inr (t', r)" "ok t" "0 \<le> q"
  shows "(sock, q + 1) \<notin> set (entries t')"
  using removeD [OF assms] by simp

lemma others_kept:
  assumes "remove t sock q = Inr (t', r)" "ok t" "0 \<le> q" "e \<noteq> (sock, q + 1)"
  shows "e \<in> set (entries t') \<longleftrightarrow> e \<in> set (entries t)"
  using removeD [OF assms(1-3)] assms(4) by simp

end

lemma unlink_first_filter:
  assumes "distinct (map tr_seq ts)" "unlink_first ts sock q = (ts', r)"
  shows "distinct (map tr_seq ts') \<and> set ts' \<subseteq> set ts \<and>
    map (\<lambda>t. (tr_sock t, tr_seq t)) ts' =
      filter (\<lambda>e. e \<noteq> (sock, q + 1)) (map (\<lambda>t. (tr_sock t, tr_seq t)) ts)"
  using assms
proof (induction ts arbitrary: ts' r)
  case Nil
  then show ?case by simp
next
  case (Cons p ps)
  show ?case
  proof (cases "tracks sock q p")
    case True
    have "filter (\<lambda>e. e \<noteq> (sock, q + 1)) (map (\<lambda>t. (tr_sock t, tr_seq t)) ps)
        = map (\<lambda>t. (tr_sock t, tr_seq t)) ps"
      using Cons.prems(1) True by (intro filter_True) (force simp: tracks_def)
    with True Cons.prems show ?thesis by (auto simp: tracks_def)
  next
    case False
    then have "(tr_sock p, tr_seq p) \<noteq> (sock, q + 1)" by (auto simp: tracks_def)
    with False Cons show ?thesis by (auto split: prod.splits) (metis image_eqI subsetD)+
  qed
qed

lemma remove_from_tracker_ok:
  assumes "tracker_ok trk" "0 \<le> q"
  shows "\<exists>trk' r. remove_from_tracker trk sock q = Inr (trk', r) \<and> tracker_ok trk' \<and>
    timers trk' = filter (\<lambda>e. e \<noteq> (sock, q + 1)) (timers trk)"
proof (cases trk)
  case Nil
  then show ?thesis by (simp add: remove_from_tracker_def tracker_ok_def timers_def)
next
  case (Cons d ts)
  obtain ts' r where u: "unlink_first ts sock q = (ts', r)" by fastforce
  have "\<not> tracks sock q d" using Cons assms by (auto simp: tracker_ok_def tracks_def)
  moreover have "distinct (map tr_seq ts)" using Cons assms(1) by (simp add: tracker_ok_def)
  ultimately show ?thesis
    using Cons assms(1) u unlink_first_filter [OF _ u]
    by (simp add: remove_from_tracker_def tracker_ok_def timers_def)
qed

interpretation rq: retransmit_queue remove_from_tracker timers tracker_ok
  by unfold_locales (rule remove_from_tracker_ok)

section \<open>Timers are created once per sequence number\<close>

lemma restart_timer_None:
  "restart_timer ts q now = None \<longleftrightarrow> (\<forall>t \<in> set ts. word_of_int (tr_seq t) \<noteq> q)"
  by (induction ts) auto

lemma restart_timer_Some:
  "restart_timer ts q now = Some ts' \<Longrightarrow>
     map tr_seq ts' = map tr_seq ts \<and> map tr_sock ts' = map tr_sock ts \<and>
     map tr_packet ts' = map tr_packet ts \<and> (\<exists>t \<in> set ts. word_of_int (tr_seq t) = q)"
  by (induction ts arbitrary: ts') (auto split: if_splits)

lemma create_timer_ok:
  assumes "tracker_ok trk"
  shows "tracker_ok (create_timer uninit trk pkt sock from now)"
proof (cases trk)
  case Nil
  then show ?thesis by (simp add: create_timer_def tracker_ok_def)
next
  case (Cons d ts)
  show ?thesis
  proof (cases "restart_timer trk (seq_num (header pkt)) now")
    case None
    have "sint (seq_num (header pkt)) \<notin> tr_seq ` set ts"
    proof
      assume "sint (seq_num (header pkt)) \<in> tr_seq ` set ts"
      then obtain t where t: "sint (seq_num (header pkt)) = tr_seq t" "t \<in> set ts"
        by (rule imageE)
      have "word_of_int (tr_seq t) = seq_num (header pkt)"
        unfolding t(1) [symmetric] by simp
      moreover have "\<forall>t \<in> set trk. word_of_int (tr_seq t) \<noteq> seq_num (header pkt)"
        using None by (simp only: restart_timer_None)
      ultimately show False using t(2) Cons by simp
    qed
    with None Cons assms show ?thesis
      by (simp add: create_timer_def tracker_ok_def new_tracker_def)
  next
    case (Some ts')
    then obtain e es where es: "ts' = e # es" "map tr_seq ts' = map tr_seq trk"
      using restart_timer_Some [OF Some] Cons by (cases ts') auto
    with Some Cons assms show ?thesis
      by (simp add: create_timer_def tracker_ok_def del: restart_timer.simps)
  qed
qed

section \<open>Properties of the timers\<close>

lemma unlink_first_result:
  "snd (unlink_first ts sock q) =
     (if (sock, q + 1) \<in> set (map (\<lambda>t. (tr_sock t, tr_seq t)) ts) then 1 else -1)"
proof (induction ts)
  case (Cons t ts)
  have "tracks sock q t \<longleftrightarrow> (sock, q + 1) = (tr_sock t, tr_seq t)" by (auto simp: tracks_def)
  with Cons show ?case by (simp add: case_prod_beta)
qed simp

lemma restart_timer_pairs:
  "restart_timer ts q now = Some ts' \<Longrightarrow>
     map (\<lambda>t. (tr_sock t, tr_seq t)) ts' = map (\<lambda>t. (tr_sock t, tr_seq t)) ts"
  by (induction ts arbitrary: ts') (auto split: if_splits)

text \<open>
  \<^verbatim>\<open>remove_from_tracker\<close> drops exactly the timer of the acknowledged packet, keeps the order of the
  others and says whether there was one, without ever reaching the null dereference at the head.
\<close>

theorem remove_from_tracker_exact:
  assumes "tracker_ok trk" and "0 \<le> q"
  shows "\<exists>trk' r. remove_from_tracker trk sock q = Inr (trk', r) \<and> tracker_ok trk' \<and>
    timers trk' = filter (\<lambda>e. e \<noteq> (sock, q + 1)) (timers trk) \<and>
    (r = 1 \<longleftrightarrow> (sock, q + 1) \<in> set (timers trk))"
proof (cases trk)
  case Nil
  then show ?thesis by (simp add: remove_from_tracker_def tracker_ok_def timers_def)
next
  case (Cons d ts)
  obtain ts' r where u: "unlink_first ts sock q = (ts', r)" by fastforce
  have "\<not> tracks sock q d" using Cons assms by (auto simp: tracker_ok_def tracks_def)
  then have "remove_from_tracker trk sock q = Inr (d # ts', r)"
    using Cons u by (simp add: remove_from_tracker_def)
  moreover have "r = 1 \<longleftrightarrow> (sock, q + 1) \<in> set (timers trk)"
    using unlink_first_result [of ts sock q] u Cons by (simp add: timers_def)
  ultimately show ?thesis using rq.remove_ok [OF assms, of sock] by auto
qed

lemma create_timer_timers:
  assumes "tracker_ok trk" and "seq_num (header pkt) \<noteq> -441"
  shows "timers (create_timer uninit trk pkt sock from now) =
    (if \<exists>peer q. (peer, q) \<in> set (timers trk) \<and> word_of_int q = seq_num (header pkt)
     then timers trk else timers trk @ [(sock, sint (seq_num (header pkt)))])"
proof (cases trk)
  case Nil
  then show ?thesis by (simp add: create_timer_def timers_def new_tracker_def)
next
  case (Cons d ts)
  have dummy: "word_of_int (tr_seq d) \<noteq> seq_num (header pkt)"
    using assms Cons by (auto simp: tracker_ok_def)
  have ex: "(\<exists>peer q. (peer, q) \<in> set (timers trk) \<and> word_of_int q = seq_num (header pkt)) \<longleftrightarrow>
      (\<exists>t \<in> set ts. word_of_int (tr_seq t) = seq_num (header pkt))"
    using Cons by (force simp: timers_def)
  show ?thesis
  proof (cases "restart_timer ts (seq_num (header pkt)) now")
    case None
    then have "\<not> (\<exists>t \<in> set ts. word_of_int (tr_seq t) = seq_num (header pkt))"
      by (simp add: restart_timer_None)
    with None Cons dummy show ?thesis
      unfolding ex by (simp add: create_timer_def timers_def new_tracker_def)
  next
    case (Some ts')
    note r = restart_timer_Some [OF Some]
    with Some Cons dummy r restart_timer_pairs [OF Some] show ?thesis
      unfolding ex by (simp add: create_timer_def timers_def)
  qed
qed

text \<open>
  C38. \<^verbatim>\<open>create_timer\<close> knows a packet by its sequence number alone: when any peer's packet with that
  number is timed already, no timer is created, whoever the packet is for; otherwise exactly one is.
\<close>

theorem create_timer_by_sequence_number:
  assumes "tracker_ok trk" and "seq_num (header pkt) \<noteq> -441"
  shows "timers (create_timer uninit trk pkt sock from now) =
    (if \<exists>peer q. (peer, q) \<in> set (timers trk) \<and> word_of_int q = seq_num (header pkt)
     then timers trk else timers trk @ [(sock, sint (seq_num (header pkt)))])"
  by (rule create_timer_timers [OF assms])

definition example_tracker :: "packet_tracker_t list" where
  "example_tracker =
     map (\<lambda>q. \<lparr>tr_sock = 7, tr_seq = q,
        tr_from = \<lparr>sin_family = 2, sin_port = 1, s_addr = 16777343\<rparr>, tr_send_time = 100,
        tr_expire_time = 0, tr_packet = \<lparr>header = host_header 3 1040 (word_of_int q) 0, data = []\<rparr>\<rparr>)
       [-441, 1, 2, 3]"

lemma example_tracker_ok: "tracker_ok example_tracker"
  by (simp add: example_tracker_def tracker_ok_def)

lemma example_timers: "timers example_tracker = [(7, 1), (7, 2), (7, 3)]"
  by (simp add: example_tracker_def timers_def)

theorem remove_from_tracker_exact_witness:
  "\<exists>trk'. remove_from_tracker example_tracker 7 1 = Inr (trk', 1) \<and> timers trk' = [(7, 1), (7, 3)]"
  using remove_from_tracker_exact [OF example_tracker_ok, of 1 7] by (auto simp: example_timers)

theorem create_timer_by_sequence_number_witness:
  "\<forall>t peer now. timers (create_timer t example_tracker
     \<lparr>header = host_header 3 1040 2 0, data = []\<rparr> 8 peer now) = [(7, 1), (7, 2), (7, 3)]"
proof (intro allI)
  fix t peer now
  let ?p = "\<lparr>header = host_header 3 1040 2 0, data = []\<rparr>"
  have "\<exists>peer q. (peer, q) \<in> set (timers example_tracker) \<and> word_of_int q = seq_num (header ?p)"
    unfolding example_timers by (intro exI [of _ 7] exI [of _ 2]) simp
  then show "timers (create_timer t example_tracker ?p 8 peer now) = [(7, 1), (7, 2), (7, 3)]"
    using create_timer_by_sequence_number [OF example_tracker_ok, of ?p t 8 peer now]
    by (simp only: if_True example_timers) simp
qed

end
