(* ===== verification/Sender.thy ===== *)
theory Sender
  imports Float32 Tracker "HOL-Library.Signed_Division"
begin

text \<open>
  The sender half of \<^verbatim>\<open>flow_control.c\<close>: the sessions \<^verbatim>\<open>data_t\<close> in the global list \<^verbatim>\<open>list\<close>, the sliding
  window (\<^verbatim>\<open>send_data\<close>), the processing of acknowledgements (\<^verbatim>\<open>check_return_ack\<close>, \<^verbatim>\<open>handle_ack\<close>) and
  congestion control (\<^verbatim>\<open>congestion_control\<close>, \<^verbatim>\<open>process_packet_loss\<close>).

  The list of sessions is searched from the front by node id (the code's parameter \<^verbatim>\<open>socket\<close>); a
  session found is written back in its place. \<^verbatim>\<open>malloc\<close> leaves \<^verbatim>\<open>prev_ack\<close> and \<^verbatim>\<open>count_ack\<close>
  uninitialised, so \<open>init_datalist\<close> takes them as parameters. The calls of \<^verbatim>\<open>LOGIN\<close> append to \<open>wlog\<close>.
  A returned \<^verbatim>\<open>data_packet_list_t\<close> is a list from its head, \<^verbatim>\<open>NULL\<close> is the empty list. C's \<^verbatim>\<open>int\<close> is
  \<open>int\<close>: fewer than \<open>2 ^ 31\<close> window increments are assumed, nothing else here can grow.
\<close>

section \<open>State\<close>

datatype pkt_state = UNSEND | UNACKED | ACKED

text \<open>The states are ordered by the progress of a packet, as the numbers of the C enumeration are.\<close>

definition pkt_number :: "pkt_state \<Rightarrow> nat" where
  "pkt_number s = (case s of UNSEND \<Rightarrow> 0 | UNACKED \<Rightarrow> 1 | ACKED \<Rightarrow> 2)"

instantiation pkt_state :: linorder
begin

definition less_eq_pkt_state :: "pkt_state \<Rightarrow> pkt_state \<Rightarrow> bool" where
  "less_eq_pkt_state s t \<longleftrightarrow> pkt_number s \<le> pkt_number t"

definition less_pkt_state :: "pkt_state \<Rightarrow> pkt_state \<Rightarrow> bool" where
  "less_pkt_state s t \<longleftrightarrow> pkt_number s < pkt_number t"

instance
  by standard
     (auto simp: less_eq_pkt_state_def less_pkt_state_def pkt_number_def split: pkt_state.splits)

end

lemma pkt_state_bounds [simp]: "UNSEND \<le> s" "s \<le> ACKED"
  by (cases s; simp add: less_eq_pkt_state_def pkt_number_def)+

datatype cc_state = SLOWSTART | CON_AVOID | FAST_RETRANSMIT

record data_t =
  d_socket :: int
  d_offset :: int
  d_content :: "byte list option"
  d_state :: "pkt_state list"
  d_send_window :: int
  d_ssthresh :: int
  d_congestion_control_state :: cc_state
  d_start :: int
  d_end :: int
  d_increase_rate :: rat
  d_prev_ack :: "32 word"
  d_count_ack :: int

record sender_st =
  snd_list :: "data_t list"
  wlog :: "(int \<times> int) list"

definition CHUNK_PACKET_NUMBER :: nat where "CHUNK_PACKET_NUMBER = 512"

lemma CHUNK_PACKET_NUMBER_nat [layout_simps]: "CHUNK_PACKET_NUMBER = 512"
  by (simp add: CHUNK_PACKET_NUMBER_def)

definition get_data_by_socket :: "int \<Rightarrow> data_t list \<Rightarrow> data_t option" where
  "get_data_by_socket socket l = List.find (\<lambda>d. d_socket d = socket) l"

definition put_data :: "data_t \<Rightarrow> data_t list \<Rightarrow> data_t list" where
  "put_data d l = upd_first (\<lambda>x. d_socket x = d_socket d) d l"

abbreviation put_session :: "data_t \<Rightarrow> sender_st \<Rightarrow> sender_st" where
  "put_session d S \<equiv> S\<lparr>snd_list := put_data d (snd_list S)\<rparr>"

abbreviation session :: "int \<Rightarrow> sender_st \<Rightarrow> data_t option" where
  "session socket S \<equiv> get_data_by_socket socket (snd_list S)"

interpretation snd: session_table get_data_by_socket put_data "(#)" d_socket
proof -
  have eq: "get_data_by_socket = (\<lambda>k. List.find (\<lambda>x. d_socket x = k))"
    "put_data = (\<lambda>v. upd_first (\<lambda>x. d_socket x = d_socket v) v)"
    by (simp_all add: fun_eq_iff get_data_by_socket_def put_data_def)
  show "session_table get_data_by_socket put_data (#) d_socket"
    unfolding eq by (rule keyed_list_table)
qed

section \<open>Sessions and their packets\<close>

definition init_datalist ::
  "32 word \<Rightarrow> int \<Rightarrow> int \<Rightarrow> int \<Rightarrow> byte list option \<Rightarrow> sender_st \<Rightarrow> sender_st" where
  "init_datalist uninit_prev uninit_count socket offset content S =
     S\<lparr>snd_list :=
       \<lparr>d_socket = socket, d_offset = offset, d_content = content,
        d_state = replicate CHUNK_PACKET_NUMBER UNSEND, d_send_window = 1, d_ssthresh = 64,
        d_congestion_control_state = SLOWSTART, d_start = -1, d_end = -1, d_increase_rate = 1,
        d_prev_ack = uninit_prev, d_count_ack = uninit_count\<rparr> # snd_list S\<rparr>"

definition get_content_by_index :: "data_t \<Rightarrow> int \<Rightarrow> byte list res" where
  "get_content_by_index d index =
     (case d_content d of
        None \<Rightarrow> Inl Null_Deref
      | Some bs \<Rightarrow>
          let start = index * 1024
          in if 0 \<le> start \<and> start + 1024 \<le> int (length bs)
             then Inr (take 1024 (drop (nat start) bs)) else Inl Out_Of_Bounds)"

definition data_packet :: "data_t \<Rightarrow> int \<Rightarrow> data_packet_t res" where
  "data_packet d index =
     rbind (get_content_by_index d index) (\<lambda>content.
     rbind (init_packet [] 3 (Some content) 1024) (\<lambda>packet.
     Inr (packet\<lparr>header := (header packet)\<lparr>seq_num := word_of_int (index + 1)\<rparr>\<rparr>)))"

fun send_loop :: "nat \<Rightarrow> data_t \<Rightarrow> data_packet_t list \<Rightarrow> (data_t \<times> data_packet_t list) res" where
  "send_loop 0 d ret = Inr (d, ret)"
| "send_loop (Suc n) d ret =
     (if d_end d \<ge> int CHUNK_PACKET_NUMBER - 1 then Inr (d, ret)
      else let e = d_end d + 1
           in rbind (data_packet d e) (\<lambda>packet.
              rbind (wr (d_state d) e UNACKED) (\<lambda>state'.
              send_loop n (d\<lparr>d_end := e, d_state := state'\<rparr>) (packet # ret))))"

definition send_session :: "data_t \<Rightarrow> (data_t \<times> data_packet_t list) res" where
  "send_session d =
     (let diff = d_end d - d_start d
      in if diff < d_send_window d \<and> d_end d \<le> int CHUNK_PACKET_NUMBER - 1
         then send_loop (nat (d_send_window d - diff)) d [] else Inr (d, []))"

definition send_data :: "int \<Rightarrow> sender_st \<Rightarrow> (sender_st \<times> data_packet_t list) res" where
  "send_data socket S =
     (case session socket S of
        None \<Rightarrow> Inr (S, [])
      | Some d \<Rightarrow> rbind (send_session d) (\<lambda>(d', ret). Inr (put_session d' S, ret)))"

section \<open>Congestion control\<close>

definition process_packet_loss :: "int \<Rightarrow> sender_st \<Rightarrow> sender_st" where
  "process_packet_loss socket S =
     (case session socket S of
        None \<Rightarrow> S
      | Some d \<Rightarrow>
          (put_session (d\<lparr>d_ssthresh := d_send_window d sdiv 2, d_send_window := 1,
              d_congestion_control_state := SLOWSTART, d_increase_rate := 1\<rparr>) S)
            \<lparr>wlog := wlog S @ [(d_offset d, 1)]\<rparr>)"

definition check_return_ack :: "data_t \<Rightarrow> int \<Rightarrow> data_t \<times> bool" where
  "check_return_ack d ack =
     (if d_prev_ack d = word_of_int ack
      then (d\<lparr>d_count_ack := d_count_ack d + 1\<rparr>, d_count_ack d + 1 \<ge> 2)
      else (d\<lparr>d_count_ack := 0, d_prev_ack := word_of_int ack\<rparr>, False))"

text \<open>The session after one acknowledgement, and the log entries it adds.\<close>

definition congestion_control :: "data_t \<Rightarrow> data_t \<times> (int \<times> int) list" where
  "congestion_control d =
     (case d_congestion_control_state d of
        SLOWSTART \<Rightarrow>
          if d_ssthresh d = d_send_window d
          then (d\<lparr>d_congestion_control_state := CON_AVOID, d_increase_rate := 0\<rparr>, [])
          else (d\<lparr>d_send_window := d_send_window d + 1\<rparr>, [(d_offset d, d_send_window d + 1)])
      | CON_AVOID \<Rightarrow>
          let rate = f32_add (d_increase_rate d) (f32_div 1 (f32_of_int (d_send_window d)))
          in if rate \<ge> 1
             then (d\<lparr>d_send_window := d_send_window d + 1, d_increase_rate := 0\<rparr>,
                   [(d_offset d, d_send_window d + 1)])
             else (d\<lparr>d_increase_rate := rate\<rparr>, [])
      | FAST_RETRANSMIT \<Rightarrow> (d, []))"

section \<open>Acknowledgements\<close>

text \<open>
  The loop over the packets newly acknowledged. It ends with \<open>False\<close> at a packet that was never
  sent, where the code returns at once.
\<close>

function ack_loop ::
  "int \<Rightarrow> data_t \<Rightarrow> packet_tracker_t list \<Rightarrow> int \<Rightarrow> int
     \<Rightarrow> (data_t \<times> packet_tracker_t list \<times> bool) res" where
  "ack_loop socket d trk i ack =
     (if i \<le> ack \<and> i < int CHUNK_PACKET_NUMBER then
        rbind (rd (d_state d) i) (\<lambda>st.
        if st = UNSEND then Inr (d, trk, False)
        else if st \<noteq> ACKED then
          rbind (wr (d_state d) i ACKED) (\<lambda>state'.
          rbind (remove_from_tracker trk socket i) (\<lambda>(trk', _).
          ack_loop socket (d\<lparr>d_state := state'\<rparr>) trk' (i + 1) ack))
        else ack_loop socket d trk (i + 1) ack)
      else Inr (d, trk, True))"
  by pat_completeness auto
termination
  by (relation "measure (\<lambda>(_, _, _, i, ack). nat (ack + 1 - i))") auto

declare ack_loop.simps [simp del]

definition handle_ack ::
  "int \<Rightarrow> int \<Rightarrow> packet_tracker_t list \<Rightarrow> sender_st
     \<Rightarrow> (sender_st \<times> packet_tracker_t list \<times> data_packet_t list) res" where
  "handle_ack socket ack trk S =
     (case session socket S of
        None \<Rightarrow> Inr (S, trk, [])
      | Some d0 \<Rightarrow>
          if ack > int CHUNK_PACKET_NUMBER then Inr (S, trk, [])
          else (case check_return_ack d0 ack of
            (d, True) \<Rightarrow>
              if ack < int CHUNK_PACKET_NUMBER - 1 then
                rbind (data_packet d (ack + 1)) (\<lambda>packet.
                Inr (process_packet_loss socket (put_session d S), trk, [packet]))
              else Inr (put_session d S, trk, [])
          | (d, False) \<Rightarrow>
              rbind (ack_loop socket d trk (d_start d + 1) ack) (\<lambda>(d', trk', complete).
              if \<not> complete then Inr (put_session d' S, trk', [])
              else (case congestion_control (d'\<lparr>d_start := ack\<rparr>) of
                (d'', entries) \<Rightarrow>
                  rbind (send_data socket ((put_session d'' S)\<lparr>wlog := wlog S @ entries\<rparr>))
                    (\<lambda>(S', ret). Inr (S', trk', ret))))))"

section \<open>Well-formed sessions\<close>

text \<open>
  \<open>data_pkt F k\<close> is the DATA packet that carries the \<open>k\<close>-th slice of the chunk \<open>F\<close>, as
  \<^verbatim>\<open>send_data\<close> and the fast retransmission build it.

  In a well-formed session exactly the packets up to \<open>d_end\<close> were sent and all up to \<open>d_start\<close> are
  acknowledged.
\<close>

definition data_pkt :: "byte list \<Rightarrow> nat \<Rightarrow> data_packet_t" where
  "data_pkt F k =
     \<lparr>header = hdr_swap (host_header 3 1040 (htonl (word_of_int (int k + 1))) 0),
      data = chunk_slice F k @ replicate 176 0\<rparr>"

definition sender_wf :: "byte list \<Rightarrow> data_t \<Rightarrow> bool" where
  "sender_wf F d \<longleftrightarrow>
     d_content d = Some F \<and> length F = 524288 \<and> length (d_state d) = 512 \<and>
     -1 \<le> d_start d \<and> -1 \<le> d_end d \<and> d_end d \<le> 511 \<and> (d_start d \<le> d_end d \<or> d_end d = 511) \<and>
     1 \<le> d_send_window d \<and>
     (\<forall>i < 512. d_state d ! i \<noteq> UNSEND \<longleftrightarrow> int i \<le> d_end d) \<and>
     (\<forall>i < 512. int i \<le> d_start d \<longrightarrow> d_state d ! i = ACKED)"

lemma get_content_ok:
  assumes "d_content d = Some F" "length F = 524288" "0 \<le> i" "i < 512"
  shows "get_content_by_index d i = Inr (chunk_slice F (nat i))"
  using assms by (simp add: get_content_by_index_def chunk_slice_def Let_def nat_mult_distrib)

lemma data_packet_ok:
  assumes "d_content d = Some F" "length F = 524288" "0 \<le> i" "i < 512"
  shows "data_packet d i = Inr (data_pkt F (nat i))"
  using assms length_chunk_slice [of F "nat i"]
  by (simp add: data_packet_def get_content_ok init_packet_plain data_pkt_def)

section \<open>The sliding window\<close>

lemma send_loop_result:
  assumes "d_content d = Some F" "length F = 524288" "length (d_state d) = 512"
    "-1 \<le> d_end d" "m = min n (nat (511 - d_end d))"
  shows "send_loop n d ret = Inr
    (d\<lparr>d_end := d_end d + int m,
       d_state := blit (d_state d) (nat (d_end d + 1)) (replicate m UNACKED)\<rparr>,
     rev (map (data_pkt F) [nat (d_end d + 1)..<nat (d_end d + 1) + m]) @ ret)"
  using assms
proof (induction n arbitrary: d ret m)
  case 0
  then show ?case by simp
next
  case (Suc n)
  show ?case
  proof (cases "d_end d \<ge> 511")
    case True
    with Suc.prems show ?thesis by (simp add: layout_simps)
  next
    case False
    define e where "e = d_end d + 1"
    define d1 where "d1 = d\<lparr>d_end := e, d_state := (d_state d)[nat e := UNACKED]\<rparr>"
    define m1 where "m1 = min n (nat (511 - d_end d1))"
    have e: "0 \<le> e" "e < 512" using Suc.prems False by (auto simp: e_def)
    have m: "m = Suc m1" using Suc.prems(5) False by (auto simp: m1_def d1_def e_def)
    have 1: "send_loop (Suc n) d ret = send_loop n d1 (data_pkt F (nat e) # ret)"
      using Suc.prems e False
      by (simp add: layout_simps e_def [symmetric] d1_def data_packet_ok in_range_def)
    have 2: "send_loop n d1 (data_pkt F (nat e) # ret) = Inr
        (d1\<lparr>d_end := d_end d1 + int m1,
           d_state := blit (d_state d1) (nat (d_end d1 + 1)) (replicate m1 UNACKED)\<rparr>,
         rev (map (data_pkt F) [nat (d_end d1 + 1)..<nat (d_end d1 + 1) + m1]) @ data_pkt F (nat e) # ret)"
      using Suc.prems e by (intro Suc.IH) (simp_all add: d1_def m1_def)
    have ne: "nat (e + 1) = Suc (nat e)" using e by simp
    have "blit ((d_state d)[nat e := UNACKED]) (Suc (nat e)) (replicate m1 UNACKED)
        = blit (d_state d) (nat e) (replicate m UNACKED)"
      using e Suc.prems(3) unfolding m by (intro blit_update_Suc) simp
    moreover have "[nat e..<nat e + m] = nat e # [Suc (nat e)..<Suc (nat e) + m1]"
      by (simp add: m upt_conv_Cons)
    ultimately show ?thesis
      unfolding 1 2 using ne by (simp add: d1_def e_def m add.assoc)
  qed
qed

text \<open>How many packets the window lets through.\<close>

definition window_room :: "data_t \<Rightarrow> nat" where
  "window_room d =
     min (nat (d_send_window d - (d_end d - d_start d))) (nat (511 - d_end d))"

lemma send_session_result:
  assumes "sender_wf F d" "m = window_room d"
  shows "send_session d = Inr
    (d\<lparr>d_end := d_end d + int m,
       d_state := blit (d_state d) (nat (d_end d + 1)) (replicate m UNACKED)\<rparr>,
     rev (map (data_pkt F) [nat (d_end d + 1)..<nat (d_end d + 1) + m]))"
proof (cases "d_end d - d_start d < d_send_window d")
  case True
  then show ?thesis
    using assms send_loop_result [of d F m "nat (d_send_window d - (d_end d - d_start d))" "[]"]
    by (simp add: send_session_def Let_def sender_wf_def layout_simps window_room_def)
next
  case False
  then show ?thesis
    using assms by (simp add: send_session_def Let_def window_room_def)
qed

lemma send_session_wf:
  assumes "sender_wf F d" "send_session d = Inr (d', ps)"
  shows "sender_wf F d'"
proof -
  let ?m = "window_room d"
  have m: "int ?m \<le> 511 - d_end d" using assms(1) by (auto simp: window_room_def sender_wf_def)
  have d': "d' = d\<lparr>d_end := d_end d + int ?m,
      d_state := blit (d_state d) (nat (d_end d + 1)) (replicate ?m UNACKED)\<rparr>"
    using assms send_session_result [OF assms(1) refl] by simp
  have fits: "nat (d_end d + 1) + ?m \<le> length (d_state d)"
    using m assms(1) by (auto simp: sender_wf_def)
  have "blit (d_state d) (nat (d_end d + 1)) (replicate ?m UNACKED) ! i =
      (if d_end d < int i \<and> int i \<le> d_end d + int ?m then UNACKED else d_state d ! i)"
    if "i < 512" for i
    using that fits assms(1) by (subst nth_blit) (auto simp: sender_wf_def)
  then show ?thesis
    using assms(1) m fits unfolding d' by (auto simp: sender_wf_def length_blit)
qed

section \<open>Processing an acknowledgement\<close>

text \<open>
  The loop walks over \<open>n\<close> sent packets, marks them acknowledged and drops the timers of those that
  were not acknowledged before; it completes unless it meets a packet that was never sent.
\<close>

definition walked :: "data_t \<Rightarrow> int \<Rightarrow> int \<Rightarrow> nat \<Rightarrow> bool" where
  "walked d i ack n \<longleftrightarrow> (n = 0 \<or> i + int n \<le> 512) \<and>
     (\<forall>j < n. d_state d ! (nat i + j) \<noteq> UNSEND \<and> i + int j \<le> ack)"

definition timers_after :: "int \<Rightarrow> data_t \<Rightarrow> int \<Rightarrow> nat \<Rightarrow> (int \<times> int) set \<Rightarrow> (int \<times> int) set" where
  "timers_after socket d i n T =
     T - {e. \<exists>j < n. e = (socket, i + int j + 1) \<and> d_state d ! (nat i + j) = UNACKED}"

lemma walked_Suc:
  assumes "0 \<le> i" "i \<le> ack" "i < 512" "d_state d ! nat i \<noteq> UNSEND" "length (d_state d) = 512"
    "walked (d\<lparr>d_state := (d_state d)[nat i := ACKED]\<rparr>) (i + 1) ack n"
  shows "walked d i ack (Suc n)"
proof -
  have "d_state d ! (nat i + j) \<noteq> UNSEND \<and> i + int j \<le> ack" if "j < Suc n" for j
    using assms that by (cases j) (auto simp: walked_def nat_add_distrib)
  then show ?thesis using assms by (auto simp: walked_def)
qed

lemma timers_after_Suc:
  assumes "0 \<le> i"
  shows "timers_after socket d i (Suc n) T =
    timers_after socket (d\<lparr>d_state := (d_state d)[nat i := ACKED]\<rparr>) (i + 1) n
      (if d_state d ! nat i = UNACKED then T - {(socket, i + 1)} else T)"
  using assms unfolding timers_after_def Ex_less_Suc2
  by (auto simp: nat_add_distrib add.assoc)

lemma ack_loop_step:
  assumes "0 \<le> i" "i \<le> ack" "i < 512" "d_state d ! nat i \<noteq> UNSEND" "length (d_state d) = 512"
    "tracker_ok trk"
  shows "\<exists>trk1. tracker_ok trk1 \<and>
    set (timers trk1) = (if d_state d ! nat i = UNACKED then set (timers trk) - {(socket, i + 1)}
      else set (timers trk)) \<and>
    ack_loop socket d trk i ack =
      ack_loop socket (d\<lparr>d_state := (d_state d)[nat i := ACKED]\<rparr>) trk1 (i + 1) ack"
proof (cases "d_state d ! nat i = ACKED")
  case True
  then have "d\<lparr>d_state := (d_state d)[nat i := ACKED]\<rparr> = d"
    by (metis data_t.surjective data_t.update_convs(4) list_update_id)
  with True assms show ?thesis
    by (intro exI [of _ trk])
       (simp add: ack_loop.simps [of socket d trk i ack] layout_simps in_range_def)
next
  case False
  with assms(4) have u: "d_state d ! nat i = UNACKED"
    by (cases "d_state d ! nat i") auto
  obtain trk1 r where rm: "remove_from_tracker trk socket i = Inr (trk1, r)"
    using rq.remove_succeeds [OF assms(6,1)] by blast
  show ?thesis
    using assms u rm rq.removeD [OF rm assms(6,1)]
    by (intro exI [of _ trk1])
       (auto simp: ack_loop.simps [of socket d trk i ack] layout_simps in_range_def)
qed

lemma ack_loop_result:
  assumes "length (d_state d) = 512" "0 \<le> i" "tracker_ok trk"
  shows "\<exists>n trk' c. ack_loop socket d trk i ack =
      Inr (d\<lparr>d_state := blit (d_state d) (nat i) (replicate n ACKED)\<rparr>, trk', c) \<and>
    walked d i ack n \<and> tracker_ok trk' \<and>
    set (timers trk') = timers_after socket d i n (set (timers trk)) \<and>
    (if c then ack < i + int n \<or> 512 \<le> i + int n
     else i + int n \<le> ack \<and> i + int n < 512 \<and> d_state d ! (nat i + n) = UNSEND)"
  using assms
proof (induction "nat (ack + 1 - i)" arbitrary: d trk i rule: less_induct)
  case less
  show ?case
  proof (cases "i \<le> ack \<and> i < 512 \<and> d_state d ! nat i \<noteq> UNSEND")
    case False
    then show ?thesis
      using less.prems
      by (intro exI [of _ 0] exI [of _ trk] exI [of _ "\<not> (i \<le> ack \<and> i < 512)"])
         (auto simp: ack_loop.simps [of socket d trk i ack] layout_simps in_range_def walked_def
           timers_after_def)
  next
    case True
    define d1 where "d1 = d\<lparr>d_state := (d_state d)[nat i := ACKED]\<rparr>"
    obtain trk1 where trk1: "tracker_ok trk1"
        "set (timers trk1) = (if d_state d ! nat i = UNACKED
           then set (timers trk) - {(socket, i + 1)} else set (timers trk))"
        "ack_loop socket d trk i ack = ack_loop socket d1 trk1 (i + 1) ack"
      using ack_loop_step [of i ack d trk socket] True less.prems by (auto simp: d1_def)
    have len: "length (d_state d1) = 512" using less.prems by (simp add: d1_def)
    obtain n trk' c where ih: "ack_loop socket d1 trk1 (i + 1) ack =
        Inr (d1\<lparr>d_state := blit (d_state d1) (nat (i + 1)) (replicate n ACKED)\<rparr>, trk', c)"
      "walked d1 (i + 1) ack n" "tracker_ok trk'"
      "set (timers trk') = timers_after socket d1 (i + 1) n (set (timers trk1))"
      "if c then ack < i + 1 + int n \<or> 512 \<le> i + 1 + int n
       else i + 1 + int n \<le> ack \<and> i + 1 + int n < 512 \<and> d_state d1 ! (nat (i + 1) + n) = UNSEND"
      using less.hyps [of "i + 1" d1 trk1] True less.prems len trk1(1) by auto
    have i1: "nat (i + 1) = Suc (nat i)" using less.prems by simp
    have "blit (d_state d1) (nat (i + 1)) (replicate n ACKED) =
        blit (d_state d) (nat i) (replicate (Suc n) ACKED)"
      using True less.prems blit_update_Suc [of "nat i" "d_state d" ACKED n]
      unfolding d1_def i1 by (simp add: nat_less_iff)
    then have 1: "ack_loop socket d trk i ack =
        Inr (d\<lparr>d_state := blit (d_state d) (nat i) (replicate (Suc n) ACKED)\<rparr>, trk', c)"
      unfolding trk1(3) ih(1) by (simp add: d1_def)
    have 2: "walked d i ack (Suc n)"
      using True less.prems ih(2) unfolding d1_def by (intro walked_Suc) auto
    have 3: "set (timers trk') = timers_after socket d i (Suc n) (set (timers trk))"
      using less.prems ih(4) unfolding trk1(2) d1_def by (simp add: timers_after_Suc)
    have 4: "if c then ack < i + int (Suc n) \<or> 512 \<le> i + int (Suc n)
       else i + int (Suc n) \<le> ack \<and> i + int (Suc n) < 512 \<and> d_state d ! (nat i + Suc n) = UNSEND"
      using ih(5) less.prems unfolding i1 d1_def by (auto split: if_splits)
    show ?thesis using 1 2 3 4 ih(3) by blast
  qed
qed

lemma marked_nth:
  assumes "walked d i ack n" "length (d_state d) = 512" "0 \<le> i" "j < 512"
  shows "blit (d_state d) (nat i) (replicate n ACKED) ! j =
    (if i \<le> int j \<and> int j < i + int n then ACKED else d_state d ! j)"
proof (cases "n = 0")
  case False
  then have "nat i + n \<le> 512" using assms by (auto simp: walked_def)
  then show ?thesis using assms by (subst nth_blit) auto
qed auto

lemma walked_sent:
  assumes "walked d i ack n" "sender_wf F d" "0 \<le> i" "i \<le> j" "j < i + int n"
  shows "j \<le> d_end d" "j \<le> ack" "j < 512"
proof -
  have k: "nat (j - i) < n" "i + int (nat (j - i)) = j" "nat i + nat (j - i) = nat j"
    using assms by auto
  have "n = 0 \<or> i + int n \<le> 512" using assms(1) by (simp add: walked_def)
  then show b: "j < 512" using assms k by auto
  have w: "d_state d ! nat j \<noteq> UNSEND \<and> j \<le> ack"
    using assms(1) k unfolding walked_def by metis
  then show "j \<le> ack" by simp
  show "j \<le> d_end d"
    using w b assms(2-4) unfolding sender_wf_def by (metis int_nat_eq nat_less_iff order_trans of_nat_numeral)
qed

lemma marked_wf:
  assumes "sender_wf F d" "walked d (d_start d + 1) ack n"
  shows "sender_wf F (d\<lparr>d_state := blit (d_state d) (nat (d_start d + 1)) (replicate n ACKED)\<rparr>)"
proof -
  have s: "0 \<le> d_start d + 1" "length (d_state d) = 512" using assms(1) by (auto simp: sender_wf_def)
  note nth = marked_nth [OF assms(2) s(2,1)] and sent = walked_sent [OF assms(2,1) s(1)]
  have "length (blit (d_state d) (nat (d_start d + 1)) (replicate n ACKED)) = 512"
    using assms(2) s by (cases "n = 0") (auto simp: walked_def length_blit)
  then show ?thesis using assms(1) sent(1) by (auto simp: sender_wf_def nth)
qed

lemma marked_complete_wf:
  assumes "sender_wf F d" "walked d (d_start d + 1) ack n" "-1 \<le> ack"
    "ack < d_start d + 1 + int n \<or> 512 \<le> d_start d + 1 + int n"
  shows "sender_wf F (d\<lparr>d_state := blit (d_state d) (nat (d_start d + 1)) (replicate n ACKED),
    d_start := ack\<rparr>)"
proof -
  let ?d = "d\<lparr>d_state := blit (d_state d) (nat (d_start d + 1)) (replicate n ACKED)\<rparr>"
  have s: "0 \<le> d_start d + 1" "length (d_state d) = 512" using assms(1) by (auto simp: sender_wf_def)
  note nth = marked_nth [OF assms(2) s(2,1)] and sent = walked_sent [OF assms(2,1) s(1)]
  have acked: "d_state ?d ! i = ACKED" if "i < 512" "int i \<le> ack" for i
    using that assms(1,4) nth [of i] by (auto simp: sender_wf_def)
  have "ack \<le> d_end d \<or> d_end d = 511"
  proof (cases "ack < d_start d + 1 \<or> n = 0")
    case True
    then show ?thesis using assms(1,4) by (auto simp: sender_wf_def)
  next
    case False
    then show ?thesis
      using assms(1,4) sent(1) [of ack] sent(1) [of "d_start d + int n"] by (auto simp: sender_wf_def)
  qed
  with marked_wf [OF assms(1,2)] acked assms(3) show ?thesis by (simp add: sender_wf_def)
qed

section \<open>Every operation keeps sessions well-formed\<close>

lemma sender_wf_updates [simp]:
  "sender_wf F (d\<lparr>d_prev_ack := a\<rparr>) = sender_wf F d"
  "sender_wf F (d\<lparr>d_count_ack := c\<rparr>) = sender_wf F d"
  "sender_wf F (d\<lparr>d_ssthresh := t\<rparr>) = sender_wf F d"
  "sender_wf F (d\<lparr>d_congestion_control_state := s\<rparr>) = sender_wf F d"
  "sender_wf F (d\<lparr>d_increase_rate := r\<rparr>) = sender_wf F d"
  by (simp_all add: sender_wf_def)

lemma sender_wf_window: "sender_wf F d \<Longrightarrow> 1 \<le> w \<Longrightarrow> sender_wf F (d\<lparr>d_send_window := w\<rparr>)"
  by (simp add: sender_wf_def)

lemma check_return_ack_frame:
  "check_return_ack d ack = (d', b) \<Longrightarrow>
     d' = d\<lparr>d_prev_ack := d_prev_ack d', d_count_ack := d_count_ack d'\<rparr>"
  by (auto simp: check_return_ack_def split: if_splits)

lemma check_return_ack_wf:
  "check_return_ack d ack = (d', b) \<Longrightarrow> sender_wf F d \<Longrightarrow>
     sender_wf F d' \<and> d_socket d' = d_socket d \<and> d_state d' = d_state d \<and> d_start d' = d_start d"
  by (auto simp: check_return_ack_def split: if_splits)

lemma congestion_control_frame:
  assumes "congestion_control d = (d', entries)"
  shows "d' = d\<lparr>d_send_window := d_send_window d', d_increase_rate := d_increase_rate d',
      d_congestion_control_state := d_congestion_control_state d'\<rparr>"
    "d_send_window d \<le> d_send_window d'" "d_send_window d' \<le> d_send_window d + 1"
    "entries = (if d_send_window d' = d_send_window d then [] else [(d_offset d, d_send_window d')])"
  using assms
  by (auto simp: congestion_control_def Let_def split: cc_state.splits if_splits)

lemma congestion_control_wf:
  assumes "congestion_control d = (d', entries)" "sender_wf F d"
  shows "sender_wf F d' \<and> d_socket d' = d_socket d \<and> d_state d' = d_state d"
proof -
  have w: "1 \<le> d_send_window d'"
    using congestion_control_frame(2) [OF assms(1)] assms(2) by (simp add: sender_wf_def)
  show ?thesis
    by (subst (1 2 3) congestion_control_frame(1) [OF assms(1)])
       (simp add: sender_wf_window [OF assms(2) w])
qed

lemma process_packet_loss_session:
  assumes "session socket S = Some d" "sender_wf F d"
  shows "\<exists>d'. session socket (process_packet_loss socket S) = Some d' \<and> sender_wf F d' \<and>
    d_state d' = d_state d"
  using assms snd.store_same [OF assms(1)] snd.lookup_key [OF assms(1)]
  by (auto simp: process_packet_loss_def sender_wf_window)

lemma process_packet_loss_other:
  assumes "k \<noteq> socket"
  shows "session k (process_packet_loss socket S) = session k S"
proof (cases "session socket S")
  case (Some d)
  then show ?thesis
    using assms snd.lookup_key [OF Some] by (simp add: process_packet_loss_def snd.store_other)
qed (simp add: process_packet_loss_def)

lemma send_data_session:
  assumes "session socket S = Some d" "sender_wf F d"
  shows "\<exists>d' ps. send_data socket S = Inr (put_session d' S, ps) \<and>
    send_session d = Inr (d', ps) \<and> sender_wf F d' \<and> d_socket d' = socket \<and>
    set ps \<subseteq> data_pkt F ` {k. k < 512} \<and>
    (\<forall>i < 512. d_state d' ! i = ACKED \<longrightarrow> d_state d ! i = ACKED) \<and>
    (\<forall>i < 512. d_state d ! i \<le> d_state d' ! i)"
proof -
  define m where "m = window_room d"
  note r = send_session_result [OF assms(2) m_def]
  have m: "int m \<le> 511 - d_end d" "-1 \<le> d_end d" "length (d_state d) = 512"
    using assms(2) by (auto simp: m_def window_room_def sender_wf_def)
  then have fits: "nat (d_end d + 1) + m \<le> length (d_state d)" by simp
  have idx: "k < 512" if "k < nat (d_end d + 1) + m" for k
    using that fits m(3) by simp
  have unsent: "d_state d ! i = UNSEND" if "i < 512" "nat (d_end d + 1) \<le> i" for i
    using assms(2) that by (auto simp: sender_wf_def)
  show ?thesis
    unfolding send_data_def using assms(1) r send_session_wf [OF assms(2) r]
      snd.lookup_key [OF assms(1)] idx fits m(3) unsent
    by (auto simp: nth_blit split: if_splits)
qed

text \<open>
  What one acknowledgement does: no fault, the session stays well-formed, other sessions are
  untouched, only DATA packets of the chunk are produced, and nothing beyond \<open>ack\<close> becomes
  acknowledged.
\<close>

definition ack_effect ::
  "byte list \<Rightarrow> int \<Rightarrow> int \<Rightarrow> data_t \<Rightarrow> sender_st \<Rightarrow> packet_tracker_t list
     \<Rightarrow> sender_st \<Rightarrow> packet_tracker_t list \<Rightarrow> data_packet_t list \<Rightarrow> bool" where
  "ack_effect F socket ack d S trk S' trk' ps \<longleftrightarrow>
     (\<exists>d'. session socket S' = Some d' \<and> sender_wf F d' \<and>
        (\<forall>i < 512. d_state d' ! i = ACKED \<longrightarrow> d_state d ! i = ACKED \<or> int i \<le> ack) \<and>
        (\<forall>i < 512. d_state d ! i \<le> d_state d' ! i)) \<and>
     tracker_ok trk' \<and> (\<forall>k. k \<noteq> socket \<longrightarrow> session k S' = session k S) \<and>
     set (timers trk') \<subseteq> set (timers trk) \<and> set ps \<subseteq> data_pkt F ` {k. k < 512}"

lemma handle_ack_duplicate:
  assumes S: "session socket S = Some d0" and wf: "sender_wf F d0" and trk: "tracker_ok trk"
    and ack: "-1 \<le> ack" "ack \<le> 512" and dup: "check_return_ack d0 ack = (d, True)"
  shows "\<exists>S' trk' ps. handle_ack socket ack trk S = Inr (S', trk', ps) \<and>
    ack_effect F socket ack d0 S trk S' trk' ps"
proof -
  note c = check_return_ack_wf [OF dup wf]
  have key: "d_socket d = socket" using c snd.lookup_key [OF S] by simp
  have S1: "session socket (put_session d S) = Some d"
    using S key by (simp add: snd.store_same)
  obtain d' where d': "session socket (process_packet_loss socket (put_session d S)) = Some d'"
      "sender_wf F d'" "d_state d' = d_state d"
    using process_packet_loss_session [OF S1] c by blast
  show ?thesis
  proof (cases "ack < 511")
    case True
    have p: "data_packet d (ack + 1) = Inr (data_pkt F (nat (ack + 1)))"
      using c ack(1) True by (intro data_packet_ok) (auto simp: sender_wf_def)
    have "nat (ack + 1) < 512" using True ack(1) by simp
    then show ?thesis
      using S ack(2) dup True p d' c trk key
      by (simp add: handle_ack_def layout_simps ack_effect_def process_packet_loss_other
          snd.store_other)
  next
    case False
    then show ?thesis
      using S ack(2) dup S1 c trk key
      by (simp add: handle_ack_def layout_simps ack_effect_def snd.store_other)
  qed
qed

lemma handle_ack_new:
  assumes S: "session socket S = Some d0" and wf: "sender_wf F d0" and trk: "tracker_ok trk"
    and ack: "-1 \<le> ack" "ack \<le> 512" and new: "check_return_ack d0 ack = (d, False)"
  shows "\<exists>S' trk' ps. handle_ack socket ack trk S = Inr (S', trk', ps) \<and>
    ack_effect F socket ack d0 S trk S' trk' ps"
proof -
  note c = check_return_ack_wf [OF new wf]
  have key: "d_socket d = socket" using c snd.lookup_key [OF S] by simp
  have i: "0 \<le> d_start d + 1" "length (d_state d) = 512" using c by (auto simp: sender_wf_def)
  obtain n trk' cpl where L: "ack_loop socket d trk (d_start d + 1) ack =
        Inr (d\<lparr>d_state := blit (d_state d) (nat (d_start d + 1)) (replicate n ACKED)\<rparr>, trk', cpl)"
      "walked d (d_start d + 1) ack n" "tracker_ok trk'"
      "set (timers trk') = timers_after socket d (d_start d + 1) n (set (timers trk))"
      "if cpl then ack < d_start d + 1 + int n \<or> 512 \<le> d_start d + 1 + int n
       else d_start d + 1 + int n \<le> ack \<and> d_start d + 1 + int n < 512 \<and>
         d_state d ! (nat (d_start d + 1) + n) = UNSEND"
    using ack_loop_result [OF i(2,1) trk] by blast
  define d1 where "d1 = d\<lparr>d_state := blit (d_state d) (nat (d_start d + 1)) (replicate n ACKED)\<rparr>"
  have sub: "set (timers trk') \<subseteq> set (timers trk)" using L(4) by (auto simp: timers_after_def)
  have marks: "d_state d0 ! j = ACKED \<or> int j \<le> ack" if "j < 512" "d_state d1 ! j = ACKED" for j
    using that marked_nth [OF L(2) i(2,1) that(1)] walked_sent(2) [OF L(2) _ i(1), of F "int j"] c
    by (auto simp: d1_def split: if_splits)
  have grows: "d_state d0 ! j \<le> d_state d1 ! j" if "j < 512" for j
    using marked_nth [OF L(2) i(2,1) that] c by (simp add: d1_def)
  have d1: "sender_wf F d1" "d_socket d1 = socket"
    using marked_wf [OF _ L(2), of F] c key by (auto simp: d1_def)
  show ?thesis
  proof (cases cpl)
    case False
    then show ?thesis
      using S ack(2) new L(1,3) d1 marks grows sub snd.store_same [OF S d1(2)]
      by (simp add: handle_ack_def layout_simps ack_effect_def d1_def [symmetric] snd.store_other)
  next
    case True
    obtain d2 es where cc: "congestion_control (d1\<lparr>d_start := ack\<rparr>) = (d2, es)" by fastforce
    have "sender_wf F (d1\<lparr>d_start := ack\<rparr>)"
      using marked_complete_wf [OF _ L(2) ack(1), of F] L(5) True c by (simp add: d1_def)
    note d2 = congestion_control_wf [OF cc this]
    define S2 where "S2 = (put_session d2 S)\<lparr>wlog := wlog S @ es\<rparr>"
    have S2: "session socket S2 = Some d2"
      using S d2 d1(2) by (simp add: S2_def snd.store_same)
    obtain d3 ps where d3: "send_data socket S2 = Inr (put_session d3 S2, ps)" "sender_wf F d3"
        "d_socket d3 = socket" "set ps \<subseteq> data_pkt F ` {k. k < 512}"
        "\<forall>i < 512. d_state d3 ! i = ACKED \<longrightarrow> d_state d2 ! i = ACKED"
        "\<forall>i < 512. d_state d2 ! i \<le> d_state d3 ! i"
      using send_data_session [OF S2] d2 by blast
    have "session socket (put_session d3 S2) = Some d3"
      using S2 d3(3) by (simp add: snd.store_same)
    moreover have "session k (put_session d3 S2) = session k S" if "k \<noteq> socket" for k
      using that d3(3) d2 d1(2) by (simp add: snd.store_other S2_def)
    moreover have "d_state d0 ! j = ACKED \<or> int j \<le> ack" if "j < 512" "d_state d3 ! j = ACKED" for j
      using that d3(5) d2 marks by simp
    moreover have "d_state d0 ! j \<le> d_state d3 ! j" if "j < 512" for j
      using that d3(6) d2 grows [OF that] by (auto intro: order_trans)
    moreover have "handle_ack socket ack trk S = Inr (put_session d3 S2, trk', ps)"
      using S ack(2) new L(1) True cc d3(1)
      by (simp add: handle_ack_def layout_simps d1_def [symmetric] S2_def [symmetric])
    ultimately show ?thesis using d3(2,4) L(3) sub unfolding ack_effect_def by blast
  qed
qed

theorem handle_ack_effect:
  assumes "session socket S = Some d" "sender_wf F d" "tracker_ok trk" "-1 \<le> ack" "ack \<le> 512"
  shows "\<exists>S' trk' ps. handle_ack socket ack trk S = Inr (S', trk', ps) \<and>
    ack_effect F socket ack d S trk S' trk' ps"
proof (cases "check_return_ack d ack")
  case (Pair d' b)
  then show ?thesis
    using handle_ack_duplicate [OF assms] handle_ack_new [OF assms] by (cases b) auto
qed

section \<open>A new cumulative acknowledgement\<close>

lemma congestion_control_same_inputs:
  assumes "d_send_window d = d_send_window e" "d_ssthresh d = d_ssthresh e"
    "d_congestion_control_state d = d_congestion_control_state e"
    "d_increase_rate d = d_increase_rate e"
  shows "d_send_window (fst (congestion_control d)) = d_send_window (fst (congestion_control e))"
  using assms by (auto simp: congestion_control_def Let_def split: cc_state.splits)

lemma walk_length:
  assumes wf: "sender_wf F d" and n: "walked d (d_start d + 1) ack n"
    and ack: "d_start d < ack" "ack \<le> d_end d"
    and c: "if c then ack < d_start d + 1 + int n \<or> 512 \<le> d_start d + 1 + int n
       else d_start d + 1 + int n \<le> ack \<and> d_start d + 1 + int n < 512 \<and>
         d_state d ! (nat (d_start d + 1) + n) = UNSEND"
  shows "c" "n = nat (ack - d_start d)"
proof -
  have s: "0 \<le> d_start d + 1" "d_end d \<le> 511" using wf by (auto simp: sender_wf_def)
  show c
  proof (rule ccontr)
    assume "\<not> c"
    then have u: "d_start d + 1 + int n \<le> ack" "d_state d ! (nat (d_start d + 1) + n) = UNSEND"
      using c by auto
    moreover have "nat (d_start d + 1) + n < 512" "int (nat (d_start d + 1) + n) \<le> d_end d"
      using u(1) ack s by auto
    ultimately show False using wf unfolding sender_wf_def by blast
  qed
  then have "ack - d_start d \<le> int n" using c ack(2) s(2) by auto
  moreover have "int n \<le> ack - d_start d"
    using walked_sent(2) [OF n wf s(1), of "d_start d + int n"] ack(1) by (cases "n = 0") auto
  ultimately show "n = nat (ack - d_start d)" by simp
qed

lemma window_room_end:
  assumes "sender_wf F d" "d_start d \<le> d_end d"
  shows "d_end d + int (window_room d) = max (d_end d) (min 511 (d_start d + d_send_window d))"
  using assms by (auto simp: window_room_def sender_wf_def)

theorem handle_ack_advances:
  assumes S: "session socket S = Some d0" and wf: "sender_wf F d0" and trk: "tracker_ok trk"
    and ack: "d_start d0 < ack" "ack \<le> d_end d0" and prev: "d_prev_ack d0 \<noteq> word_of_int ack"
  shows "\<exists>S' trk' d'. handle_ack socket ack trk S = Inr (S', trk',
      rev (map (data_pkt F) [nat (d_end d0 + 1)..<nat (d_end d' + 1)])) \<and>
    session socket S' = Some d' \<and> sender_wf F d' \<and> tracker_ok trk' \<and>
    d_start d' = ack \<and> d_prev_ack d' = word_of_int ack \<and>
    d_send_window d' = d_send_window (fst (congestion_control d0)) \<and>
    d_end d' = max (d_end d0) (min 511 (ack + d_send_window d')) \<and>
    set (timers trk') =
      timers_after socket d0 (d_start d0 + 1) (nat (ack - d_start d0)) (set (timers trk))"
proof -
  define d where "d = d0\<lparr>d_count_ack := 0, d_prev_ack := word_of_int ack\<rparr>"
  have new: "check_return_ack d0 ack = (d, False)" using prev by (simp add: check_return_ack_def d_def)
  have dwf: "sender_wf F d" using wf by (simp add: d_def)
  have key: "d_socket d = socket" using snd.lookup_key [OF S] by (simp add: d_def)
  have i: "0 \<le> d_start d + 1" "length (d_state d) = 512" "ack \<le> 511" "-1 \<le> ack"
    using dwf ack by (auto simp: sender_wf_def d_def)
  have acks: "d_start d < ack" "ack \<le> d_end d" using ack by (simp_all add: d_def)
  obtain n trk' c where L: "ack_loop socket d trk (d_start d + 1) ack =
        Inr (d\<lparr>d_state := blit (d_state d) (nat (d_start d + 1)) (replicate n ACKED)\<rparr>, trk', c)"
      "walked d (d_start d + 1) ack n" "tracker_ok trk'"
      "set (timers trk') = timers_after socket d (d_start d + 1) n (set (timers trk))"
      "if c then ack < d_start d + 1 + int n \<or> 512 \<le> d_start d + 1 + int n
       else d_start d + 1 + int n \<le> ack \<and> d_start d + 1 + int n < 512 \<and>
         d_state d ! (nat (d_start d + 1) + n) = UNSEND"
    using ack_loop_result [OF i(2,1) trk] by blast
  note n = walk_length [OF dwf L(2) acks L(5)]
  define d1 where "d1 = d\<lparr>d_state := blit (d_state d) (nat (d_start d + 1)) (replicate n ACKED),
    d_start := ack\<rparr>"
  have d1: "sender_wf F d1"
    using marked_complete_wf [OF dwf L(2) i(4)] L(5) n(1) by (simp add: d1_def)
  obtain d2 es where cc: "congestion_control d1 = (d2, es)" by fastforce
  note d2 = congestion_control_wf [OF cc d1] congestion_control_frame(1) [OF cc]
  have keep: "d_start d2 = ack" "d_end d2 = d_end d0" "d_socket d2 = socket"
      "d_prev_ack d2 = word_of_int ack"
    using key by (subst d2(2), simp add: d1_def d_def)+
  have w: "d_send_window d2 = d_send_window (fst (congestion_control d0))"
    using congestion_control_same_inputs [of d1 d0] cc by (simp add: d1_def d_def)
  define S2 where "S2 = (put_session d2 S)\<lparr>wlog := wlog S @ es\<rparr>"
  have S2: "session socket S2 = Some d2" using S keep(3) by (simp add: S2_def snd.store_same)
  let ?m = "window_room d2"
  have d2wf: "sender_wf F d2" using d2(1) by simp
  define d3 where "d3 = d2\<lparr>d_end := d_end d2 + int ?m,
    d_state := blit (d_state d2) (nat (d_end d2 + 1)) (replicate ?m UNACKED)\<rparr>"
  have send: "send_session d2 =
      Inr (d3, rev (map (data_pkt F) [nat (d_end d2 + 1)..<nat (d_end d2 + 1) + ?m]))"
    using send_session_result [OF d2wf refl] by (simp add: d3_def)
  have e: "d_end d3 = max (d_end d0) (min 511 (ack + d_send_window d3))"
    using window_room_end [OF d2wf] keep ack by (simp add: d3_def)
  have "-1 \<le> d_end d2" using d2wf by (simp add: sender_wf_def)
  moreover have "d_end d3 = d_end d2 + int ?m" by (simp add: d3_def)
  ultimately have "nat (d_end d2 + 1) + ?m = nat (d_end d3 + 1)" by linarith
  then have "send_data socket S2 = Inr (put_session d3 S2,
      rev (map (data_pkt F) [nat (d_end d0 + 1)..<nat (d_end d3 + 1)]))"
    using send S2 keep(2) by (simp add: send_data_def)
  then have "handle_ack socket ack trk S = Inr (put_session d3 S2, trk',
      rev (map (data_pkt F) [nat (d_end d0 + 1)..<nat (d_end d3 + 1)]))"
    using S i(3) new L(1) n(1) cc
    by (simp add: handle_ack_def layout_simps d1_def [symmetric] S2_def [symmetric])
  moreover have "session socket (put_session d3 S2) = Some d3"
    using S2 keep(3) by (simp add: snd.store_same d3_def)
  moreover have "timers_after socket d (d_start d + 1) n (set (timers trk)) =
      timers_after socket d0 (d_start d0 + 1) (nat (ack - d_start d0)) (set (timers trk))"
    using n(2) by (simp add: timers_after_def d_def)
  ultimately show ?thesis
    using send_session_wf [OF d2wf send] L(3,4) keep w e
    by (intro exI [of _ "put_session d3 S2"] exI [of _ trk'] exI [of _ d3]) (simp add: d3_def)
qed

section \<open>Runs of congestion control\<close>

text \<open>\<open>cc_run n\<close>: the session after \<open>n\<close> new acknowledgements, as far as congestion control goes.\<close>

fun cc_run :: "nat \<Rightarrow> data_t \<Rightarrow> data_t" where
  "cc_run 0 d = d"
| "cc_run (Suc n) d = fst (congestion_control (cc_run n d))"

lemma cc_slow_start:
  assumes "d_congestion_control_state d = SLOWSTART"
    "d_send_window d + int n \<le> d_ssthresh d \<or> d_ssthresh d < d_send_window d"
  shows "cc_run n d = d\<lparr>d_send_window := d_send_window d + int n\<rparr>"
  using assms(2)
proof (induction n)
  case (Suc n)
  then have "cc_run n d = d\<lparr>d_send_window := d_send_window d + int n\<rparr>" by auto
  moreover have "d_ssthresh d \<noteq> d_send_window d + int n" using Suc.prems by auto
  ultimately show ?case using assms(1) by (simp add: congestion_control_def add.assoc)
qed simp

lemma cc_avoid_rate:
  assumes "d_congestion_control_state d = CON_AVOID" "d_send_window d = 2 ^ j" "j \<le> 22"
    "d_increase_rate d = 0" "n < 2 ^ j"
  shows "cc_run n d = d\<lparr>d_increase_rate := of_nat n / 2 ^ j\<rparr>"
  using assms(5)
proof (induction n)
  case 0
  then show ?case using assms(4) by simp
next
  case (Suc n)
  then have ih: "cc_run n d = d\<lparr>d_increase_rate := of_nat n / 2 ^ j\<rparr>" by simp
  have "(2 :: int) ^ j \<le> 2 ^ 22" using assms(3) by (intro power_increasing) auto
  then have w: "f32_of_int (2 ^ j) = 2 ^ j" using f32_of_int_exact [of "2 ^ j"] by simp
  have one: "f32_div 1 (2 ^ j) = 1 / 2 ^ j"
    using f32_round_dyadic [of 1 j] assms(3) by (simp add: f32_div_def)
  have "int (Suc n) < 2 ^ 24"
    using Suc.prems \<open>(2 :: int) ^ j \<le> 2 ^ 22\<close> of_nat_less_iff [of "Suc n" "2 ^ j", where ?'a = int] by simp
  then have "f32_round (of_int (int (Suc n)) / 2 ^ j) = of_int (int (Suc n)) / 2 ^ j"
    using assms(3) by (intro f32_round_dyadic) auto
  moreover have "of_nat n / 2 ^ j + 1 / 2 ^ j = (of_int (int (Suc n)) / 2 ^ j :: rat)"
    by (simp add: add_divide_distrib)
  ultimately have add: "f32_add (of_nat n / 2 ^ j) (1 / 2 ^ j) = of_nat (Suc n) / 2 ^ j"
    by (simp add: f32_add_def)
  have "(of_nat (Suc n) :: rat) < 2 ^ j"
    using Suc.prems of_nat_less_iff [of "Suc n" "2 ^ j", where ?'a = rat] by simp
  then have "of_nat (Suc n) / 2 ^ j < (1 :: rat)" by simp
  then show ?case
    using assms(1,2) by (simp add: ih congestion_control_def Let_def w one add not_le del: of_nat_Suc)
qed

section \<open>Properties of the sender\<close>

text \<open>
  C11. A new cumulative acknowledgement within the window: the window starts behind it, the window is
  refilled with the next packets of the chunk in sending order (the list is reversed once more by the
  caller) up to the congestion window, and exactly the timers of the packets it acknowledges for the
  first time are dropped.
\<close>

theorem new_ack_slides_window:
  assumes "session socket S = Some d" and "sender_wf F d" and "tracker_ok trk"
    and "d_start d < ack" and "ack \<le> d_end d" and "d_prev_ack d \<noteq> word_of_int ack"
  shows "\<exists>S' trk' d'. handle_ack socket ack trk S = Inr (S', trk',
      rev (map (data_pkt F) [nat (d_end d + 1)..<nat (d_end d' + 1)])) \<and>
    session socket S' = Some d' \<and> d_start d' = ack \<and>
    d_send_window d' = d_send_window (fst (congestion_control d)) \<and>
    d_end d' = max (d_end d) (min 511 (ack + d_send_window d')) \<and>
    set (timers trk') =
      timers_after socket d (d_start d + 1) (nat (ack - d_start d)) (set (timers trk))"
  using handle_ack_advances [OF assms] by blast

text \<open>
  C12. An acknowledgement with any number from -1 on, those above 512 included, is memory safe in a well-formed
  session, keeps the session well-formed, leaves every other session alone, produces only DATA packets of the
  chunk, marks nothing beyond its number as acknowledged and takes no packet back to an earlier state. There is
  no such guard against a number below -1: \<open>negative_ack_breaks_session\<close> and
  \<open>negative_ack_reads_before_chunk\<close> show what it does.
\<close>

theorem any_ack_keeps_session:
  assumes "session socket S = Some d" and "sender_wf F d" and "tracker_ok trk" and "-1 \<le> ack"
  shows "\<exists>S' trk' ps d'. handle_ack socket ack trk S = Inr (S', trk', ps) \<and>
    session socket S' = Some d' \<and> sender_wf F d' \<and> tracker_ok trk' \<and>
    (\<forall>i < 512. d_state d' ! i = ACKED \<longrightarrow> d_state d ! i = ACKED \<or> int i \<le> ack) \<and>
    (\<forall>i < 512. d_state d ! i \<le> d_state d' ! i) \<and>
    (\<forall>k. k \<noteq> socket \<longrightarrow> session k S' = session k S) \<and> set ps \<subseteq> data_pkt F ` {k. k < 512}"
proof (cases "ack \<le> 512")
  case True
  with handle_ack_effect [OF assms] show ?thesis unfolding ack_effect_def by blast
next
  case False
  then have "handle_ack socket ack trk S = Inr (S, trk, [])"
    using assms(1) by (simp add: handle_ack_def layout_simps)
  with assms(1-3) show ?thesis by fastforce
qed

lemma congestion_control_by_one: "d_send_window (fst (congestion_control d)) \<le> d_send_window d + 1"
  by (cases "d_congestion_control_state d") (simp_all add: congestion_control_def Let_def)

text \<open>
  A number below -1, which \<open>int\<close> makes of an \<^verbatim>\<open>ack_num\<close> above \<^verbatim>\<open>0x7fffffff\<close>, passes the only guard. As a new
  number it becomes the start of the window, so that nothing more is sent; as a repeated one it makes
  the sender read before the chunk.
\<close>

theorem negative_ack_breaks_session:
  assumes "session socket S = Some d" and "ack < -1" and "-1 \<le> d_start d"
    and "d_prev_ack d \<noteq> word_of_int ack" and "d_send_window d < d_end d - ack"
  shows "\<exists>S' d'. handle_ack socket ack trk S = Inr (S', trk, []) \<and> session socket S' = Some d' \<and>
    d_start d' = ack \<and> d_state d' = d_state d \<and> d_end d' = d_end d \<and> \<not> sender_wf F d'"
proof -
  define d1 where "d1 = d\<lparr>d_count_ack := 0, d_prev_ack := word_of_int ack, d_start := ack\<rparr>"
  have key: "d_socket d = socket" using snd.lookup_key [OF assms(1)] .
  obtain d2 es where cc: "congestion_control d1 = (d2, es)" by fastforce
  have keep: "d_start d2 = ack" "d_end d2 = d_end d" "d_socket d2 = socket" "d_state d2 = d_state d"
    using key by (subst congestion_control_frame(1) [OF cc], simp add: d1_def)+
  have w: "d_send_window d2 \<le> d_send_window d + 1"
    using congestion_control_by_one [of d1] cc by (simp add: d1_def)
  define S2 where "S2 = (put_session d2 S)\<lparr>wlog := wlog S @ es\<rparr>"
  have S2: "session socket S2 = Some d2" using assms(1) keep(3) by (simp add: S2_def snd.store_same)
  have "send_session d2 = Inr (d2, [])" using w assms(5) keep(1,2) by (simp add: send_session_def Let_def)
  then have "send_data socket S2 = Inr (put_session d2 S2, [])" using S2 by (simp add: send_data_def)
  moreover have "ack_loop socket (d\<lparr>d_count_ack := 0, d_prev_ack := word_of_int ack\<rparr>) trk (d_start d + 1) ack =
      Inr (d\<lparr>d_count_ack := 0, d_prev_ack := word_of_int ack\<rparr>, trk, True)"
    using assms(2,3) by (subst ack_loop.simps) simp
  ultimately have "handle_ack socket ack trk S = Inr (put_session d2 S2, trk, [])"
    using assms(1,2,4) cc
    by (simp add: handle_ack_def check_return_ack_def layout_simps d1_def [symmetric] S2_def [symmetric])
  moreover have "session socket (put_session d2 S2) = Some d2" using S2 keep(3) by (simp add: snd.store_same)
  ultimately show ?thesis using keep assms(2) by (auto simp: sender_wf_def)
qed

theorem negative_ack_reads_before_chunk:
  assumes "session socket S = Some d" and "d_content d = Some F" and "ack < -1"
    and "d_prev_ack d = word_of_int ack" and "1 \<le> d_count_ack d"
  shows "handle_ack socket ack trk S = Inl Out_Of_Bounds"
  using assms by (simp add: handle_ack_def check_return_ack_def layout_simps data_packet_def get_content_by_index_def)

text \<open>
  C13. \<^verbatim>\<open>send_data\<close> sends exactly the packets that the congestion window still allows, in order, each
  with its own kilobyte, never beyond packet 511.
\<close>

theorem send_data_fills_window:
  assumes "session socket S = Some d" and "sender_wf F d" and "d_start d \<le> d_end d"
  shows "\<exists>d'. send_data socket S = Inr (put_session d' S,
      rev (map (data_pkt F) [nat (d_end d + 1)..<nat (d_end d' + 1)])) \<and>
    d_end d' = max (d_end d) (min 511 (d_start d + d_send_window d)) \<and> sender_wf F d'"
proof -
  let ?m = "window_room d"
  define d' where "d' = d\<lparr>d_end := d_end d + int ?m,
    d_state := blit (d_state d) (nat (d_end d + 1)) (replicate ?m UNACKED)\<rparr>"
  have r: "send_session d =
      Inr (d', rev (map (data_pkt F) [nat (d_end d + 1)..<nat (d_end d + 1) + ?m]))"
    using send_session_result [OF assms(2) refl] by (simp add: d'_def)
  have "-1 \<le> d_end d" using assms(2) by (simp add: sender_wf_def)
  moreover have "d_end d' = d_end d + int ?m" by (simp add: d'_def)
  ultimately have "nat (d_end d + 1) + ?m = nat (d_end d' + 1)" by linarith
  then show ?thesis
    using r assms(1) send_session_wf [OF assms(2) r] window_room_end [OF assms(2,3)]
    by (intro exI [of _ d']) (simp add: send_data_def d'_def)
qed

text \<open>
  C14. Fast retransmit: from the third acknowledgement with the same number on, the packet after it is
  sent again at once, the window shrinks to 1 with half of it as the threshold, this is logged, and
  neither the window position nor a timer changes.
\<close>

theorem third_ack_retransmits:
  assumes "session socket S = Some d" and "sender_wf F d" and "-1 \<le> ack" and "ack < 511"
    and "d_prev_ack d = word_of_int ack" and "1 \<le> d_count_ack d"
  shows "\<exists>S'. handle_ack socket ack trk S = Inr (S', trk, [data_pkt F (nat (ack + 1))]) \<and>
    session socket S' = Some (d\<lparr>d_count_ack := d_count_ack d + 1,
      d_ssthresh := d_send_window d sdiv 2, d_send_window := 1,
      d_congestion_control_state := SLOWSTART, d_increase_rate := 1\<rparr>) \<and>
    wlog S' = wlog S @ [(d_offset d, 1)]"
proof -
  let ?d = "d\<lparr>d_count_ack := d_count_ack d + 1\<rparr>"
  have dup: "check_return_ack d ack = (?d, True)" using assms(5,6) by (simp add: check_return_ack_def)
  have "data_packet ?d (ack + 1) = Inr (data_pkt F (nat (ack + 1)))"
    using assms(2-4) by (intro data_packet_ok) (auto simp: sender_wf_def)
  moreover have key: "d_socket ?d = socket" using snd.lookup_key [OF assms(1)] by simp
  ultimately show ?thesis
    using assms(1,4) dup snd.store_same [OF assms(1) key]
    by (simp add: handle_ack_def layout_simps process_packet_loss_def snd.store_same)
qed

text \<open>
  Slow start. With the window at or below the threshold it grows by one per acknowledgement and
  hands over to congestion avoidance exactly at the threshold. The code tests for equality: with the
  window above the threshold slow start never ends.
\<close>

theorem slow_start_exit:
  assumes "d_congestion_control_state d = SLOWSTART"
  shows "if d_send_window d \<le> d_ssthresh d
    then (\<forall>n. d_send_window d + int n \<le> d_ssthresh d \<longrightarrow>
        d_congestion_control_state (cc_run n d) = SLOWSTART \<and>
        d_send_window (cc_run n d) = d_send_window d + int n) \<and>
      d_congestion_control_state (cc_run (Suc (nat (d_ssthresh d - d_send_window d))) d) = CON_AVOID \<and>
      d_send_window (cc_run (Suc (nat (d_ssthresh d - d_send_window d))) d) = d_ssthresh d
    else (\<forall>n. d_congestion_control_state (cc_run n d) = SLOWSTART \<and>
        d_send_window (cc_run n d) = d_send_window d + int n)"
  using assms cc_slow_start [OF assms] by (simp add: congestion_control_def)

text \<open>
  Congestion avoidance at a window of \<open>2 ^ j\<close>: exactly \<open>2 ^ j\<close> acknowledgements increase it by one; before that only the
  binary32 accumulator moves, without rounding error.
\<close>

theorem avoidance_power_of_two:
  assumes "d_congestion_control_state d = CON_AVOID" and "d_send_window d = 2 ^ j" and "j \<le> 22"
    and "d_increase_rate d = 0"
  shows "(\<forall>n < 2 ^ j. d_send_window (cc_run n d) = 2 ^ j) \<and>
    cc_run (2 ^ j) d = d\<lparr>d_send_window := 2 ^ j + 1\<rparr>"
proof -
  obtain n :: nat where n: "2 ^ j = Suc n" by (metis power_eq_0_iff not0_implies_Suc zero_neq_numeral)
  have pre: "cc_run n d = d\<lparr>d_increase_rate := of_nat n / 2 ^ j\<rparr>"
    using cc_avoid_rate [OF assms] n by simp
  have "(2 :: int) ^ j \<le> 2 ^ 22" using assms(3) by (intro power_increasing) auto
  then have w: "f32_of_int (2 ^ j) = 2 ^ j" using f32_of_int_exact [of "2 ^ j"] by simp
  have one: "f32_div 1 (2 ^ j) = 1 / 2 ^ j"
    using f32_round_dyadic [of 1 j] assms(3) by (simp add: f32_div_def)
  have "(of_nat (Suc n) :: rat) = 2 ^ j" by (simp add: n [symmetric] del: of_nat_Suc)
  then have "of_nat n / 2 ^ j + 1 / 2 ^ j = (1 :: rat)" by (simp add: add_divide_distrib [symmetric])
  then have add: "f32_add (of_nat n / 2 ^ j) (1 / 2 ^ j) = 1"
    using f32_round_dyadic [of 1 0] by (simp add: f32_add_def)
  have "cc_run (2 ^ j) d = fst (congestion_control (cc_run n d))" by (simp add: n)
  also have "\<dots> = d\<lparr>d_send_window := 2 ^ j + 1\<rparr>"
    using assms(1,2,4) by (simp add: pre congestion_control_def Let_def w one add)
  finally show ?thesis using assms(2) cc_avoid_rate [OF assms] by simp
qed

lemma cc_avoid_run:
  assumes "d_congestion_control_state d = CON_AVOID" and "d_increase_rate d = 0"
    and "a = f32_div 1 (f32_of_int (d_send_window d))" and "\<forall>m \<le> n. accumulated a m < 1"
  shows "cc_run n d = d\<lparr>d_increase_rate := accumulated a n\<rparr>"
  using assms(4)
proof (induction n)
  case 0
  then show ?case using assms(2) by simp
next
  case (Suc n)
  then have "cc_run n d = d\<lparr>d_increase_rate := accumulated a n\<rparr>" "accumulated a (Suc n) < 1" by auto
  then show ?case using assms(1,3) by (simp add: congestion_control_def Let_def)
qed

lemma accumulated_bounds:
  assumes w: "1 \<le> w" "w \<le> (2000 :: int)" and a: "a = f32_div 1 (of_int w)"
  shows "n < nat w \<Longrightarrow> accumulated a n < 1"
    and "\<forall>m < Suc (nat w). accumulated a m < 1 \<Longrightarrow> 1 \<le> accumulated a (Suc (nat w))"
proof -
  have W: "1 \<le> (of_int w :: rat)" "(of_int w :: rat) \<le> 2000" using w of_int_le_iff [of w 2000, where ?'a = rat] by simp_all
  have small: "4 * x / 2 ^ 24 < 1 / of_int w" if "x \<le> 2001" for x :: rat
  proof -
    have "4 * x / 2 ^ 24 < 1 / (2000 :: rat)" using that by simp
    also have "\<dots> \<le> 1 / of_int w" using W by (simp add: field_simps)
    finally show ?thesis .
  qed
  show "accumulated a n < 1" if "n < nat w"
    using that
  proof (induction n rule: less_induct)
    case (less n)
    have n: "int n + 1 \<le> w" "n \<le> 4000" using less.prems w by simp_all
    then have "of_int (int n + 1) \<le> (of_int w :: rat)" by (simp only: of_int_le_iff)
    then have r: "of_nat n \<le> (of_int w - 1 :: rat)" by simp
    have "\<bar>accumulated a n - of_nat n / of_int w\<bar> \<le> 4 * of_nat n / 2 ^ 24"
      using accumulated_error [OF w a n(2)] less by simp
    moreover have "4 * of_nat n / 2 ^ 24 < 1 / (of_int w :: rat)" by (rule small) (use r W in simp)
    moreover have "of_nat n / of_int w \<le> (1 - 1 / of_int w :: rat)" using r W by (simp add: field_simps)
    ultimately show ?case by linarith
  qed
  assume m: "\<forall>m < Suc (nat w). accumulated a m < 1"
  let ?n = "Suc (nat w)"
  have r: "of_nat ?n = (of_int w + 1 :: rat)" using w by simp
  have "\<bar>accumulated a ?n - of_nat ?n / of_int w\<bar> \<le> 4 * of_nat ?n / 2 ^ 24"
    using accumulated_error [OF w a _ m] w by simp
  moreover have "4 * of_nat ?n / 2 ^ 24 < 1 / (of_int w :: rat)" by (rule small) (use r W in simp)
  moreover have "of_nat ?n / of_int w = (1 + 1 / of_int w :: rat)" unfolding r using W by (simp add: field_simps)
  ultimately show "1 \<le> accumulated a ?n" by linarith
qed


text \<open>A window of 12 packets is one of those that need one more.\<close>

theorem window_12_takes_13:
  assumes "d_congestion_control_state d = CON_AVOID" and "d_increase_rate d = 0" and "d_send_window d = 12"
  shows "d_send_window (cc_run 12 d) = 12"
proof -
  have w: "f32_of_int 12 = 12" using f32_of_int_exact [of 12] by simp
  have "accumulated (f32_div 1 12) m < 1" if "m \<le> 12" for m
    using that window_12 accumulated_bounds(1) [of 12 "f32_div 1 12" m] by (cases "m = 12") simp_all
  then show ?thesis using cc_avoid_run [OF assms(1,2) refl, of 12] assms(3) by (simp add: w)
qed

text \<open>
  After two packet losses in a row the threshold is 0, and congestion avoidance is unreachable:
  the window grows by one with every further acknowledgement, whatever their number.
\<close>

theorem double_loss_disables_avoidance:
  assumes "session socket S = Some d"
  shows "\<exists>d'. session socket (process_packet_loss socket (process_packet_loss socket S)) = Some d' \<and>
    d_ssthresh d' = 0 \<and>
    (\<forall>n. d_congestion_control_state (cc_run n d') = SLOWSTART \<and>
       d_send_window (cc_run n d') = 1 + int n)"
proof -
  define d1 where "d1 = d\<lparr>d_ssthresh := d_send_window d sdiv 2, d_send_window := 1,
    d_congestion_control_state := SLOWSTART, d_increase_rate := 1\<rparr>"
  define d2 where "d2 = d1\<lparr>d_ssthresh := 0\<rparr>"
  have key: "d_socket d = socket" using snd.lookup_key [OF assms] .
  have 1: "session socket (process_packet_loss socket S) = Some d1"
    using assms key by (simp add: process_packet_loss_def d1_def snd.store_same)
  have half: "(1 :: int) sdiv 2 = 0" by (simp add: signed_divide_int_def)
  have "session socket (process_packet_loss socket (process_packet_loss socket S)) = Some d2"
    unfolding process_packet_loss_def [of socket "process_packet_loss socket S"]
    using 1 key by (simp add: half d2_def d1_def snd.store_same)
  moreover have "cc_run n d2 = d2\<lparr>d_send_window := d_send_window d2 + int n\<rparr>" for n
    by (rule cc_slow_start) (simp_all add: d2_def d1_def)
  ultimately show ?thesis by (intro exI [of _ d2]) (simp add: d2_def d1_def)
qed

section \<open>The properties at concrete inputs\<close>

definition example_session :: data_t where
  "example_session =
     \<lparr>d_socket = 7, d_offset = 0, d_content = Some (replicate 524288 0),
      d_state = replicate 3 UNACKED @ replicate 509 UNSEND, d_send_window = 4, d_ssthresh = 64,
      d_congestion_control_state = SLOWSTART, d_start = -1, d_end = 2, d_increase_rate = 1,
      d_prev_ack = 5, d_count_ack = 0\<rparr>"

definition example_sender :: sender_st where
  "example_sender = \<lparr>snd_list = [example_session], wlog = []\<rparr>"

lemma example_wf: "sender_wf (replicate 524288 0) example_session"
  by (simp add: sender_wf_def example_session_def nth_append)

lemma example_session_at: "session 7 example_sender = Some example_session"
  by (simp add: example_sender_def get_data_by_socket_def example_session_def)

theorem new_ack_slides_window_witness:
  "\<exists>S' trk' d'. handle_ack 7 1 [] example_sender = Inr (S', trk',
      rev (map (data_pkt (replicate 524288 0)) [3..<nat (d_end d' + 1)])) \<and>
    session 7 S' = Some d' \<and> d_start d' = 1 \<and> d_send_window d' = 5 \<and> d_end d' = 6"
  using new_ack_slides_window [OF example_session_at example_wf, of "[]" 1]
  by (auto simp: tracker_ok_def example_session_def congestion_control_def)

theorem any_ack_keeps_session_witness:
  "\<exists>S' trk' ps d'. handle_ack 7 512 [] example_sender = Inr (S', trk', ps) \<and>
    session 7 S' = Some d' \<and> sender_wf (replicate 524288 0) d'"
  using any_ack_keeps_session [OF example_session_at example_wf, of "[]" 512]
  by (auto simp: tracker_ok_def)

theorem send_data_fills_window_witness:
  "\<exists>d'. send_data 7 example_sender = Inr (put_session d' example_sender,
      rev (map (data_pkt (replicate 524288 0)) [3..<nat (d_end d' + 1)])) \<and> d_end d' = 3"
  using send_data_fills_window [OF example_session_at example_wf]
  by (auto simp: example_session_def)

theorem third_ack_retransmits_witness:
  "\<exists>S'. handle_ack 7 1 [] \<lparr>snd_list = [example_session\<lparr>d_prev_ack := 1, d_count_ack := 1\<rparr>], wlog = []\<rparr> =
      Inr (S', [], [data_pkt (replicate 524288 0) 2]) \<and> wlog S' = [(0, 1)]"
proof -
  let ?d = "example_session\<lparr>d_prev_ack := 1, d_count_ack := 1\<rparr>"
  have "session 7 \<lparr>snd_list = [?d], wlog = []\<rparr> = Some ?d"
    by (simp add: get_data_by_socket_def example_session_def)
  moreover have "sender_wf (replicate 524288 0) ?d" using example_wf by simp
  ultimately show ?thesis
    using third_ack_retransmits [of 7 "\<lparr>snd_list = [?d], wlog = []\<rparr>" ?d "replicate 524288 0" 1 "[]"]
    by (auto simp: example_session_def)
qed

theorem slow_start_exit_witness:
  "d_congestion_control_state (cc_run 61 example_session) = CON_AVOID \<and>
   d_send_window (cc_run 900 (example_session\<lparr>d_ssthresh := 3\<rparr>)) = 904"
proof -
  have "d_congestion_control_state example_session = SLOWSTART"
    "d_congestion_control_state (example_session\<lparr>d_ssthresh := 3\<rparr>) = SLOWSTART"
    by (simp_all add: example_session_def)
  from slow_start_exit [OF this(1)] slow_start_exit [OF this(2)]
  show ?thesis
    by (simp_all add: example_session_def)
qed

theorem avoidance_power_of_two_witness:
  "d_send_window (cc_run 64 (example_session\<lparr>d_send_window := 64, d_increase_rate := 0,
     d_congestion_control_state := CON_AVOID\<rparr>)) = 65"
  using avoidance_power_of_two [of "example_session\<lparr>d_send_window := 64, d_increase_rate := 0,
     d_congestion_control_state := CON_AVOID\<rparr>" 6]
  by simp


theorem double_loss_disables_avoidance_witness:
  "\<exists>d'. session 7 (process_packet_loss 7 (process_packet_loss 7 example_sender)) = Some d' \<and>
    d_ssthresh d' = 0 \<and> d_send_window (cc_run 900 d') = 901"
  using double_loss_disables_avoidance [OF example_session_at] by auto

end
