(* ===== verification/Receiver.thy ===== *)
theory Receiver
  imports Packet
begin

text \<open>
  The receiver half of \<^verbatim>\<open>flow_control.c\<close>: the reassembly buffers \<^verbatim>\<open>recv_buffer_t\<close> in the global list
  \<^verbatim>\<open>recv_list\<close>, \<^verbatim>\<open>init_recv_buffer\<close>, \<^verbatim>\<open>recv_data\<close>, \<^verbatim>\<open>copy_chunk_data\<close>, \<^verbatim>\<open>release_buffer\<close> and
  \<^verbatim>\<open>is_buffer_full\<close>.

  \<^verbatim>\<open>recv_data\<close> scans for the first missing packet up to index 1023 of an array of 512 elements. What
  the reads past the end find is the parameter \<open>beyond\<close>: \<open>Some b\<close> says whether the memory there looks
  like a received packet, \<open>None\<close> that the access faults. The bytes of a fresh \<^verbatim>\<open>content\<close> array are
  uninitialised (\<open>uninit\<close>).
\<close>

section \<open>State\<close>

record data_chunk_t =
  ch_acked :: bool
  ch_recved :: bool
  ch_length :: int
  ch_content :: "byte list"

record recv_buffer_t =
  rb_expected :: int
  rb_socket :: int
  rb_offset :: int
  rb_busy :: bool
  rb_total_recv :: int
  rb_chunks :: "data_chunk_t list"

definition get_recv_by_socket :: "int \<Rightarrow> recv_buffer_t list \<Rightarrow> recv_buffer_t option" where
  "get_recv_by_socket socket l = List.find (\<lambda>b. rb_socket b = socket) l"

definition put_recv :: "recv_buffer_t \<Rightarrow> recv_buffer_t list \<Rightarrow> recv_buffer_t list" where
  "put_recv b l = upd_first (\<lambda>x. rb_socket x = rb_socket b) b l"

interpretation rcv: session_table get_recv_by_socket put_recv "(#)" rb_socket
proof -
  have eq: "get_recv_by_socket = (\<lambda>k. List.find (\<lambda>x. rb_socket x = k))"
    "put_recv = (\<lambda>v. upd_first (\<lambda>x. rb_socket x = rb_socket v) v)"
    by (simp_all add: fun_eq_iff get_recv_by_socket_def put_recv_def)
  show "session_table get_recv_by_socket put_recv (#) rb_socket"
    unfolding eq by (rule keyed_list_table)
qed

section \<open>Operations\<close>

definition fresh_buffer :: "byte list \<Rightarrow> int \<Rightarrow> int \<Rightarrow> recv_buffer_t" where
  "fresh_buffer uninit offset socket =
     \<lparr>rb_expected = 1, rb_socket = socket, rb_offset = offset, rb_busy = True, rb_total_recv = 0,
      rb_chunks = replicate 512
        \<lparr>ch_acked = False, ch_recved = False, ch_length = 0, ch_content = uninit\<rparr>\<rparr>"

definition init_recv_buffer ::
  "byte list \<Rightarrow> int \<Rightarrow> int \<Rightarrow> recv_buffer_t list \<Rightarrow> recv_buffer_t list \<times> int" where
  "init_recv_buffer uninit offset socket recv_list =
     (if \<exists>p \<in> set recv_list. (rb_socket p = socket \<or> rb_offset p = offset) \<and> rb_busy p
      then (recv_list, -1) else (fresh_buffer uninit offset socket # recv_list, 1))"

text \<open>
  Storing a packet that was not seen before: the length comes from the header of the packet, two
  signed \<^verbatim>\<open>short\<close>s, and the copy loop runs that often.
\<close>

definition payload_len :: "header_t \<Rightarrow> int" where
  "payload_len h = sint (packet_len h) - sint (header_len h)"

definition copy_bytes :: "int \<Rightarrow> byte list \<Rightarrow> byte list \<Rightarrow> byte list res" where
  "copy_bytes len src dst =
     (if len \<le> 0 then Inr dst
      else if nat len \<le> length src \<and> nat len \<le> length dst
      then Inr (blit dst 0 (take (nat len) src)) else Inl Out_Of_Bounds)"

definition store_packet :: "data_packet_t \<Rightarrow> int \<Rightarrow> recv_buffer_t \<Rightarrow> recv_buffer_t res" where
  "store_packet p seq b =
     rbind (rd (rb_chunks b) seq) (\<lambda>c.
     if ch_recved c then Inr b
     else (let len = payload_len (header p) in
       rbind (copy_bytes len (data p) (ch_content c)) (\<lambda>content'.
       rbind (wr (rb_chunks b) seq
                (c\<lparr>ch_recved := True, ch_length := len, ch_content := content'\<rparr>)) (\<lambda>chunks'.
       Inr (b\<lparr>rb_total_recv := rb_total_recv b + len, rb_chunks := chunks'\<rparr>)))))"

text \<open>
  The scan \<^verbatim>\<open>for(i = expected; i < 1024; i ++)\<close>; \<open>n\<close> counts the iterations left.
\<close>

definition recved_at :: "(nat \<Rightarrow> bool option) \<Rightarrow> data_chunk_t list \<Rightarrow> int \<Rightarrow> bool res" where
  "recved_at beyond chunks i =
     (if in_range i chunks then Inr (ch_recved (chunks ! nat i))
      else if i < 0 then Inl Out_Of_Bounds
      else case beyond (nat i) of Some r \<Rightarrow> Inr r | None \<Rightarrow> Inl Out_Of_Bounds)"

fun ack_scan :: "(nat \<Rightarrow> bool option) \<Rightarrow> data_chunk_t list \<Rightarrow> int \<Rightarrow> nat \<Rightarrow> int res" where
  "ack_scan beyond chunks i 0 = Inr i"
| "ack_scan beyond chunks i (Suc n) =
     rbind (recved_at beyond chunks i) (\<lambda>r.
     if r then ack_scan beyond chunks (i + 1) n else Inr i)"

definition mark_acked :: "int \<Rightarrow> data_chunk_t list \<Rightarrow> data_chunk_t list res" where
  "mark_acked seq chunks =
     rbind (rd chunks seq) (\<lambda>c. wr chunks seq (c\<lparr>ch_acked := True\<rparr>))"

text \<open>
  \<^verbatim>\<open>recv_data\<close> returns the new list, the acknowledgements (\<^verbatim>\<open>NULL\<close> as the empty list) and what it
  writes to \<^verbatim>\<open>*offset\<close>, \<open>None\<close> when it leaves the variable of the caller as it was.
\<close>

definition recv_session ::
  "(nat \<Rightarrow> bool option) \<Rightarrow> data_packet_t \<Rightarrow> int \<Rightarrow> recv_buffer_t
     \<Rightarrow> (recv_buffer_t \<times> data_packet_t) res" where
  "recv_session beyond p seq b =
     rbind (store_packet p seq b) (\<lambda>b1.
     rbind (init_packet [] 4 None 0) (\<lambda>packet.
     rbind (ack_scan beyond (rb_chunks b1) (rb_expected b1) (nat (1024 - rb_expected b1))) (\<lambda>i.
     rbind (if rb_expected b1 < i then mark_acked seq (rb_chunks b1) else Inr (rb_chunks b1)) (\<lambda>chunks'.
     Inr (b1\<lparr>rb_chunks := chunks', rb_expected := i\<rparr>,
          packet\<lparr>header := (header packet)\<lparr>ack_num := word_of_int i\<rparr>\<rparr>)))))"

definition recv_data ::
  "(nat \<Rightarrow> bool option) \<Rightarrow> data_packet_t \<Rightarrow> int \<Rightarrow> recv_buffer_t list
     \<Rightarrow> (recv_buffer_t list \<times> data_packet_t list \<times> int option) res" where
  "recv_data beyond p socket recv_list =
     (let seq = sint (seq_num (header p)) in
      if seq > 512 then Inr (recv_list, [], None)
      else case get_recv_by_socket socket recv_list of
             None \<Rightarrow> Inr (recv_list, [], None)
           | Some b \<Rightarrow>
               rbind (recv_session beyond p (seq - 1) b) (\<lambda>(b', ack).
               Inr (put_recv b' recv_list, [ack], Some (rb_offset b'))))"

definition copy_chunk_data ::
  "byte list \<Rightarrow> int \<Rightarrow> nat \<Rightarrow> recv_buffer_t list \<Rightarrow> (byte list \<times> int) res" where
  "copy_chunk_data buffer offset chunkpos recv_list =
     (case List.find (\<lambda>b. rb_offset b = offset) recv_list of
        None \<Rightarrow> Inr (buffer, 0)
      | Some b \<Rightarrow>
          rbind (rd (rb_chunks b) (int chunkpos)) (\<lambda>c.
          if \<not> ch_recved c then Inr (buffer, 0)
          else rbind (copy_bytes (ch_length c) (ch_content c) buffer) (\<lambda>buffer'.
               Inr (buffer', ch_length c))))"

definition release_buffer :: "int \<Rightarrow> recv_buffer_t list \<Rightarrow> recv_buffer_t list" where
  "release_buffer offset recv_list =
     map (\<lambda>b. if rb_offset b = offset then b\<lparr>rb_busy := False\<rparr> else b) recv_list"

fun is_buffer_full_loop :: "int \<Rightarrow> recv_buffer_t list \<Rightarrow> int \<Rightarrow> int" where
  "is_buffer_full_loop offset [] found = (if found = -1 then -1 else 1)"
| "is_buffer_full_loop offset (b # bs) found =
     (if rb_offset b = offset
      then (if 1024 * 512 - rb_total_recv b \<noteq> 0 then -1 else is_buffer_full_loop offset bs 1)
      else is_buffer_full_loop offset bs found)"

definition is_buffer_full :: "int \<Rightarrow> recv_buffer_t list \<Rightarrow> int" where
  "is_buffer_full offset recv_list = is_buffer_full_loop offset recv_list (-1)"

section \<open>Well-formed buffers\<close>

text \<open>
  \<open>received b\<close> are the indices of the packets stored in the buffer. A buffer is well-formed for a
  chunk \<open>F\<close> when every stored packet is the right slice of \<open>F\<close>, \<open>rb_total_recv\<close> counts their
  bytes, and everything from index 1 up to \<open>rb_expected\<close> was received.
\<close>

definition received :: "recv_buffer_t \<Rightarrow> nat set" where
  "received b = {i. i < 512 \<and> ch_recved (rb_chunks b ! i)}"

definition holds_slice :: "byte list \<Rightarrow> nat \<Rightarrow> data_chunk_t \<Rightarrow> bool" where
  "holds_slice F i c \<longleftrightarrow> length (ch_content c) = 1500 \<and>
     (ch_recved c \<longrightarrow> ch_length c = 1024 \<and> take 1024 (ch_content c) = chunk_slice F i)"

definition recv_wf :: "byte list \<Rightarrow> recv_buffer_t \<Rightarrow> bool" where
  "recv_wf F b \<longleftrightarrow>
     length (rb_chunks b) = 512 \<and> 1 \<le> rb_expected b \<and> rb_expected b \<le> 1024 \<and>
     (\<forall>i < 512. holds_slice F i (rb_chunks b ! i)) \<and>
     rb_total_recv b = 1024 * int (card (received b)) \<and>
     (\<forall>i. 1 \<le> i \<and> i < 512 \<and> int i < rb_expected b \<longrightarrow> i \<in> received b)"

text \<open>A DATA packet as it arrives: fields in host order, the \<open>k\<close>-th slice in front of the data.\<close>

definition carries :: "byte list \<Rightarrow> nat \<Rightarrow> data_packet_t \<Rightarrow> bool" where
  "carries F k p \<longleftrightarrow> sint (seq_num (header p)) = int k + 1 \<and> payload_len (header p) = 1024 \<and>
     1024 \<le> length (data p) \<and> take 1024 (data p) = chunk_slice F k"

definition readable :: "(nat \<Rightarrow> bool option) \<Rightarrow> bool" where
  "readable beyond \<longleftrightarrow> (\<forall>i. 512 \<le> i \<and> i < 1024 \<longrightarrow> beyond i \<noteq> None)"

definition ack_pkt :: "int \<Rightarrow> data_packet_t" where
  "ack_pkt a = \<lparr>header = hdr_swap (host_header 4 16 0 (htonl (word_of_int a))), data = replicate 1200 0\<rparr>"

lemma finite_received [simp]: "finite (received b)"
  by (simp add: received_def)

lemma received_subset: "received b \<subseteq> {..<512}"
  by (auto simp: received_def)

lemma fresh_buffer_wf:
  assumes "length uninit = 1500"
  shows "recv_wf F (fresh_buffer uninit offset socket)"
    and "received (fresh_buffer uninit offset socket) = {}"
proof -
  show r: "received (fresh_buffer uninit offset socket) = {}"
    by (auto simp: received_def fresh_buffer_def)
  show "recv_wf F (fresh_buffer uninit offset socket)"
    unfolding recv_wf_def r using assms by (simp add: fresh_buffer_def holds_slice_def)
qed

lemma ack_scan_result:
  assumes "length chunks = 512" "0 \<le> i" "readable beyond" "i + int n \<le> 1024"
  shows "\<exists>a. ack_scan beyond chunks i n = Inr a \<and> i \<le> a \<and> a \<le> i + int n \<and>
    (\<forall>j. i \<le> int j \<and> int j < a \<and> j < 512 \<longrightarrow> ch_recved (chunks ! j)) \<and>
    (a < 512 \<and> a < i + int n \<longrightarrow> \<not> ch_recved (chunks ! nat a))"
  using assms
proof (induction n arbitrary: i)
  case 0
  then show ?case by auto
next
  case (Suc n)
  have "\<exists>r. recved_at beyond chunks i = Inr r"
  proof (cases "i < 512")
    case False
    then have "512 \<le> nat i" "nat i < 1024" using Suc.prems by linarith+
    then have "beyond (nat i) \<noteq> None" using Suc.prems(3) by (simp add: readable_def)
    with False Suc.prems show ?thesis by (auto simp: recved_at_def in_range_def)
  qed (use Suc.prems in \<open>simp add: recved_at_def in_range_def\<close>)
  then obtain r where r: "recved_at beyond chunks i = Inr r" by blast
  have val: "i < 512 \<Longrightarrow> r = ch_recved (chunks ! nat i)"
    using r Suc.prems by (auto simp: recved_at_def in_range_def)
  show ?case
  proof (cases r)
    case True
    obtain a where a: "ack_scan beyond chunks (i + 1) n = Inr a" "i + 1 \<le> a" "a \<le> i + 1 + int n"
        "\<forall>j. i + 1 \<le> int j \<and> int j < a \<and> j < 512 \<longrightarrow> ch_recved (chunks ! j)"
        "a < 512 \<and> a < i + 1 + int n \<longrightarrow> \<not> ch_recved (chunks ! nat a)"
      using Suc.IH [of "i + 1"] Suc.prems by auto
    have "ch_recved (chunks ! j)" if "i \<le> int j" "int j < a" "j < 512" for j
      using that a(4) val True by (cases "int j = i") auto
    with a r True show ?thesis by (intro exI [of _ a]) auto
  next
    case False
    with r val show ?thesis by (intro exI [of _ i]) auto
  qed
qed

lemma received_update:
  assumes "k < 512" "length (rb_chunks b) = 512"
  shows "received (b\<lparr>rb_chunks := (rb_chunks b)[k := c]\<rparr>) =
    (if ch_recved c then insert k (received b) else received b - {k})"
  using assms by (auto simp: received_def nth_list_update split: if_splits)

lemma store_packet_ok:
  assumes wf: "recv_wf F b" and k: "k < 512" and p: "carries F k p"
  shows "\<exists>b'. store_packet p (int k) b = Inr b' \<and> recv_wf F b' \<and>
    received b' = insert k (received b) \<and> rb_socket b' = rb_socket b \<and>
    rb_offset b' = rb_offset b \<and> rb_expected b' = rb_expected b \<and> rb_busy b' = rb_busy b"
proof -
  have len: "length (rb_chunks b) = 512" using wf by (simp add: recv_wf_def)
  have rg: "in_range (int k) (rb_chunks b)" using len k by (simp add: in_range_def)
  show ?thesis
  proof (cases "ch_recved (rb_chunks b ! k)")
    case True
    then have "insert k (received b) = received b" using k by (auto simp: received_def)
    with True rg wf show ?thesis by (simp add: store_packet_def)
  next
    case False
    define c where "c = (rb_chunks b ! k)\<lparr>ch_recved := True, ch_length := 1024,
      ch_content := blit (ch_content (rb_chunks b ! k)) 0 (chunk_slice F k)\<rparr>"
    define b' where "b' = b\<lparr>rb_total_recv := rb_total_recv b + 1024,
      rb_chunks := (rb_chunks b)[k := c]\<rparr>"
    have content: "length (ch_content (rb_chunks b ! k)) = 1500"
      using wf k by (simp add: recv_wf_def holds_slice_def)
    have sl: "length (chunk_slice F k) = 1024"
      using p unfolding carries_def by (metis length_take min.absorb2)
    have st: "store_packet p (int k) b = Inr b'"
      using False rg p content
      by (simp add: store_packet_def carries_def copy_bytes_def b'_def c_def)
    have "received b' = received (b\<lparr>rb_chunks := (rb_chunks b)[k := c]\<rparr>)"
      by (simp add: received_def b'_def)
    then have rec: "received b' = insert k (received b)"
      using k len by (simp add: received_update c_def)
    have "k \<notin> received b" using False by (simp add: received_def)
    then have card: "card (received b') = card (received b) + 1" by (simp add: rec)
    have hs: "holds_slice F k c"
      using content sl take_blit_0 [of "chunk_slice F k"]
      by (simp add: holds_slice_def c_def length_blit)
    have "recv_wf F b'"
      unfolding recv_wf_def
    proof (intro conjI allI impI)
      fix i :: nat assume "i < 512"
      then show "holds_slice F i (rb_chunks b' ! i)"
        using wf hs len by (cases "i = k") (auto simp: b'_def recv_wf_def)
    next
      show "rb_total_recv b' = 1024 * int (card (received b'))"
        unfolding card using wf by (simp add: b'_def recv_wf_def)
    next
      fix i assume "1 \<le> i \<and> i < 512 \<and> int i < rb_expected b'"
      then show "i \<in> received b'" unfolding rec using wf by (simp add: b'_def recv_wf_def)
    qed (use wf in \<open>simp_all add: b'_def recv_wf_def\<close>)
    with st rec show ?thesis by (simp add: b'_def)
  qed
qed

section \<open>Receiving a packet\<close>

text \<open>
  The buffer after a packet of the chunk: it holds one more index, and the acknowledgement is the
  new \<open>rb_expected\<close>, the first index from 1 on that is missing.
\<close>

definition recv_effect :: "byte list \<Rightarrow> nat \<Rightarrow> recv_buffer_t \<Rightarrow> recv_buffer_t \<Rightarrow> bool" where
  "recv_effect F k b b' \<longleftrightarrow> recv_wf F b' \<and> received b' = insert k (received b) \<and>
     rb_socket b' = rb_socket b \<and> rb_offset b' = rb_offset b \<and> rb_busy b' = rb_busy b \<and>
     rb_expected b \<le> rb_expected b' \<and>
     (rb_expected b' < 512 \<longrightarrow> nat (rb_expected b') \<notin> received b')"

lemma mark_acked_ok:
  assumes "recv_wf F b" "k < 512"
  shows "\<exists>cs. mark_acked (int k) (rb_chunks b) = Inr cs \<and> recv_wf F (b\<lparr>rb_chunks := cs\<rparr>) \<and>
    received (b\<lparr>rb_chunks := cs\<rparr>) = received b"
proof -
  let ?cs = "(rb_chunks b)[k := (rb_chunks b ! k)\<lparr>ch_acked := True\<rparr>]"
  have len: "length (rb_chunks b) = 512" using assms by (simp add: recv_wf_def)
  have 1: "mark_acked (int k) (rb_chunks b) = Inr ?cs"
    using assms(2) len by (simp add: mark_acked_def in_range_def)
  have 2: "received (b\<lparr>rb_chunks := ?cs\<rparr>) = received b"
    using assms(2) len by (auto simp: received_def nth_list_update)
  have "holds_slice F i (?cs ! i)" if "i < 512" for i
    using that assms len by (auto simp: recv_wf_def nth_list_update holds_slice_def)
  then have "recv_wf F (b\<lparr>rb_chunks := ?cs\<rparr>)"
    using assms(1) unfolding recv_wf_def 2 by simp
  with 1 2 show ?thesis by blast
qed

lemma recv_wf_expected:
  assumes "recv_wf F b" "1 \<le> a" "a \<le> 1024"
    "\<forall>i. 1 \<le> i \<and> i < 512 \<and> int i < a \<longrightarrow> i \<in> received b"
  shows "recv_wf F (b\<lparr>rb_expected := a\<rparr>)"
proof -
  have "received (b\<lparr>rb_expected := a\<rparr>) = received b" by (simp add: received_def)
  with assms show ?thesis by (simp add: recv_wf_def)
qed

lemma recv_session_ok:
  assumes wf: "recv_wf F b" and k: "k < 512" and p: "carries F k p" and rd: "readable beyond"
  shows "\<exists>b'. recv_session beyond p (int k) b = Inr (b', ack_pkt (rb_expected b')) \<and>
    recv_effect F k b b'"
proof -
  obtain b1 where b1: "store_packet p (int k) b = Inr b1" "recv_wf F b1"
      "received b1 = insert k (received b)" "rb_socket b1 = rb_socket b"
      "rb_offset b1 = rb_offset b" "rb_expected b1 = rb_expected b" "rb_busy b1 = rb_busy b"
    using store_packet_ok [OF wf k p] by blast
  have e: "1 \<le> rb_expected b1" "rb_expected b1 \<le> 1024" "length (rb_chunks b1) = 512"
    using b1(2) by (auto simp: recv_wf_def)
  obtain a where a: "ack_scan beyond (rb_chunks b1) (rb_expected b1) (nat (1024 - rb_expected b1)) = Inr a"
      "rb_expected b1 \<le> a" "a \<le> 1024"
      "\<forall>j. rb_expected b1 \<le> int j \<and> int j < a \<and> j < 512 \<longrightarrow> ch_recved (rb_chunks b1 ! j)"
      "a < 512 \<and> a < 1024 \<longrightarrow> \<not> ch_recved (rb_chunks b1 ! nat a)"
    using ack_scan_result [OF e(3) _ rd, of "rb_expected b1" "nat (1024 - rb_expected b1)"] e by auto
  obtain cs where cs: "mark_acked (int k) (rb_chunks b1) = Inr cs"
      "recv_wf F (b1\<lparr>rb_chunks := cs\<rparr>)" "received (b1\<lparr>rb_chunks := cs\<rparr>) = received b1"
    using mark_acked_ok [OF b1(2) k] by blast
  define cs' where "cs' = (if rb_expected b1 < a then cs else rb_chunks b1)"
  have cs': "recv_wf F (b1\<lparr>rb_chunks := cs'\<rparr>)" "received (b1\<lparr>rb_chunks := cs'\<rparr>) = received b1"
    using cs b1(2) by (simp_all add: cs'_def)
  define b' where "b' = b1\<lparr>rb_chunks := cs', rb_expected := a\<rparr>"
  have "i \<in> received b1" if "1 \<le> i" "i < 512" "int i < a" for i
    using that a(4) b1(2) by (cases "int i < rb_expected b1") (auto simp: recv_wf_def received_def)
  then have "recv_wf F b'"
    using recv_wf_expected [OF cs'(1), of a] e a(2,3) cs'(2) by (simp add: b'_def)
  moreover have rec: "received b' = received b1"
    using cs'(2) by (simp add: b'_def received_def)
  moreover have "a < 512 \<longrightarrow> nat a \<notin> received b'"
    using a(5) unfolding rec by (simp add: received_def)
  ultimately have "recv_effect F k b b'"
    using b1 a(2) by (simp add: recv_effect_def b'_def)
  moreover have "recv_session beyond p (int k) b = Inr (b', ack_pkt (rb_expected b'))"
    using b1(1) a(1) cs(1)
    by (simp add: recv_session_def init_packet_no_data ack_pkt_def b'_def cs'_def)
  ultimately show ?thesis by blast
qed

lemma recv_data_ok:
  assumes b: "get_recv_by_socket socket l = Some b" and wf: "recv_wf F b" and k: "k < 512"
    and p: "carries F k p" and rd: "readable beyond"
  shows "\<exists>b'. recv_data beyond p socket l =
      Inr (put_recv b' l, [ack_pkt (rb_expected b')], Some (rb_offset b)) \<and>
    get_recv_by_socket socket (put_recv b' l) = Some b' \<and> recv_effect F k b b'"
proof -
  obtain b' where b': "recv_session beyond p (int k) b = Inr (b', ack_pkt (rb_expected b'))"
      "recv_effect F k b b'"
    using recv_session_ok [OF wf k p rd] by blast
  have "rb_socket b' = socket"
    using b'(2) rcv.lookup_key [OF b] by (simp add: recv_effect_def)
  then have "get_recv_by_socket socket (put_recv b' l) = Some b'"
    using b by (simp add: rcv.store_same)
  moreover have "recv_data beyond p socket l =
      Inr (put_recv b' l, [ack_pkt (rb_expected b')], Some (rb_offset b))"
    using b p k b' by (simp add: recv_data_def carries_def recv_effect_def)
  ultimately show ?thesis using b'(2) by blast
qed

section \<open>Completion\<close>

lemma is_buffer_full_loop_eq:
  "is_buffer_full_loop offset l r =
     (if (\<forall>b \<in> set l. rb_offset b = offset \<longrightarrow> rb_total_recv b = 524288) \<and>
         (r \<noteq> -1 \<or> (\<exists>b \<in> set l. rb_offset b = offset)) then 1 else -1)"
  by (induction l arbitrary: r) auto

lemma is_buffer_full_iff:
  "is_buffer_full offset l = 1 \<longleftrightarrow>
     (\<exists>b \<in> set l. rb_offset b = offset) \<and>
     (\<forall>b \<in> set l. rb_offset b = offset \<longrightarrow> rb_total_recv b = 524288)"
  by (auto simp: is_buffer_full_def is_buffer_full_loop_eq)

lemma full_received:
  assumes "recv_wf F b" "rb_total_recv b = 524288"
  shows "received b = {..<512::nat}"
proof (rule card_subset_eq)
  show "received b \<subseteq> {..<512::nat}" by (rule received_subset)
  show "card (received b) = card {..<512::nat}" using assms by (simp add: recv_wf_def)
qed simp

lemma received_full: "recv_wf F b \<Longrightarrow> received b = {..<512} \<Longrightarrow> rb_total_recv b = 524288"
  by (simp add: recv_wf_def)

lemma copy_chunk_data_ok:
  assumes "List.find (\<lambda>b. rb_offset b = offset) l = Some b" "recv_wf F b" "i \<in> received b"
    "1024 \<le> length buffer"
  shows "\<exists>buffer'. copy_chunk_data buffer offset i l = Inr (buffer', 1024) \<and>
    length buffer' = length buffer \<and> take 1024 buffer' = chunk_slice F i"
proof -
  let ?c = "rb_chunks b ! i"
  have i: "i < 512" "ch_recved ?c" using assms(3) by (auto simp: received_def)
  have c: "ch_length ?c = 1024" "length (ch_content ?c) = 1500" "take 1024 (ch_content ?c) = chunk_slice F i"
    using assms(2) i by (auto simp: recv_wf_def holds_slice_def)
  let ?buf = "blit buffer 0 (take 1024 (ch_content ?c))"
  have "copy_chunk_data buffer offset i l = Inr (?buf, 1024)"
    using assms(1,2,4) i c by (simp add: copy_chunk_data_def in_range_def recv_wf_def copy_bytes_def)
  moreover have "length ?buf = length buffer"
    using assms(4) c(2) length_blit [of 0 "take 1024 (ch_content ?c)" buffer] by simp
  moreover have "take 1024 ?buf = chunk_slice F i"
  proof -
    have "length (take 1024 (ch_content ?c)) = 1024" using c(2) by simp
    then show ?thesis using take_blit_0 [of "take 1024 (ch_content ?c)" buffer] c(3) by metis
  qed
  ultimately show ?thesis by blast
qed

section \<open>Which buffers exist\<close>

text \<open>No operation on a packet changes which peer and which chunk a buffer belongs to.\<close>

definition buffer_keys :: "recv_buffer_t list \<Rightarrow> (int \<times> int) list" where
  "buffer_keys l = map (\<lambda>b. (rb_socket b, rb_offset b)) l"

lemma recv_session_keys:
  "recv_session beyond p seq b = Inr (b', a) \<Longrightarrow>
     rb_socket b' = rb_socket b \<and> rb_offset b' = rb_offset b"
  by (auto simp: recv_session_def store_packet_def Let_def res_simps split: if_splits)

lemma map_upd_first_same:
  "(\<And>x. P x \<Longrightarrow> List.find P l = Some x \<Longrightarrow> f v = f x) \<Longrightarrow> map f (upd_first P v l) = map f l"
  by (induction l) auto

lemma recv_data_keys:
  assumes "recv_data beyond p socket l = Inr (l', acks, off)"
  shows "buffer_keys l' = buffer_keys l"
proof (cases "sint (seq_num (header p)) > 512 \<or> get_recv_by_socket socket l = None")
  case True
  with assms show ?thesis by (auto simp: recv_data_def Let_def split: if_splits)
next
  case False
  then obtain b where b: "get_recv_by_socket socket l = Some b" by auto
  obtain b' a where r: "recv_session beyond p (sint (seq_num (header p)) - 1) b = Inr (b', a)"
      "l' = put_recv b' l"
    using assms b False by (auto simp: recv_data_def Let_def res_simps)
  have k: "rb_socket b' = socket" "rb_offset b' = rb_offset b"
    using recv_session_keys [OF r(1)] rcv.lookup_key [OF b] by auto
  show ?thesis
    unfolding r(2) buffer_keys_def put_recv_def
    using b k by (intro map_upd_first_same) (simp add: get_recv_by_socket_def)
qed

lemma is_buffer_full_keys:
  assumes "List.find (\<lambda>b. rb_offset b = off) l = Some b"
    "length (filter (\<lambda>k. snd k = off) (buffer_keys l)) \<le> 1"
  shows "is_buffer_full off l = 1 \<longleftrightarrow> rb_total_recv b = 524288"
proof -
  have one: "(\<forall>x \<in> set l. rb_offset x = off \<longrightarrow> x = b) \<and> b \<in> set l \<and> rb_offset b = off"
    using assms
  proof (induction l)
    case (Cons a l)
    show ?case
    proof (cases "rb_offset a = off")
      case True
      with Cons.prems(2) have "filter (\<lambda>k. snd k = off) (buffer_keys l) = []"
        by (simp add: buffer_keys_def filter_map)
      then have "\<forall>x \<in> set l. rb_offset x \<noteq> off"
        by (auto simp: buffer_keys_def filter_empty_conv)
      with True Cons.prems(1) show ?thesis by auto
    next
      case False
      with Cons show ?thesis by (auto simp: buffer_keys_def)
    qed
  qed simp
  then show ?thesis unfolding is_buffer_full_iff by auto
qed

section \<open>Properties of the receiver\<close>

text \<open>
  C15. A DATA packet of the chunk is stored exactly once and answered with one acknowledgement, the
  first index from 1 on that is still missing (beyond the last one, what the code reads there). Whether packet 0
  has arrived does not matter for it. The comment in the code says that the number sent is the last received index,
  one less; the line that did so is commented out.
\<close>

theorem recv_data_acks_first_missing:
  assumes "get_recv_by_socket socket l = Some b" and "recv_wf F b" and "k < 512"
    and "carries F k p" and "readable beyond"
  shows "\<exists>b' a. recv_data beyond p socket l = Inr (put_recv b' l, [ack_pkt a], Some (rb_offset b)) \<and>
    get_recv_by_socket socket (put_recv b' l) = Some b' \<and> recv_wf F b' \<and>
    received b' = insert k (received b) \<and> 1 \<le> a \<and>
    (\<forall>i. 1 \<le> i \<and> i < 512 \<and> int i < a \<longrightarrow> i \<in> received b') \<and> (a < 512 \<longrightarrow> nat a \<notin> received b')"
proof -
  obtain b' where b': "recv_data beyond p socket l =
        Inr (put_recv b' l, [ack_pkt (rb_expected b')], Some (rb_offset b))"
      "get_recv_by_socket socket (put_recv b' l) = Some b'" "recv_effect F k b b'"
    using recv_data_ok [OF assms] by blast
  then show ?thesis
    by (intro exI [of _ b'] exI [of _ "rb_expected b'"]) (simp only: recv_effect_def recv_wf_def simp_thms, metis)
qed

text \<open>
  The first packet of a chunk is taken for granted: a receiver that lacks packet 0 and gets packet
  1 sends an acknowledgement that covers packet 0.
\<close>

theorem first_packet_unchecked:
  assumes "get_recv_by_socket socket l = Some b" and "recv_wf F b" and "0 \<notin> received b"
    and "carries F 1 p" and "readable beyond"
  shows "\<exists>b' a. recv_data beyond p socket l = Inr (put_recv b' l, [ack_pkt a], Some (rb_offset b)) \<and>
    2 \<le> a \<and> 0 \<notin> received b'"
proof -
  obtain b' where b': "recv_data beyond p socket l =
        Inr (put_recv b' l, [ack_pkt (rb_expected b')], Some (rb_offset b))" "recv_effect F 1 b b'"
    using recv_data_ok [OF assms(1,2) _ assms(4,5)] by auto
  have "rb_expected b' \<noteq> 1" "1 \<le> rb_expected b'"
    using b'(2) by (auto simp: recv_effect_def recv_wf_def)
  with b' assms(3) show ?thesis
    by (intro exI [of _ b'] exI [of _ "rb_expected b'"]) (auto simp: recv_effect_def)
qed









lemma ack_scan_exact:
  assumes "i \<le> a" "a < i + int n" "\<And>j. i \<le> j \<Longrightarrow> j < a \<Longrightarrow> recved_at beyond chunks j = Inr True"
  shows "ack_scan beyond chunks i n =
    rbind (recved_at beyond chunks a) (\<lambda>r. if r then ack_scan beyond chunks (a + 1) (n - nat (a - i) - 1)
      else Inr a)"
  using assms
proof (induction n arbitrary: i)
  case (Suc n)
  show ?case
  proof (cases "i = a")
    case False
    with Suc.prems have lt: "i < a" by simp
    then have eq: "Suc n - nat (a - i) - 1 = n - nat (a - (i + 1)) - 1" by (simp add: Suc_nat_eq_nat_zadd1 nat_diff_distrib)
    have "recved_at beyond chunks i = Inr True" using Suc.prems(3) lt by simp
    then show ?thesis
      using Suc.IH [of "i + 1"] Suc.prems lt unfolding eq by simp
  next
    case True
    then show ?thesis by (cases "recved_at beyond chunks a") auto
  qed
qed simp

text \<open>
  C35. The scan for the next missing packet runs to index 1023 of an array of 512: once all packets from
  1 on are there, the acknowledgement is 512 plus the number of flags that the memory behind the
  array happens to show, and an unreadable neighbour is a fault.
\<close>

theorem complete_buffer_overread:
  assumes "recv_wf F b" and "rb_expected b \<le> 512" and "k < 512" and "carries F k p"
    and "insert k (received b) \<supseteq> {1..<512}" and "n < 512" and "\<forall>i < n. beyond (512 + i) = Some True"
  shows "case beyond (512 + n) of
      None \<Rightarrow> recv_session beyond p (int k) b = Inl Out_Of_Bounds
    | Some r \<Rightarrow> r \<or> (\<exists>b'. recv_session beyond p (int k) b = Inr (b', ack_pkt (512 + int n)))"
proof -
  obtain b1 where b1: "store_packet p (int k) b = Inr b1" "recv_wf F b1"
      "received b1 = insert k (received b)" "rb_expected b1 = rb_expected b"
    using store_packet_ok [OF assms(1,3,4)] by blast
  let ?e = "rb_expected b1"
  have e: "1 \<le> ?e" "?e \<le> 512" "length (rb_chunks b1) = 512"
    using b1(2) assms(2) b1(4) by (auto simp: recv_wf_def)
  have at: "recved_at beyond (rb_chunks b1) j = Inr True" if "?e \<le> j" "j < 512 + int n" for j
  proof (cases "j < 512")
    case True
    then have "nat j \<in> {1..<512}" using that e by auto
    then have "nat j \<in> received b1" using assms(5) b1(3) by blast
    with True that e show ?thesis by (simp add: recved_at_def in_range_def received_def)
  next
    case False
    define i where "i = nat j - 512"
    have "nat j = 512 + i" "i < n" using that(2) False by (auto simp: i_def)
    with False e assms(7) show ?thesis by (simp add: recved_at_def in_range_def)
  qed
  have scan: "ack_scan beyond (rb_chunks b1) ?e (nat (1024 - ?e)) =
      rbind (recved_at beyond (rb_chunks b1) (512 + int n)) (\<lambda>r. if r
        then ack_scan beyond (rb_chunks b1) (512 + int n + 1) (nat (1024 - ?e) - nat (512 + int n - ?e) - 1)
        else Inr (512 + int n))"
    using e assms(6) at by (intro ack_scan_exact) auto
  have val: "recved_at beyond (rb_chunks b1) (512 + int n) =
      (case beyond (512 + n) of Some r \<Rightarrow> Inr r | None \<Rightarrow> Inl Out_Of_Bounds)"
    using e(3) by (simp add: recved_at_def in_range_def nat_add_distrib)
  have rg: "in_range (int k) (rb_chunks b1)" using e(3) assms(3) by (simp add: in_range_def)
  show ?thesis
    using b1(1) scan val rg e(2)
    by (auto simp: recv_session_def init_packet_no_data mark_acked_def ack_pkt_def split: option.split)
qed

section \<open>The properties at concrete inputs\<close>

text \<open>A chunk of zeros, its packets, an empty buffer and one that lacks only packet 5.\<close>

definition example_data :: "int \<Rightarrow> nat \<Rightarrow> data_packet_t" where
  "example_data seq len =
     \<lparr>header = host_header 3 len (word_of_int seq) 0, data = replicate 1484 0\<rparr>"

definition example_buffer :: recv_buffer_t where
  "example_buffer = fresh_buffer (replicate 1500 0) 0 7"

definition nearly_full_buffer :: recv_buffer_t where
  "nearly_full_buffer =
     \<lparr>rb_expected = 5, rb_socket = 7, rb_offset = 0, rb_busy = True, rb_total_recv = 523264,
      rb_chunks = (replicate 512 \<lparr>ch_acked = True, ch_recved = True, ch_length = 1024,
          ch_content = replicate 1500 0\<rparr>)
        [5 := \<lparr>ch_acked = False, ch_recved = False, ch_length = 0, ch_content = replicate 1500 0\<rparr>]\<rparr>"

lemma example_buffer_wf:
  "recv_wf (replicate 524288 0) example_buffer" "received example_buffer = {}"
  "get_recv_by_socket 7 [example_buffer] = Some example_buffer"
proof -
  have "rb_socket example_buffer = 7" by (simp add: example_buffer_def fresh_buffer_def)
  then show "get_recv_by_socket 7 [example_buffer] = Some example_buffer"
    by (simp add: get_recv_by_socket_def)
qed (simp_all add: example_buffer_def fresh_buffer_wf)

lemma nearly_full_received: "received nearly_full_buffer = {..<512} - {5}"
  by (auto simp: received_def nearly_full_buffer_def nth_list_update split: if_splits)

lemma nearly_full_wf: "recv_wf (replicate 524288 0) nearly_full_buffer"
  unfolding recv_wf_def nearly_full_received
  by (auto simp: nearly_full_buffer_def holds_slice_def nth_list_update chunk_slice_def min_def)

lemma example_data_carries:
  assumes "k < 512"
  shows "carries (replicate 524288 0) k (example_data (int k + 1) 1040)"
proof -
  have "sint (word_of_int (int k + 1) :: 32 word) = int k + 1"
    using assms by (intro sint_small) auto
  with assms show ?thesis
    by (simp add: carries_def example_data_def payload_len_def chunk_slice_def min_def)
qed

lemma all_unset_readable: "readable (\<lambda>_. Some False)"
  by (simp add: readable_def)

theorem recv_data_acks_first_missing_witness:
  "\<exists>b'. recv_data (\<lambda>_. Some False) (example_data 1 1040) 7 [example_buffer] =
      Inr (put_recv b' [example_buffer], [ack_pkt 1], Some 0) \<and> received b' = {0}"
proof -
  obtain b' a where r: "recv_data (\<lambda>_. Some False) (example_data 1 1040) 7 [example_buffer] =
      Inr (put_recv b' [example_buffer], [ack_pkt a], Some 0)" "received b' = {0}" "1 \<le> a"
      "\<forall>i. 1 \<le> i \<and> i < 512 \<and> int i < a \<longrightarrow> i \<in> received b'"
    using recv_data_acks_first_missing [OF example_buffer_wf(3,1) _ example_data_carries all_unset_readable, of 0]
      example_buffer_wf(2)
    by (auto simp: example_buffer_def fresh_buffer_def)
  have "a = 1" using r(2,3) r(4) [rule_format, of 1] by (cases "1 < a") auto
  with r(1,2) show ?thesis by blast
qed

theorem first_packet_unchecked_witness:
  "\<exists>b' a. recv_data (\<lambda>_. Some False) (example_data 2 1040) 7 [example_buffer] =
      Inr (put_recv b' [example_buffer], [ack_pkt a], Some 0) \<and> 2 \<le> a \<and> 0 \<notin> received b'"
  using first_packet_unchecked [OF example_buffer_wf(3,1) _ _ all_unset_readable, of "example_data 2 1040"]
    example_data_carries [of 1] example_buffer_wf(2)
  by (auto simp: example_buffer_def fresh_buffer_def)


theorem complete_buffer_overread_witness:
  "\<exists>b'. recv_session (\<lambda>i. Some (i < 514)) (example_data 6 1040) 5 nearly_full_buffer =
     Inr (b', ack_pkt 514)"
proof -
  have "rb_expected nearly_full_buffer \<le> 512" by (simp add: nearly_full_buffer_def)
  moreover have "{1..<512} \<subseteq> insert 5 (received nearly_full_buffer)"
    by (auto simp: nearly_full_received)
  moreover have "carries (replicate 524288 0) 5 (example_data 6 1040)"
    using example_data_carries [of 5] by simp
  ultimately show ?thesis
    using complete_buffer_overread [OF nearly_full_wf, of 5 "example_data 6 1040" 2 "\<lambda>i. Some (i < 514)"]
    by simp
qed

end
