(* ===== verification/FileManager.thy ===== *)
theory FileManager
  imports Receiver Tracker
begin

text \<open>
  The file manager of \<^verbatim>\<open>packet.c\<close>: the global \<^verbatim>\<open>file_manager\<close> that records which chunks a download
  needs, and \<^verbatim>\<open>check_file_manager\<close>, which writes the file once every chunk is complete.

  \<^verbatim>\<open>check_file_manager\<close> frees the arrays of the file manager but keeps their pointers and the chunk
  count; an array that was never allocated or was freed is \<open>None\<close>. The file is the list of the bytes
  written. Whether \<^verbatim>\<open>fopen\<close> succeeds is a parameter; the code does not check its result.
\<close>

record chunk_owner_t =
  co_offset :: int
  co_address :: sockaddr_in

record file_manager_t =
  fm_init :: bool
  fm_chunk_count :: int
  fm_offset :: "int list option"
  fm_top :: int
  fm_timer :: "int list option"
  fm_already_used :: "chunk_owner_t list option"

text \<open>\<open>freed l\<close>: a list pointer after \<^verbatim>\<open>free\<close>; freeing \<^verbatim>\<open>NULL\<close> does nothing.\<close>

definition freed :: "'a list option \<Rightarrow> 'a list option" where
  "freed l = (if l = Some [] then Some [] else None)"

definition closed_manager :: "file_manager_t \<Rightarrow> file_manager_t" where
  "closed_manager fm = fm\<lparr>fm_init := False, fm_timer := None, fm_offset := None,
     fm_already_used := freed (fm_already_used fm)\<rparr>"

fun release_full :: "int list \<Rightarrow> recv_buffer_t list \<Rightarrow> recv_buffer_t list \<times> bool" where
  "release_full [] l = (l, True)"
| "release_full (offset # offsets) l =
     (if is_buffer_full offset l = 1 then release_full offsets (release_buffer offset l)
      else (l, False))"

fun write_packets :: "int \<Rightarrow> recv_buffer_t list \<Rightarrow> nat list \<Rightarrow> byte list \<Rightarrow> byte list res" where
  "write_packets offset l [] temp = Inr []"
| "write_packets offset l (j # js) temp =
     rbind (copy_chunk_data temp offset j l) (\<lambda>(temp', len).
     if len < 0 \<or> int (length temp') < len then Inl Out_Of_Bounds
     else rbind (write_packets offset l js temp') (\<lambda>rest.
          Inr (take (nat len) temp' @ rest)))"

definition packet_indices :: "nat list" where "packet_indices = [0..<512]"

fun write_chunks :: "int list \<Rightarrow> recv_buffer_t list \<Rightarrow> byte list res" where
  "write_chunks [] l = Inr []"
| "write_chunks (offset # offsets) l =
     rbind (write_packets offset l packet_indices (replicate 1500 0)) (\<lambda>chunk.
     rbind (write_chunks offsets l) (\<lambda>rest. Inr (chunk @ rest)))"

definition manager_offsets :: "file_manager_t \<Rightarrow> int list res" where
  "manager_offsets fm =
     (if fm_chunk_count fm \<le> 0 then Inr []
      else case fm_offset fm of
        None \<Rightarrow> Inl Dangling
      | Some offsets \<Rightarrow>
          if int (length offsets) < fm_chunk_count fm then Inl Out_Of_Bounds
          else Inr (take (nat (fm_chunk_count fm)) offsets))"

definition check_file_manager ::
  "bool \<Rightarrow> file_manager_t \<Rightarrow> recv_buffer_t list
     \<Rightarrow> (file_manager_t \<times> recv_buffer_t list \<times> byte list option \<times> int) res" where
  "check_file_manager fopen_ok fm l =
     (if \<not> fm_init fm then Inr (fm, l, None, -2)
      else rbind (manager_offsets fm) (\<lambda>offsets.
        case release_full offsets l of
          (l', False) \<Rightarrow> Inr (fm, l', None, -1)
        | (l', True) \<Rightarrow>
            if \<not> fopen_ok then Inl Null_Deref
            else rbind (write_chunks offsets l') (\<lambda>out.
              Inr (closed_manager fm, l', Some out, 1))))"

section \<open>Releasing buffers\<close>

lemma is_buffer_full_release [simp]: "is_buffer_full o2 (release_buffer o1 l) = is_buffer_full o2 l"
proof -
  have "is_buffer_full_loop o2 (release_buffer o1 l) r = is_buffer_full_loop o2 l r" for r
    by (induction l arbitrary: r) (auto simp: release_buffer_def)
  then show ?thesis by (simp add: is_buffer_full_def)
qed

lemma copy_chunk_data_release [simp]:
  "copy_chunk_data buf o2 j (release_buffer o1 l) = copy_chunk_data buf o2 j l"
proof -
  have "List.find (\<lambda>b. rb_offset b = o2) (release_buffer o1 l) =
      map_option (\<lambda>b. if rb_offset b = o1 then b\<lparr>rb_busy := False\<rparr> else b)
        (List.find (\<lambda>b. rb_offset b = o2) l)"
    by (induction l) (auto simp: release_buffer_def)
  then show ?thesis by (auto simp: copy_chunk_data_def split: option.splits)
qed

lemma write_packets_release [simp]:
  "write_packets o2 (release_buffer o1 l) js temp = write_packets o2 l js temp"
  by (induction js arbitrary: temp) (simp_all cong: if_cong)

lemma write_chunks_release [simp]:
  "write_chunks offs (release_buffer o1 l) = write_chunks offs l"
  by (induction offs) simp_all

lemma release_full_result:
  "release_full offs l = (l', b) \<Longrightarrow>
     b = (\<forall>off \<in> set offs. is_buffer_full off l = 1) \<and> write_chunks os l' = write_chunks os l"
proof (induction offs arbitrary: l)
  case (Cons off offs)
  then show ?case using Cons.IH [of "release_buffer off l"] by (auto split: if_splits)
qed simp

section \<open>The written file\<close>

definition holds_chunk :: "recv_buffer_t list \<Rightarrow> int \<Rightarrow> byte list \<Rightarrow> bool" where
  "holds_chunk l off F \<longleftrightarrow> length F = 524288 \<and>
     (\<exists>b. List.find (\<lambda>b. rb_offset b = off) l = Some b \<and> recv_wf F b)"

lemma holds_chunk_full:
  assumes "holds_chunk l off F" "is_buffer_full off l = 1"
  shows "\<exists>b. List.find (\<lambda>b. rb_offset b = off) l = Some b \<and> recv_wf F b \<and> received b = {..<512}"
proof -
  obtain b where b: "List.find (\<lambda>b. rb_offset b = off) l = Some b" "recv_wf F b"
    using assms(1) by (auto simp: holds_chunk_def)
  with assms(2) have "rb_total_recv b = 524288"
    using find_Some_in_set [OF b(1)] by (auto simp: is_buffer_full_iff)
  with b show ?thesis using full_received by blast
qed

lemma write_packets_slices:
  assumes "List.find (\<lambda>b. rb_offset b = off) l = Some b" "recv_wf F b" "set js \<subseteq> received b"
    "length temp = 1500"
  shows "write_packets off l js temp = Inr (concat (map (chunk_slice F) js))"
  using assms(3,4)
proof (induction js arbitrary: temp)
  case Nil
  then show ?case by simp
next
  case (Cons j js)
  have j: "j \<in> received b" "1024 \<le> length temp" using Cons.prems by simp_all
  obtain temp' where t: "copy_chunk_data temp off j l = Inr (temp', 1024)"
      "length temp' = length temp" "take 1024 temp' = chunk_slice F j"
    using copy_chunk_data_ok [OF assms(1,2) j] by blast
  have "write_packets off l js temp' = Inr (concat (map (chunk_slice F) js))"
    using Cons.prems t(2) by (intro Cons.IH) simp_all
  then show ?case using t Cons.prems(2) by simp
qed

lemma write_chunks_complete:
  assumes "list_all2 (holds_chunk l) offs Fs" "\<forall>off \<in> set offs. is_buffer_full off l = 1"
  shows "write_chunks offs l = Inr (concat Fs)"
  using assms
proof (induction offs Fs rule: list_all2_induct)
  case Nil
  then show ?case by simp
next
  case (Cons off offs F Fs)
  obtain b where b: "List.find (\<lambda>b. rb_offset b = off) l = Some b" "recv_wf F b" "received b = {..<512}"
    using holds_chunk_full [OF Cons.hyps(1)] Cons.prems by auto
  have "set packet_indices \<subseteq> received b" unfolding b(3) packet_indices_def by auto
  moreover have "concat (map (chunk_slice F) packet_indices) = F"
    unfolding packet_indices_def using Cons.hyps(1) by (intro concat_slices) (simp add: holds_chunk_def)
  ultimately have "write_packets off l packet_indices (replicate 1500 0) = Inr F"
    using write_packets_slices [OF b(1,2), of packet_indices "replicate 1500 0"] by simp
  with Cons show ?case by simp
qed

theorem check_file_manager_result:
  assumes "fm_init fm" "manager_offsets fm = Inr offs" "list_all2 (holds_chunk l) offs Fs"
  shows "\<exists>l'. check_file_manager True fm l =
    (if \<forall>off \<in> set offs. is_buffer_full off l = 1
     then Inr (closed_manager fm,
               l', Some (concat Fs), 1)
     else Inr (fm, l', None, -1))"
proof -
  obtain l' b where r: "release_full offs l = (l', b)" by fastforce
  note b = release_full_result [OF r]
  show ?thesis
  proof (cases b)
    case True
    with assms r b write_chunks_complete [OF assms(3)] show ?thesis
      by (simp add: check_file_manager_def)
  next
    case False
    then have "\<not> (\<forall>off \<in> set offs. is_buffer_full off l = 1)" "release_full offs l = (l', False)"
      using b r by simp_all
    with assms show ?thesis by (simp add: check_file_manager_def)
  qed
qed

section \<open>Properties of the written file\<close>

text \<open>
  C24. \<^verbatim>\<open>check_file_manager\<close> reports success exactly when every chunk of the download is complete; then
  the file is the concatenation of the chunks in the order of the chunk list, otherwise nothing is
  written and the file manager stays as it is.
\<close>

theorem check_file_manager_writes_all:
  assumes "fm_init fm" and "manager_offsets fm = Inr offs" and "list_all2 (holds_chunk l) offs Fs"
  shows "\<exists>l'. check_file_manager True fm l =
    (if \<forall>off \<in> set offs. is_buffer_full off l = 1
     then Inr (closed_manager fm,
               l', Some (concat Fs), 1)
     else Inr (fm, l', None, -1))"
  using check_file_manager_result [OF assms] .

lemma completed_manager:
  assumes "check_file_manager ok fm l = Inr (fm', l', Some out, r)"
  shows "fm' = closed_manager fm \<and>
    r = 1 \<and> fm_init fm"
proof -
  have i: "fm_init fm" using assms by (auto simp: check_file_manager_def split: if_splits)
  then obtain offs where o: "manager_offsets fm = Inr offs"
    using assms by (auto simp: check_file_manager_def rbind_def split: sum.splits)
  obtain l1 b where r: "release_full offs l = (l1, b)" by fastforce
  show ?thesis
    using assms i o r by (cases b) (auto simp: check_file_manager_def res_simps split: if_splits)
qed

definition full_buffer :: "int \<Rightarrow> byte \<Rightarrow> recv_buffer_t" where
  "full_buffer off v =
     \<lparr>rb_expected = 512, rb_socket = off, rb_offset = off, rb_busy = True, rb_total_recv = 524288,
      rb_chunks = replicate 512 \<lparr>ch_acked = True, ch_recved = True, ch_length = 1024,
          ch_content = replicate 1500 v\<rparr>\<rparr>"

lemma full_buffer_received: "received (full_buffer off v) = {..<512}"
  by (auto simp: received_def full_buffer_def)

lemma full_buffer_wf: "recv_wf (replicate 524288 v) (full_buffer off v)"
  unfolding recv_wf_def full_buffer_received
  by (auto simp: full_buffer_def holds_slice_def chunk_slice_def min_def)

definition example_manager :: file_manager_t where
  "example_manager = \<lparr>fm_init = True, fm_chunk_count = 2, fm_offset = Some [4, 3], fm_top = 2,
     fm_timer = Some [0, 0], fm_already_used = Some []\<rparr>"

theorem check_file_manager_writes_all_witness:
  "\<exists>l'. check_file_manager True example_manager [full_buffer 3 7, full_buffer 4 9] =
     Inr (closed_manager example_manager,
       l', Some (concat [replicate 524288 9, replicate 524288 7]), 1)"
proof -
  let ?l = "[full_buffer 3 7, full_buffer 4 9]"
  have k: "rb_offset (full_buffer off v) = off" "rb_total_recv (full_buffer off v) = 524288" for off v
    by (simp_all add: full_buffer_def)
  have "list_all2 (holds_chunk ?l) [4, 3] [replicate 524288 9, replicate 524288 7]"
    using full_buffer_wf by (simp add: holds_chunk_def k)
  moreover have "\<forall>off \<in> set [4, 3]. is_buffer_full off ?l = 1" by (simp add: is_buffer_full_iff k)
  moreover have "manager_offsets example_manager = Inr [4, 3]" "fm_init example_manager"
    by (simp_all add: manager_offsets_def example_manager_def)
  ultimately show ?thesis
    using check_file_manager_writes_all [of example_manager "[4, 3]" ?l
        "[replicate 524288 9, replicate 524288 7]"] by simp
qed


end
