(* ===== verification/Handlers.thy ===== *)
theory Handlers
  imports ChunkFiles Sender FileManager
begin

text \<open>
  The packet handlers of \<^verbatim>\<open>packet.c\<close>: \<^verbatim>\<open>handle_packet\<close> with its five branches, \<^verbatim>\<open>generate_WHOHAS\<close> and
  \<^verbatim>\<open>re_generateWhohas\<close>, over the whole state of a peer.

  \<open>peer_st\<close> gathers the globals of the program: the configuration (\<^verbatim>\<open>bt_config_t\<close>), the two lists of
  \<^verbatim>\<open>flow_control.c\<close>, the \<^verbatim>\<open>file_manager\<close> and \<^verbatim>\<open>p_tracker\<close>. Everything a call finds outside this state
  is in the record \<open>io\<close>: the file system, the clock, \<^verbatim>\<open>rand\<close>, the bytes behind arrays and
  uninitialised memory.
  Lists of packets are in the order of the C list, newest first.
\<close>

section \<open>State\<close>

record bt_peer_t =
  peer_id :: int
  peer_addr :: sockaddr_in

record bt_config_t =
  chunk_file :: "byte list"
  has_chunk_file :: "byte list"
  output_file :: "byte list"
  identity :: int
  peers :: "bt_peer_t list"

record peer_st =
  ps_config :: bt_config_t
  ps_sender :: sender_st
  ps_recv :: "recv_buffer_t list"
  ps_fm :: file_manager_t
  ps_tracker :: "packet_tracker_t list"
  ps_written :: "(byte list \<times> byte list) list"

record io =
  io_fs :: files
  io_now :: int
  io_slack :: "byte list"
  io_stk :: "byte list"
  io_beyond :: "nat \<Rightarrow> bool option"
  io_fopen_ok :: bool
  io_content :: "byte list"
  io_data :: "byte list"
  io_local :: "byte list"
  io_index :: int
  io_offset :: int
  io_prev_ack :: "32 word"
  io_count_ack :: int
  io_tracker :: packet_tracker_t
  io_rand :: "nat \<Rightarrow> nat"

definition initial_manager :: file_manager_t where
  "initial_manager = \<lparr>fm_init = False, fm_chunk_count = 0, fm_offset = None, fm_top = 0,
     fm_timer = None, fm_already_used = Some []\<rparr>"

section \<open>WHOHAS\<close>

text \<open>
  The loop over the requested hashes: \<open>data\<close> is the reply array, \<open>reply\<close> its fill, and the last
  component says whether a hash was found.
\<close>

fun whohas_loop ::
  "data_packet_t \<Rightarrow> byte list \<Rightarrow> nat \<Rightarrow> nat \<Rightarrow> byte list \<Rightarrow> nat \<Rightarrow> bool
     \<Rightarrow> (byte list \<times> nat \<times> bool) res" where
  "whohas_loop p local 0 i dat reply found = Inr (dat, reply, found)"
| "whohas_loop p local (Suc n) i dat reply found =
     rbind (packet_hash p i) (\<lambda>request.
     rbind (find_in_local_has request local) (\<lambda>r.
     if r = 1 then
       rbind (memcpy dat reply (Some request) 20) (\<lambda>dat.
       whohas_loop p local n (Suc i) dat (reply + 20) True)
     else whohas_loop p local n (Suc i) dat reply found))"

definition handle_whohas :: "io \<Rightarrow> data_packet_t \<Rightarrow> peer_st \<Rightarrow> data_packet_t list res" where
  "handle_whohas io p ps =
     rbind (packet_count p) (\<lambda>count.
     rbind (read_chunkfile (io_slack io) (io_fs io) (has_chunk_file (ps_config ps)) (io_local io)) (\<lambda>(local, n).
     if n < 0 then Inr []
     else rbind (whohas_loop p local (nat count) 0 (replicate 1500 0) 0 False) (\<lambda>(dat, reply, found).
          rbind (wr dat (int reply) 0) (\<lambda>dat.
          if \<not> found then Inr []
          else rbind (init_packet (io_stk io) 1 (Some dat) reply) (\<lambda>packet. Inr [packet])))))"

section \<open>IHAVE\<close>

text \<open>
  \<open>touch_timer\<close>: the loop that looks up the chunk and the assignment after it, which is out of bounds
  when the chunk is not in the list.
\<close>

fun index_of :: "int \<Rightarrow> int list \<Rightarrow> nat" where
  "index_of x [] = 0"
| "index_of x (y # ys) = (if x = y then 0 else Suc (index_of x ys))"

definition touch_timer :: "int \<Rightarrow> int \<Rightarrow> file_manager_t \<Rightarrow> file_manager_t res" where
  "touch_timer offset now fm =
     rbind (manager_offsets fm) (\<lambda>offsets.
     case fm_timer fm of
       None \<Rightarrow> Inl Dangling
     | Some timer \<Rightarrow>
         rbind (wr timer (int (index_of offset offsets)) now) (\<lambda>timer'.
         Inr (fm\<lparr>fm_timer := Some timer'\<rparr>)))"

definition ihave_step ::
  "io \<Rightarrow> int \<Rightarrow> byte list \<Rightarrow> peer_st \<Rightarrow> data_packet_t list \<Rightarrow> (peer_st \<times> data_packet_t list) res" where
  "ihave_step io sockfd hash ps ret =
     rbind (get_off_set_from_master_chunkfile (io_slack io) (io_fs io) (chunk_file (ps_config ps)) hash)
       (\<lambda>offset.
     case List.find (\<lambda>n. peer_id n = sockfd) (peers (ps_config ps)) of
       None \<Rightarrow> Inl Exit_Called
     | Some node \<Rightarrow>
         (case fm_already_used (ps_fm ps) of
            None \<Rightarrow> Inl Dangling
          | Some used \<Rightarrow>
              if offset = -1 then Inr (ps, ret)
              else (case init_recv_buffer (io_content io) offset sockfd (ps_recv ps) of (recv', r) \<Rightarrow>
                if r = -1 then Inr (ps, ret)
                else rbind (init_packet (io_stk io) 2 (Some hash) 20) (\<lambda>packet.
                  let owner = \<lparr>co_offset = offset, co_address = peer_addr node\<rparr>
                  in rbind (touch_timer offset (io_now io)
                       ((ps_fm ps)\<lparr>fm_already_used := Some (owner # used)\<rparr>)) (\<lambda>fm'.
                     Inr (ps\<lparr>ps_recv := recv', ps_fm := fm'\<rparr>, packet # ret))))))"

fun ihave_loop ::
  "io \<Rightarrow> int \<Rightarrow> data_packet_t \<Rightarrow> nat \<Rightarrow> nat \<Rightarrow> peer_st \<Rightarrow> data_packet_t list
     \<Rightarrow> (peer_st \<times> data_packet_t list) res" where
  "ihave_loop io sockfd p 0 i ps ret = Inr (ps, ret)"
| "ihave_loop io sockfd p (Suc n) i ps ret =
     rbind (packet_hash p i) (\<lambda>hash.
     rbind (ihave_step io sockfd hash ps ret) (\<lambda>(ps', ret').
     ihave_loop io sockfd p n (Suc i) ps' ret'))"

definition handle_ihave ::
  "io \<Rightarrow> int \<Rightarrow> data_packet_t \<Rightarrow> peer_st \<Rightarrow> (peer_st \<times> data_packet_t list) res" where
  "handle_ihave io sockfd p ps =
     rbind (packet_count p) (\<lambda>count. ihave_loop io sockfd p (nat count) 0 ps [])"

section \<open>GET, DATA and ACK\<close>

definition handle_get ::
  "io \<Rightarrow> int \<Rightarrow> data_packet_t \<Rightarrow> peer_st \<Rightarrow> (peer_st \<times> data_packet_t list) res" where
  "handle_get io sockfd p ps =
     (let master = chunk_file (ps_config ps) in
      if length (data p) < 20 then Inl Out_Of_Bounds
      else let hash = take 20 (data p) in
        rbind (get_data_from_hash (io_slack io) (io_index io) (io_data io) (io_fs io) master hash) (\<lambda>content.
        rbind (get_off_set_from_master_chunkfile (io_slack io) (io_fs io) master hash) (\<lambda>offset.
        rbind (send_data sockfd
            (init_datalist (io_prev_ack io) (io_count_ack io) sockfd offset content (ps_sender ps)))
          (\<lambda>(S', ret). Inr (ps\<lparr>ps_sender := S'\<rparr>, ret)))))"

definition handle_data ::
  "io \<Rightarrow> int \<Rightarrow> data_packet_t \<Rightarrow> peer_st \<Rightarrow> (peer_st \<times> data_packet_t list) res" where
  "handle_data io sockfd p ps =
     rbind (recv_data (io_beyond io) p sockfd (ps_recv ps)) (\<lambda>(recv', ret, offset).
     rbind (touch_timer (case offset of Some off \<Rightarrow> off | None \<Rightarrow> io_offset io) (io_now io) (ps_fm ps))
       (\<lambda>fm'.
     rbind (check_file_manager (io_fopen_ok io) fm' recv') (\<lambda>(fm'', recv'', written, r).
     Inr (ps\<lparr>ps_recv := recv'', ps_fm := fm'', ps_written :=
            (case written of None \<Rightarrow> ps_written ps
             | Some out \<Rightarrow> (output_file (ps_config ps), out) # ps_written ps)\<rparr>, ret))))"

definition handle_ack_packet :: "int \<Rightarrow> data_packet_t \<Rightarrow> peer_st \<Rightarrow> (peer_st \<times> data_packet_t list) res" where
  [simp]: "handle_ack_packet sockfd p ps =
     rbind (handle_ack sockfd (sint (ack_num (header p) - 1)) (ps_tracker ps) (ps_sender ps))
       (\<lambda>(S', trk', ret). Inr (ps\<lparr>ps_sender := S', ps_tracker := trk'\<rparr>, ret))"

definition handle_packet ::
  "io \<Rightarrow> data_packet_t \<Rightarrow> int \<Rightarrow> peer_st \<Rightarrow> (peer_st \<times> data_packet_t list) res" where
  "handle_packet io packet sockfd ps =
     (let p = pkt_swap packet; t = packet_type (header p) in
      if t = 0 then rbind (handle_whohas io p ps) (\<lambda>ret. Inr (ps, ret))
      else if t = 1 then handle_ihave io sockfd p ps
      else if t = 2 then handle_get io sockfd p ps
      else if t = 3 then handle_data io sockfd p ps
      else if t = 4 then handle_ack_packet sockfd p ps
      else Inr (ps, []))"

section \<open>generate_WHOHAS\<close>

text \<open>
  The first pass over the chunk file. \<open>count\<close> is the fill of \<^verbatim>\<open>data\<close>, \<open>chunks\<close> the number of lines; the
  last component of the result is false when the code gives up at a long line.
\<close>

function whohas_lines ::
  "byte list \<Rightarrow> byte list \<Rightarrow> byte list \<Rightarrow> byte list \<Rightarrow> nat \<Rightarrow> int \<Rightarrow> data_packet_t list
     \<Rightarrow> (byte list \<times> byte list \<times> nat \<times> int \<times> data_packet_t list \<times> bool) res" where
  "whohas_lines stk s line dat count chunks ret =
     (case scan_line s of
        None \<Rightarrow> Inr (line, dat, count, chunks, ret, True)
      | Some (index, w, rest) \<Rightarrow>
          rbind (put_word line w) (\<lambda>line.
          rbind (c_string line) (\<lambda>str.
          if length str > 40 then Inr (line, dat, count, chunks, ret, False)
          else rbind (hex2binary line 40 dat count) (\<lambda>dat.
            let count = count + 20; line = blit line 0 (replicate 40 0); rest = skip_space rest
            in if count \<ge> 1000 then
                 rbind (wr dat (int count) 0) (\<lambda>dat.
                 rbind (init_packet stk 0 (Some dat) count) (\<lambda>packet.
                 whohas_lines stk rest line (replicate 1200 0) 0 (chunks + 1) (packet # ret)))
               else whohas_lines stk rest line dat count (chunks + 1) ret))))"
  by pat_completeness auto
termination
  by (relation "measure (\<lambda>(_, s, _). length s)")
     (auto dest!: length_scan_line intro: le_less_trans [OF length_skip_space])

declare whohas_lines.simps [simp del]

text \<open>The second pass, which fills \<^verbatim>\<open>file_manager.offset\<close> from index \<open>k\<close> on.\<close>

function offset_lines ::
  "io \<Rightarrow> byte list \<Rightarrow> byte list \<Rightarrow> byte list \<Rightarrow> int list \<Rightarrow> int \<Rightarrow> (int list \<times> int) res" where
  "offset_lines io master s line offsets k =
     (case scan_line s of
        None \<Rightarrow> Inr (offsets, k)
      | Some (index, w, rest) \<Rightarrow>
          rbind (put_word line w) (\<lambda>line.
          rbind (hex2binary line 40 (replicate 20 0) 0) (\<lambda>temp.
          rbind (get_off_set_from_master_chunkfile (io_slack io) (io_fs io) master temp) (\<lambda>offset.
          rbind (wr offsets k offset) (\<lambda>offsets.
          offset_lines io master (skip_space rest) line offsets (k + 1))))))"
  by pat_completeness auto
termination
  by (relation "measure (\<lambda>(_, _, s, _). length s)")
     (auto dest!: length_scan_line intro: le_less_trans [OF length_skip_space])

declare offset_lines.simps [simp del]

definition generate_WHOHAS ::
  "io \<Rightarrow> byte list \<Rightarrow> byte list \<Rightarrow> peer_st \<Rightarrow> (peer_st \<times> data_packet_t list) res" where
  "generate_WHOHAS io chunkfile outputfile ps =
     (let fm = (ps_fm ps)\<lparr>fm_init := True, fm_chunk_count := 0, fm_top := 0, fm_already_used := Some []\<rparr>;
          ps = ps\<lparr>ps_config := (ps_config ps)\<lparr>output_file := take 120 outputfile\<rparr>\<rparr>
      in case io_fs io chunkfile of
           None \<Rightarrow> Inr (ps\<lparr>ps_fm := fm\<rparr>, [])
         | Some s \<Rightarrow>
             rbind (whohas_lines (io_stk io) s (replicate 40 0 @ io_slack io) (take 1200 (io_data io)) 0 0 [])
               (\<lambda>(line, dat, count, chunks, ret, complete).
             if \<not> complete then Inr (ps\<lparr>ps_fm := fm\<lparr>fm_chunk_count := chunks\<rparr>\<rparr>, [])
             else
               rbind (offset_lines io (chunk_file (ps_config ps)) s line (replicate (nat chunks) 0) 0)
                 (\<lambda>(offsets, k).
               rbind (wr dat (int count) 0) (\<lambda>dat.
               rbind (init_packet (io_stk io) 0 (Some dat) count) (\<lambda>packet.
               Inr (ps\<lparr>ps_fm := fm\<lparr>fm_chunk_count := chunks, fm_offset := Some offsets,
                      fm_timer := Some (replicate (nat chunks) (io_now io)), fm_top := k\<rparr>\<rparr>,
                    packet # ret))))))"

section \<open>re_generateWhohas\<close>

fun regenerate_loop ::
  "io \<Rightarrow> int list \<Rightarrow> nat \<Rightarrow> int list option \<Rightarrow> peer_st \<Rightarrow> data_packet_t list
     \<Rightarrow> (int list option \<times> peer_st \<times> data_packet_t list) res" where
  "regenerate_loop io [] i timer ps ret = Inr (timer, ps, ret)"
| "regenerate_loop io (offset # offsets) i timer ps ret =
     (if is_buffer_full offset (ps_recv ps) = 1 then regenerate_loop io offsets (Suc i) timer ps ret
      else case timer of
        None \<Rightarrow> Inl Dangling
      | Some ts \<Rightarrow>
          rbind (rd ts (int i)) (\<lambda>t.
          if io_now io - t > 10 then
            let ps = ps\<lparr>ps_recv := release_buffer offset (ps_recv ps)\<rparr>
            in rbind (get_hash_from_master_chunkfile (io_slack io) (io_fs io) (chunk_file (ps_config ps)) offset)
                 (\<lambda>hash.
               rbind (init_packet (io_stk io) 0 hash 20) (\<lambda>packet.
               rbind (wr ts (int i) (io_now io)) (\<lambda>ts'.
               regenerate_loop io offsets (Suc i) (Some ts') ps (packet # ret))))
          else regenerate_loop io offsets (Suc i) timer ps ret))"

definition re_generateWhohas :: "io \<Rightarrow> peer_st \<Rightarrow> (peer_st \<times> data_packet_t list) res" where
  "re_generateWhohas io ps =
     (if \<not> fm_init (ps_fm ps) then Inr (ps, [])
      else rbind (manager_offsets (ps_fm ps)) (\<lambda>offsets.
        rbind (regenerate_loop io offsets 0 (fm_timer (ps_fm ps)) ps []) (\<lambda>(timer', ps', ret).
        Inr (ps'\<lparr>ps_fm := (ps_fm ps')\<lparr>fm_timer := timer'\<rparr>\<rparr>, ret))))"

section \<open>Properties of the DATA branch\<close>

lemma handle_packet_data:
  "packet_type (header p) = 3 \<Longrightarrow> handle_packet io p sockfd ps = handle_data io sockfd (pkt_swap p) ps"
  by (simp add: handle_packet_def Let_def pkt_swap_def)

text \<open>
  A peer that has not asked for anything does not survive a DATA packet: the branch stores the
  time into the timer array of the file manager, which does not exist yet, whatever the packet holds.
\<close>

theorem stray_data_faults:
  assumes "packet_type (header p) = 3" and "ps_recv ps = []" and "ps_fm ps = initial_manager"
  shows "handle_packet io p sockfd ps = Inl Dangling"
proof -
  have "recv_data (io_beyond io) q sockfd [] = Inr ([], [], None)" for q
    by (simp add: recv_data_def Let_def get_recv_by_socket_def)
  then show ?thesis
    using assms by (simp add: handle_packet_data handle_data_def touch_timer_def initial_manager_def
        manager_offsets_def)
qed

text \<open>
  C40. Nor does a peer survive one after its download: the packet that completes the file frees the
  arrays, and every later DATA packet, such as a retransmission, makes the branch use them.
\<close>

theorem data_after_completion_faults:
  assumes "handle_data io sockfd p ps = Inr (ps', ret)" and "ps_written ps' \<noteq> ps_written ps"
    and "0 < fm_chunk_count (ps_fm ps)" and "packet_type (header q) = 3"
  shows "\<exists>e. handle_packet io' q sockfd' ps' = Inl e"
proof -
  obtain recv' acks offset where r: "recv_data (io_beyond io) p sockfd (ps_recv ps) = Inr (recv', acks, offset)"
    using assms(1) by (cases "recv_data (io_beyond io) p sockfd (ps_recv ps)") (auto simp: handle_data_def)
  let ?off = "case offset of Some off \<Rightarrow> off | None \<Rightarrow> io_offset io"
  obtain fm1 where t: "touch_timer ?off (io_now io) (ps_fm ps) = Inr fm1"
    using assms(1) r by (cases "touch_timer ?off (io_now io) (ps_fm ps)") (auto simp: handle_data_def)
  obtain fm2 recv2 written k where c: "check_file_manager (io_fopen_ok io) fm1 recv' = Inr (fm2, recv2, written, k)"
    using assms(1) r t by (cases "check_file_manager (io_fopen_ok io) fm1 recv'") (auto simp: handle_data_def)
  have ps': "ps_fm ps' = fm2" "written \<noteq> None"
    using assms(1,2) r t c by (cases written; auto simp: handle_data_def)+
  then obtain out where "written = Some out" by blast
  then have "fm2 = closed_manager fm1" using completed_manager c by blast
  moreover have "fm_chunk_count fm1 = fm_chunk_count (ps_fm ps)"
    using t by (auto simp: touch_timer_def res_simps split: option.splits)
  ultimately have "manager_offsets (ps_fm ps') = Inl Dangling"
    using ps'(1) assms(3) by (simp add: manager_offsets_def closed_manager_def)
  then show ?thesis
    using assms(4) by (cases "recv_data (io_beyond io') (pkt_swap q) sockfd' (ps_recv ps')")
      (auto simp: handle_packet_data handle_data_def touch_timer_def)
qed

section \<open>Properties of the repeated request\<close>

text \<open>
  A chunk that is missing from the master chunk file has offset -1, and asking for it again after
  ten seconds dereferences the null pointer that \<^verbatim>\<open>get_hash_from_master_chunkfile\<close> returns.
\<close>

theorem unknown_chunk_faults:
  assumes "fm_init (ps_fm ps)" and "manager_offsets (ps_fm ps) = Inr (offset # offsets)"
    and "fm_timer (ps_fm ps) = Some (t # ts)" and "io_now io - t > 10"
    and "is_buffer_full offset (ps_recv ps) \<noteq> 1"
    and "io_fs io (chunk_file (ps_config ps)) = Some (master_text path es)" and "path_ok path"
    and "\<forall>e \<in> set es. length (snd e) = 20 \<and> int (fst e) \<noteq> offset"
    and "io_slack io \<noteq> []"
  shows "re_generateWhohas io ps = Inl Null_Deref"
proof -
  obtain temp where tm: "open_master (io_slack io) (master_text path es) =
        Inr (temp, path @ 0 # replicate (511 - length path) 0, chunk_text es)"
      "length temp = 40 + length (io_slack io)"
    using open_master_text [OF assms(7)] by blast
  have len: "41 \<le> length temp" using tm(2) assms(9) by (cases "io_slack io") simp_all
  have "List.find (\<lambda>e. int (fst e) = offset) es = None" using assms(8) by (auto simp: find_None_iff)
  then have h: "get_hash_from_master_chunkfile (io_slack io) (io_fs io) (chunk_file (ps_config ps)) offset = Inr None"
    using hash_loop_chunk_text [of es temp "[]"] len assms(6,8) tm(1)
    by (simp add: get_hash_from_master_chunkfile_def)
  have "init_packet stk 0 None 20 = Inl Null_Deref" for stk
    by (simp add: init_packet_def Let_def memcpy_def c_string_def layout_simps)
  then show ?thesis
    using assms(1-5) h by (simp add: re_generateWhohas_def in_range_def)
qed

section \<open>Properties of the WHOHAS branch\<close>

lemma whohas_loop_result:
  assumes "\<forall>j < n. packet_hash p (i + j) = Inr (hs ! j)" "length hs = n" "\<forall>h \<in> set hs. length h = 20"
    and "\<And>h. find_in_local_has h local = Inr (if has h then 1 else 0)"
    and "reply + 20 * n \<le> length dat"
  shows "whohas_loop p local n i dat reply found =
    Inr (blit dat reply (concat (filter has hs)), reply + 20 * length (filter has hs),
         found \<or> filter has hs \<noteq> [])"
  using assms(1-3,5)
proof (induction n arbitrary: i hs dat reply found)
  case (Suc n)
  then obtain h hs' where hs: "hs = h # hs'" "length hs' = n" by (cases hs) auto
  have h: "packet_hash p i = Inr h" "length h = 20" using Suc.prems(1,3) hs(1) by fastforce+
  have tl: "\<forall>j < n. packet_hash p (Suc i + j) = Inr (hs' ! j)" "\<forall>h \<in> set hs'. length h = 20"
    using Suc.prems(1,3) hs(1) by (auto dest: spec [of _ "Suc _"])
  show ?case
  proof (cases "has h")
    case True
    have fit: "reply + 20 \<le> length dat" using Suc.prems(4) by simp
    have "whohas_loop p local n (Suc i) (blit dat reply h) (reply + 20) True =
      Inr (blit (blit dat reply h) (reply + 20) (concat (filter has hs')),
           reply + 20 + 20 * length (filter has hs'), True \<or> filter has hs' \<noteq> [])"
      using Suc.prems(4) fit h(2) by (intro Suc.IH tl hs(2)) (simp add: length_blit)
    then show ?thesis
      using True h fit assms(4) blit_blit [of reply h dat "concat (filter has hs')"]
      by (simp add: hs(1) memcpy_Some)
  next
    case False
    have "whohas_loop p local n (Suc i) dat reply found =
      Inr (blit dat reply (concat (filter has hs')), reply + 20 * length (filter has hs'),
           found \<or> filter has hs' \<noteq> [])"
      using Suc.prems(4) by (intro Suc.IH tl hs(2)) simp
    then show ?thesis using False h assms(4) by (simp add: hs(1))
  qed
qed simp

lemma memcpy_take: "n \<le> length src \<Longrightarrow> memcpy d k (Some src) n = memcpy d k (Some (take n src)) n"
  by (simp add: memcpy_Some)

lemma init_packet_take:
  assumes "n \<le> length src"
  shows "init_packet stk t (Some src) n = init_packet stk t (Some (take n src)) n"
proof -
  have "memcpy d k (Some src) n = memcpy d k (Some (take n src)) n" for d k
    using assms by (rule memcpy_take)
  then show ?thesis unfolding init_packet_def Let_def by (simp only: option.case)
qed

lemma pkt_swap_simps [simp]:
  "packet_type (header (pkt_swap p)) = packet_type (header p)" "data (pkt_swap p) = data p"
  "packet_count (pkt_swap p) = packet_count p" "packet_hash (pkt_swap p) i = packet_hash p i"
  by (simp_all add: pkt_swap_def packet_count_def packet_hash_def)

lemma length_packet_hash: "packet_hash p i = Inr h \<Longrightarrow> length h = 20"
  by (auto simp: packet_hash_def split: if_splits)

lemma whohas_reply_text:
  assumes "packet_type (header p) = 0" and "packet_count p = Inr (int k)" and "k < 60"
    and "length hs = k" and "\<forall>i < k. packet_hash p i = Inr (hs ! i)"
    and "io_fs io (has_chunk_file (ps_config ps)) = Some (chunk_text es)"
    and "\<forall>e \<in> set es. length (snd e) = 20" and "length es \<le> 4"
    and "io_slack io \<noteq> []" and "length (io_local io) = 100"
    and "c_string (io_stk io) = Inr junk" and "length junk \<le> 1195"
    and "wanted = filter (\<lambda>h. h \<in> set (takeWhile (\<lambda>h. 0 \<notin> set h) (map snd es))) hs"
  shows "if wanted = [] then handle_packet io p sockfd ps = Inr (ps, [])
    else \<exists>rest. handle_packet io p sockfd ps = Inr (ps,
      [\<lparr>header = hdr_swap (host_header 1 (20 + 20 * length wanted) 0 0),
        data = [of_nat (length wanted), 1, 1, 1] @ concat wanted @ rest\<rparr>]) \<and>
      length rest = 1196 - 20 * length wanted"
proof -
  let ?has = "\<lambda>h. h \<in> set (takeWhile (\<lambda>h. 0 \<notin> set h) (map snd es))"
  have hs: "\<forall>h \<in> set hs. length h = 20"
    using assms(4,5) length_packet_hash by (metis in_set_conv_nth)
  define local where "local = blit (io_local io) 0 (concat (map snd es) @ [0])"
  have rd: "read_chunkfile (io_slack io) (io_fs io) (has_chunk_file (ps_config ps)) (io_local io) =
      Inr (local, 20 * int (length es))"
    using read_chunkfile_text [of "io_fs io" _ es "io_slack io" "io_local io"] assms(6-10)
    by (simp add: local_def)
  have find: "find_in_local_has h local = Inr (if ?has h then 1 else 0)" for h
  proof -
    have "local = concat (map snd es) @ 0 # drop (length (concat (map snd es)) + 1) (io_local io)"
      by (simp add: local_def blit_0)
    then show ?thesis using find_in_local_has_result [of "map snd es"] assms(7) by simp
  qed
  have sub: "length wanted \<le> k" using assms(4,13) by (simp add: length_filter_le [THEN order_trans])
  have cl: "length (concat wanted) = 20 * length wanted"
    unfolding assms(13) using hs by (induction hs) auto
  let ?dat = "blit (replicate 1500 0) 0 (concat wanted) :: byte list"
  have loop: "whohas_loop (pkt_swap p) local k 0 (replicate 1500 0) 0 False =
      Inr (?dat, 20 * length wanted, wanted \<noteq> [])"
    using whohas_loop_result [of k "pkt_swap p" 0 hs local ?has 0 "replicate 1500 0" False]
      assms(3-5) hs find by (simp add: assms(13))
  have len: "length ?dat = 1500" using cl sub assms(3) by (simp add: length_blit)
  have room: "20 * length wanted < 1500" using sub assms(3) by simp
  have nat: "nat (int (20 * length wanted)) = 20 * length wanted" by simp
  define dat' where "dat' = ?dat[20 * length wanted := 0]"
  have wr: "wr ?dat (int (20 * length wanted)) 0 = Inr dat'"
    using room len by (simp only: wr_def in_range_def nat dat'_def) simp
  have "take (20 * length wanted) ?dat = concat wanted" using take_blit_0 [of "concat wanted"] cl by metis
  then have tk: "take (20 * length wanted) dat' = concat wanted" by (simp add: dat'_def)
  have "handle_packet io p sockfd ps =
      (if wanted = [] then Inr (ps, [])
       else rbind (init_packet (io_stk io) 1 (Some dat') (20 * length wanted)) (\<lambda>packet. Inr (ps, [packet])))"
    using assms(1,2) rd loop wr
    by (cases "init_packet (io_stk io) 1 (Some dat') (20 * length wanted)")
       (simp_all add: handle_packet_def handle_whohas_def)
  moreover have "\<exists>rest. init_packet (io_stk io) 1 (Some dat') (20 * length wanted) =
      Inr \<lparr>header = hdr_swap (host_header 1 (20 + 20 * length wanted) 0 0),
        data = [of_nat (length wanted), 1, 1, 1] @ concat wanted @ rest\<rparr> \<and>
      length rest = 1196 - 20 * length wanted" if "wanted \<noteq> []"
    using init_packet_hashes [of 1 "length wanted" "concat wanted" "io_stk io" junk] that sub assms(3,11,12)
      cl tk init_packet_take [of "20 * length wanted" dat'] len room by (auto simp: dat'_def)
  ultimately show ?thesis by auto
qed

text \<open>
  C21. A WHOHAS request of up to 59 hashes is answered with one IHAVE packet that lists exactly the
  requested hashes which the peer finds in its has list (see the lookup in that list), in the order
  of the request, and with no packet when there is none. The state of the peer does not change.
\<close>

theorem whohas_reply:
  assumes "packet_type (header p) = 0" and "packet_count p = Inr (int k)" and "k < 60"
    and "length hs = k" and "\<forall>i < k. packet_hash p i = Inr (hs ! i)"
    and "io_fs io (has_chunk_file (ps_config ps)) = Some (chunk_text es)"
    and "\<forall>e \<in> set es. length (snd e) = 20" and "length es \<le> 4"
    and "io_slack io \<noteq> []" and "length (io_local io) = 100"
    and "c_string (io_stk io) = Inr junk" and "length junk \<le> 1195"
    and "wanted = filter (\<lambda>h. h \<in> set (takeWhile (\<lambda>h. 0 \<notin> set h) (map snd es))) hs"
  shows "if wanted = [] then handle_packet io p sockfd ps = Inr (ps, [])
    else \<exists>rest. handle_packet io p sockfd ps = Inr (ps,
      [\<lparr>header = hdr_swap (host_header 1 (20 + 20 * length wanted) 0 0),
        data = [of_nat (length wanted), 1, 1, 1] @ concat wanted @ rest\<rparr>]) \<and>
      length rest = 1196 - 20 * length wanted"
  using assms by (rule whohas_reply_text)

section \<open>The properties at concrete inputs\<close>

text \<open>
  A peer with one known chunk of zeros (hash \<open>1...1\<close>), whose master chunk file does not list the chunk
  with offset -1, and the environment of its calls.
\<close>

definition example_config :: bt_config_t where
  "example_config = \<lparr>chunk_file = [109], has_chunk_file = [104], output_file = [111], identity = 1,
     peers = [\<lparr>peer_id = 7, peer_addr = \<lparr>sin_family = 2, sin_port = 1, s_addr = 16777343\<rparr>\<rparr>]\<rparr>"

definition example_peer :: "recv_buffer_t list \<Rightarrow> file_manager_t \<Rightarrow> peer_st" where
  "example_peer l fm = \<lparr>ps_config = example_config, ps_sender = \<lparr>snd_list = [], wlog = []\<rparr>,
     ps_recv = l, ps_fm = fm, ps_tracker = [], ps_written = []\<rparr>"

definition example_io :: io where
  "example_io = \<lparr>
     io_fs = (\<lambda>f. if f = [109] then Some (master_text [97] [(0, replicate 20 1)])
                   else if f = [104] then Some (chunk_text [(0, replicate 20 1)]) else None),
     io_now = 100, io_slack = [0], io_stk = [0], io_beyond = (\<lambda>_. Some False), io_fopen_ok = True,
     io_content = replicate 1500 0, io_data = replicate 524288 0, io_local = replicate 100 0,
     io_index = 0, io_offset = 0, io_prev_ack = 1, io_count_ack = 0,
     io_tracker = \<lparr>tr_sock = 0, tr_seq = 0, tr_from = \<lparr>sin_family = 0, sin_port = 0, s_addr = 0\<rparr>,
       tr_send_time = 0, tr_expire_time = 0,
       tr_packet = \<lparr>header = host_header 0 0 0 0, data = []\<rparr>\<rparr>,
     io_rand = (\<lambda>_. 0)\<rparr>"

definition one_chunk :: "int \<Rightarrow> file_manager_t" where
  "one_chunk offset = \<lparr>fm_init = True, fm_chunk_count = 1, fm_offset = Some [offset], fm_top = 1,
     fm_timer = Some [0], fm_already_used = Some []\<rparr>"

theorem stray_data_faults_witness:
  "handle_packet example_io (example_data 1 1040) 7 (example_peer [] initial_manager) = Inl Dangling"
  by (rule stray_data_faults) (simp_all add: example_data_def example_peer_def)

lemma example_completion:
  "\<exists>ps ret. handle_data example_io 7 (example_data 6 1040)
      (example_peer [nearly_full_buffer] (one_chunk 0)) = Inr (ps, ret) \<and>
    ps_written ps = [([111], replicate 524288 0)]"
proof -
  let ?p = "example_data 6 1040"
  define F where "F = (replicate 524288 0 :: byte list)"
  have wf: "recv_wf F nearly_full_buffer" unfolding F_def by (rule nearly_full_wf)
  have len: "length F = 524288" by (simp add: F_def)
  have g: "get_recv_by_socket 7 [nearly_full_buffer] = Some nearly_full_buffer"
    by (simp add: get_recv_by_socket_def nearly_full_buffer_def)
  have c: "carries F 5 ?p" using example_data_carries [of 5] by (simp add: F_def)
  obtain b where b: "recv_data (\<lambda>_. Some False) ?p 7 [nearly_full_buffer] =
        Inr (put_recv b [nearly_full_buffer], [ack_pkt (rb_expected b)], Some 0)"
      "recv_effect F 5 nearly_full_buffer b"
    using recv_data_ok [OF g wf _ c all_unset_readable] by (auto simp: nearly_full_buffer_def)
  have n: "rb_socket nearly_full_buffer = 7" "rb_offset nearly_full_buffer = 0"
    by (simp_all add: nearly_full_buffer_def)
  have "insert 5 ({..<512} - {5}) = {..<512::nat}" by auto
  then have k: "rb_socket b = 7" "rb_offset b = 0" "recv_wf F b" "received b = {..<512}"
    using b(2) by (simp_all only: recv_effect_def nearly_full_received n)
  have l: "put_recv b [nearly_full_buffer] = [b]"
    using k(1) by (simp add: put_recv_def nearly_full_buffer_def)
  have h: "list_all2 (holds_chunk [b]) [0] [F]" using k len by (simp add: holds_chunk_def)
  have full: "\<forall>off \<in> set [0]. is_buffer_full off [b] = 1"
    using k(2) received_full [OF k(3,4)] by (simp add: is_buffer_full_iff)
  have "touch_timer 0 100 (one_chunk 0) = Inr ((one_chunk 0)\<lparr>fm_timer := Some [100]\<rparr>)"
    by (simp add: touch_timer_def one_chunk_def manager_offsets_def in_range_def)
  moreover have "manager_offsets ((one_chunk 0)\<lparr>fm_timer := Some [100]\<rparr>) = Inr [0]"
    "fm_init ((one_chunk 0)\<lparr>fm_timer := Some [100]\<rparr>)"
    by (simp_all add: one_chunk_def manager_offsets_def)
  moreover have "\<exists>fm' l'. check_file_manager True ((one_chunk 0)\<lparr>fm_timer := Some [100]\<rparr>) [b] =
      Inr (fm', l', Some F, 1)"
    using check_file_manager_result [OF calculation(3,2) h] full by auto
  ultimately show ?thesis
    using b(1) unfolding l F_def [symmetric]
    by (auto simp: handle_data_def example_io_def example_peer_def example_config_def
       )
qed

theorem data_after_completion_faults_witness:
  "\<exists>ps e. ps_written ps = [([111], replicate 524288 0)] \<and>
     handle_packet example_io (example_data 6 1040) 7 ps = Inl e"
proof -
  obtain ps ret where "handle_data example_io 7 (example_data 6 1040)
      (example_peer [nearly_full_buffer] (one_chunk 0)) = Inr (ps, ret)"
    "ps_written ps = [([111], replicate 524288 0)]"
    using example_completion by blast
  then show ?thesis
    using data_after_completion_faults [of example_io 7 "example_data 6 1040" _ ps ret "example_data 6 1040" example_io 7]
    by (auto simp: example_peer_def one_chunk_def example_data_def)
qed

theorem unknown_chunk_faults_witness:
  "re_generateWhohas example_io (example_peer [] (one_chunk (-1))) = Inl Null_Deref"
  by (rule unknown_chunk_faults [where offset = "-1" and offsets = "[]" and t = 0 and ts = "[]" and path = "[97]" and es = "[(0, replicate 20 1)]"])
     (simp_all add: example_io_def example_peer_def example_config_def one_chunk_def
        manager_offsets_def is_buffer_full_def path_ok_def is_space_def)

definition example_request :: data_packet_t where
  "example_request = \<lparr>header = hdr_swap (host_header 0 60 0 0),
     data = [2, 1, 1, 1] @ replicate 20 2 @ replicate 20 1 @ replicate 1440 0\<rparr>"

theorem whohas_reply_witness:
  "\<exists>rest. handle_packet example_io example_request 7 (example_peer [] initial_manager) =
     Inr (example_peer [] initial_manager, [\<lparr>header = hdr_swap (host_header 1 40 0 0),
       data = [1, 1, 1, 1] @ replicate 20 1 @ rest\<rparr>])"
proof -
  let ?hs = "[replicate 20 2, replicate 20 1] :: byte list list"
  have d: "length (data example_request) = 1484" by (simp add: example_request_def)
  have h: "packet_hash example_request 0 = Inr (replicate 20 2)"
      "packet_hash example_request 1 = Inr (replicate 20 1)"
    by (simp_all add: packet_hash_def d) (simp_all add: example_request_def)
  then have hs: "\<forall>i < 2. packet_hash example_request i = Inr (?hs ! i)"
    by (simp add: All_less_Suc numeral_2_eq_2)
  have w: "[replicate 20 1] = filter (\<lambda>h. h \<in> set (takeWhile (\<lambda>h. 0 \<notin> set h)
      (map snd [(0::nat, replicate 20 (1::byte))]))) ?hs"
    by simp
  have c: "packet_count example_request = Inr (int 2)"
    by (simp add: packet_count_def example_request_def in_range_def)
  show ?thesis
    using whohas_reply [OF _ c _ _ hs, of example_io "example_peer [] initial_manager"
        "[(0, replicate 20 1)]" "[]" "[replicate 20 1]" 7] w
    by (simp add: example_request_def example_io_def example_peer_def example_config_def c_string_def) blast
qed


end
