(* ===== verification/Requests.thy ===== *)
theory Requests
  imports Handlers
begin

text \<open>
  What the requests of \<^verbatim>\<open>generate_WHOHAS\<close> contain and what a peer does with the answers: the packets
  of a GET command ask for every hash of the chunk file in order, the file manager knows the offset
  of each, and an IHAVE answer starts the download of a chunk.
\<close>

section \<open>Grouping the hashes into packets\<close>

text \<open>
  \<open>request_groups pend hs\<close>: the lists of hashes of the packets that are sent while the chunk file is
  read, and the hashes left for the last packet.
\<close>

fun request_groups :: "byte list list \<Rightarrow> byte list list \<Rightarrow> byte list list list \<times> byte list list" where
  "request_groups pend [] = ([], pend)"
| "request_groups pend (h # hs) =
     (if length pend + 1 \<ge> 50
      then (case request_groups [] hs of (gs, r) \<Rightarrow> ((pend @ [h]) # gs, r))
      else request_groups (pend @ [h]) hs)"

lemma request_groups_partition:
  assumes "request_groups pend hs = (gs, r)" "length pend < 50"
  shows "concat gs @ r = pend @ hs \<and> (\<forall>g \<in> set gs. length g = 50) \<and> length r < 50"
  using assms
proof (induction pend hs arbitrary: gs r rule: request_groups.induct)
  case (2 pend h hs)
  show ?case
  proof (cases "length pend + 1 \<ge> 50")
    case True
    obtain gs' r' where g: "request_groups [] hs = (gs', r')" by fastforce
    have "concat gs' @ r' = [] @ hs \<and> (\<forall>g \<in> set gs'. length g = 50) \<and> length r' < 50"
      by (rule "2.IH"(1) [OF True g]) simp
    moreover have "gs = (pend @ [h]) # gs'" "r = r'" using 2(3) True g by simp_all
    moreover have "length (pend @ [h]) = 50" using 2(4) True by simp
    ultimately show ?thesis by simp
  next
    case False
    have "concat gs @ r = (pend @ [h]) @ hs \<and> (\<forall>g \<in> set gs. length g = 50) \<and> length r < 50"
      using 2(3) False by (intro "2.IH"(2) [OF False]) simp_all
    then show ?thesis by simp
  qed
qed simp

text \<open>
  \<open>asks_for p hs\<close>: a WHOHAS packet, complete with its 1200 bytes of data, from which the receiver reads
  exactly the hashes \<open>hs\<close>.
\<close>

definition asks_for :: "data_packet_t \<Rightarrow> byte list list \<Rightarrow> bool" where
  "asks_for p hs \<longleftrightarrow> packet_type (header p) = 0 \<and> length (data p) = 1200 \<and>
     unat (ntohs (packet_len (header p))) = 20 + 20 * length hs \<and> packet_count p = Inr (int (length hs)) \<and>
     (\<forall>i < length hs. packet_hash p i = Inr (hs ! i))"

lemma concat_hashes_length: "\<forall>h \<in> set hs. length h = 20 \<Longrightarrow> length (concat hs) = 20 * length hs"
  by (induction hs) auto

lemma sint_small_byte: "k < 128 \<Longrightarrow> sint (of_nat k :: byte) = int k"
  by (simp add: sint_uint uint_word_of_int_eq unsigned_of_nat take_bit_nat_eq_self
      signed_take_bit_int_eq_self)

lemma init_packet_empty:
  assumes "c_string stk = Inr junk"
  shows "init_packet stk 0 (Some src) 0 =
    Inr \<lparr>header = hdr_swap (host_header 0 20 0 0), data = replicate 1200 0\<rparr>"
proof -
  have "c_string ([0, 1, 1, 1] @ stk) = Inr []" by (simp add: c_string_def)
  moreover have "blit (replicate (Suc n) 0) 0 [0 :: byte] = replicate (Suc n) 0" for n
    by (simp add: blit_0)
  then have "blit (replicate 1200 0) 0 [0 :: byte] = replicate 1200 0"
    by (metis Suc_numeral semiring_norm(5) numeral_eq_Suc)
  ultimately show ?thesis
    by (simp add: init_packet_def Let_def memcpy_Some layout_simps host_header_def)
qed

lemma init_packet_asks:
  assumes "c_string stk = Inr junk" "length junk \<le> 1195" "length hs < 60" "\<forall>h \<in> set hs. length h = 20"
    "take (20 * length hs) dat = concat hs"
  shows "\<exists>p. init_packet stk 0 (Some dat) (20 * length hs) = Inr p \<and> asks_for p hs"
proof (cases "hs = []")
  case True
  have "unat (20 :: 16 word) = 20" by simp
  with True show ?thesis
    using init_packet_empty [OF assms(1), of dat]
    by (simp add: asks_for_def packet_count_def in_range_def)
next
  case False
  let ?k = "length hs"
  have c: "length (concat hs) = 20 * ?k" using assms(4) by (rule concat_hashes_length)
  then have "20 * ?k \<le> length dat" using assms(5) by (metis length_take min.cobounded1)
  then have t: "init_packet stk 0 (Some dat) (20 * ?k) = init_packet stk 0 (Some (concat hs)) (20 * ?k)"
    using init_packet_take [of "20 * ?k" dat] assms(5) by simp
  obtain rest where p: "init_packet stk 0 (Some (concat hs)) (20 * ?k) =
      Inr \<lparr>header = hdr_swap (host_header 0 (20 + 20 * ?k) 0 0),
           data = [of_nat ?k, 1, 1, 1] @ concat hs @ rest\<rparr>" "length rest = 1196 - 20 * ?k"
    using init_packet_hashes [of 0 ?k "concat hs" stk junk] False c assms(1-3) by auto
  have "unat (of_nat (20 + 20 * ?k) :: 16 word) = 20 + 20 * ?k"
    unfolding unat_of_nat using assms(3) by simp
  moreover have "sint (of_nat ?k :: byte) = int ?k" using assms(3) by (intro sint_small_byte) simp
  moreover have "take 20 (drop (4 + 20 * i) ([of_nat ?k, 1, 1, 1] @ concat hs @ rest)) = hs ! i"
    if "i < ?k" for i
  proof -
    have "drop (4 + 20 * i) ([of_nat ?k, 1, 1, 1] @ concat hs @ rest) = drop (i * 20) (concat hs @ rest)"
      by (simp add: drop_Cons' mult.commute)
    then show ?thesis using take_drop_concat [OF assms(4) that] by simp
  qed
  moreover have "4 + 20 * i + 20 \<le> 4 + 20 * ?k" if "i < ?k" for i using that by simp
  ultimately show ?thesis
    using p(2) assms(3) unfolding t p(1)
    by (auto simp: asks_for_def packet_count_def packet_hash_def in_range_def c)
qed

section \<open>Reading the chunk file\<close>

lemma scan_chunk_text:
  assumes "length (snd e) = 20"
  shows "scan_line (chunk_text (e # es)) = Some (int (fst e), Some (encode (snd e)), 10 # chunk_text es)"
proof -
  have "snd e \<noteq> []" using assms by auto
  then show ?thesis using scan_line_entry [of e "chunk_text es"] by (simp add: chunk_text_def)
qed

text \<open>\<open>cleared\<close>: the array \<^verbatim>\<open>line\<close> after a hash was read into it and 40 bytes were cleared.\<close>

definition cleared :: "byte list \<Rightarrow> byte list \<Rightarrow> byte list" where
  "cleared h line = blit (encode h @ 0 # drop 41 line) 0 (replicate 40 0)"

lemma length_cleared: "length h = 20 \<Longrightarrow> 41 \<le> length line \<Longrightarrow> length (cleared h line) = length line"
  by (simp add: cleared_def length_blit)

lemma whohas_lines_step:
  assumes "length (snd e) = 20" "41 \<le> length line" "count + 20 \<le> length dat"
  shows "whohas_lines stk (chunk_text (e # es)) line dat count chunks ret =
    (let dat = blit dat count (snd e); count = count + 20
     in if count \<ge> 1000 then
          rbind (wr dat (int count) 0) (\<lambda>dat.
          rbind (init_packet stk 0 (Some dat) count) (\<lambda>packet.
          whohas_lines stk (chunk_text es) (cleared (snd e) line) (replicate 1200 0) 0 (chunks + 1) (packet # ret)))
        else whohas_lines stk (chunk_text es) (cleared (snd e) line) dat count (chunks + 1) ret)"
  using assms hex2binary_hash [OF assms(1,3)] put_word_hash [OF assms(1,2)]
  by (subst whohas_lines.simps)
     (simp add: scan_chunk_text c_string_hash skip_space_chunk_text cleared_def Let_def)

lemma take_blit_append:
  assumes "take k dat = xs" "length xs = k" "k + length h \<le> length dat"
  shows "take (k + length h) (blit dat k h) = xs @ h"
  using assms by (simp add: blit_def)

lemma whohas_lines_text:
  assumes "\<forall>e \<in> set es. length (snd e) = 20" "41 \<le> length line" "length dat = 1200"
    "\<forall>h \<in> set pend. length h = 20" "length pend < 50" "take (20 * length pend) dat = concat pend"
    "c_string stk = Inr junk" "length junk \<le> 1195"
    "request_groups pend (map snd es) = (gs, r)"
  shows "\<exists>line' dat' ps. whohas_lines stk (chunk_text es) line dat (20 * length pend) chunks ret =
      Inr (line', dat', 20 * length r, chunks + int (length es), rev ps @ ret, True) \<and>
    list_all2 asks_for ps gs \<and> length line' = length line \<and> length dat' = 1200 \<and>
    take (20 * length r) dat' = concat r"
  using assms(1-6,9)
proof (induction es arbitrary: line dat pend gs r chunks ret)
  case Nil
  then show ?case
    by (subst whohas_lines.simps) (simp add: chunk_text_def)
next
  case (Cons e es)
  let ?h = "snd e" and ?pend = "pend @ [snd e]"
  let ?dat = "blit dat (20 * length pend) ?h"
  have h: "length ?h = 20" using Cons.prems(1) by simp
  have fit: "20 * length pend + 20 \<le> length dat" using Cons.prems(3,5) by simp
  have line: "length (cleared ?h line) = length line" using length_cleared [OF h Cons.prems(2)] .
  have dat: "length ?dat = 1200" using fit h Cons.prems(3) by (simp add: length_blit)
  have cp: "length (concat pend) = 20 * length pend" using Cons.prems(4) by (rule concat_hashes_length)
  have tk: "take (20 * length ?pend) ?dat = concat ?pend"
    using take_blit_append [OF Cons.prems(6) cp, of ?h] fit h by (simp add: add.commute)
  have pend: "\<forall>h \<in> set ?pend. length h = 20" using Cons.prems(4) h by simp
  note step = whohas_lines_step [OF h Cons.prems(2) fit, of stk es chunks ret]
  show ?case
  proof (cases "length pend + 1 \<ge> 50")
    case True
    then have n: "length pend = 49" using Cons.prems(5) by simp
    obtain gs' where g: "request_groups [] (map snd es) = (gs', r)" "gs = ?pend # gs'"
      using Cons.prems(7) True by (auto split: prod.splits)
    have wr: "wr ?dat (int 1000) 0 = Inr (?dat[1000 := 0])" using dat by (simp add: in_range_def)
    have "take (20 * length ?pend) (?dat[1000 := 0]) = concat ?pend" using tk n by simp
    then obtain p where p: "init_packet stk 0 (Some (?dat[1000 := 0])) 1000 = Inr p" "asks_for p ?pend"
      using init_packet_asks [OF assms(7,8) _ pend, of "?dat[1000 := 0]"] n by auto
    obtain line' dat' ps where ih: "whohas_lines stk (chunk_text es) (cleared ?h line) (replicate 1200 0)
          (20 * length ([] :: byte list list)) (chunks + 1) (p # ret) =
        Inr (line', dat', 20 * length r, chunks + 1 + int (length es), rev ps @ p # ret, True)"
        "list_all2 asks_for ps gs'" "length line' = length (cleared ?h line)" "length dat' = 1200"
        "take (20 * length r) dat' = concat r"
      using Cons.IH [of "cleared ?h line" "replicate 1200 0" "[]" gs' r "chunks + 1" "p # ret"]
        Cons.prems(1,2) line g(1) by auto
    have "whohas_lines stk (chunk_text (e # es)) line dat (20 * length pend) chunks ret =
        Inr (line', dat', 20 * length r, chunks + int (length (e # es)), rev (p # ps) @ ret, True)"
      unfolding step using n p(1) wr ih(1) by (simp add: Let_def add.assoc)
    moreover have "list_all2 asks_for (p # ps) gs" using g(2) p(2) ih(2) by simp
    ultimately show ?thesis using ih(3-5) line by (metis (no_types, lifting))
  next
    case False
    have "request_groups ?pend (map snd es) = (gs, r)" using Cons.prems(7) False by simp
    then obtain line' dat' ps where ih: "whohas_lines stk (chunk_text es) (cleared ?h line) ?dat
          (20 * length ?pend) (chunks + 1) ret =
        Inr (line', dat', 20 * length r, chunks + 1 + int (length es), rev ps @ ret, True)"
        "list_all2 asks_for ps gs" "length line' = length (cleared ?h line)" "length dat' = 1200"
        "take (20 * length r) dat' = concat r"
      using Cons.IH [of "cleared ?h line" ?dat ?pend gs r "chunks + 1" ret]
        Cons.prems(1,2) line dat pend tk False by auto
    have "whohas_lines stk (chunk_text (e # es)) line dat (20 * length pend) chunks ret =
        Inr (line', dat', 20 * length r, chunks + int (length (e # es)), rev ps @ ret, True)"
      unfolding step using False ih(1) by (simp add: Let_def add.assoc add.commute)
    then show ?thesis using ih(2-5) line by (metis (no_types, lifting))
  qed
qed

lemma offset_lines_text:
  assumes "\<forall>e \<in> set es. length (snd e) = 20" "41 \<le> length line"
    "io_fs io master = Some (master_text path ms)" "path_ok path"
    "\<forall>e \<in> set ms. length (snd e) = 20" "io_slack io \<noteq> []"
    "length offsets = k + length es"
  shows "offset_lines io master (chunk_text es) line offsets (int k) =
    Inr (take k offsets @ map (\<lambda>e. case List.find (\<lambda>m. snd m = snd e) ms of
           None \<Rightarrow> -1 | Some m \<Rightarrow> int (fst m)) es, int (k + length es))"
  using assms(1,2,7)
proof (induction es arbitrary: line offsets k)
  case Nil
  then show ?case by (subst offset_lines.simps) (simp add: chunk_text_def)
next
  case (Cons e es)
  let ?off = "case List.find (\<lambda>m. snd m = snd e) ms of None \<Rightarrow> -1 | Some m \<Rightarrow> int (fst m)"
  have h: "length (snd e) = 20" using Cons.prems(1) by simp
  let ?line = "encode (snd e) @ 0 # drop 41 line"
  have hex: "hex2binary ?line 40 (replicate 20 0) 0 = Inr (snd e)"
    using hex2binary_hash [OF h, of 0 "replicate 20 0"] h by (simp add: blit_def)
  have off: "get_off_set_from_master_chunkfile (io_slack io) (io_fs io) master (snd e) = Inr ?off"
    using assms(3-6) by (intro master_offset_text)
  have wr: "wr offsets (int k) ?off = Inr (offsets[k := ?off])" using Cons.prems(3) by (simp add: in_range_def)
  have "offset_lines io master (chunk_text (e # es)) line offsets (int k) =
      offset_lines io master (chunk_text es) ?line (offsets[k := ?off]) (int (Suc k))"
    using put_word_hash [OF h Cons.prems(2)] hex off wr
    by (subst offset_lines.simps) (simp add: scan_chunk_text h skip_space_chunk_text add.commute)
  also have "\<dots> = Inr (take (Suc k) (offsets[k := ?off]) @ map (\<lambda>e. case List.find (\<lambda>m. snd m = snd e) ms of
           None \<Rightarrow> -1 | Some m \<Rightarrow> int (fst m)) es, int (Suc k + length es))"
    using Cons.prems h by (intro Cons.IH) simp_all
  also have "take (Suc k) (offsets[k := ?off]) = take k offsets @ [?off]"
    using Cons.prems(3) by (simp add: take_Suc_conv_app_nth)
  finally show ?case by simp
qed


section \<open>Properties of the requests\<close>

definition master_offset :: "(nat \<times> byte list) list \<Rightarrow> byte list \<Rightarrow> int" where
  "master_offset ms h = (case List.find (\<lambda>m. snd m = h) ms of None \<Rightarrow> -1 | Some m \<Rightarrow> int (fst m))"

lemma generate_whohas_text:
  assumes "io_fs io chunkfile = Some (chunk_text es)" and "\<forall>e \<in> set es. length (snd e) = 20"
    and "io_fs io (chunk_file (ps_config ps)) = Some (master_text path ms)" and "path_ok path"
    and "\<forall>m \<in> set ms. length (snd m) = 20" and "io_slack io \<noteq> []" and "1200 \<le> length (io_data io)"
    and "c_string (io_stk io) = Inr junk" and "length junk \<le> 1195"
  shows "\<exists>ps' packets groups. generate_WHOHAS io chunkfile outputfile ps = Inr (ps', rev packets) \<and>
    list_all2 asks_for packets groups \<and> concat groups = map snd es \<and>
    (\<forall>g \<in> set (butlast groups). length g = 50) \<and> length (last groups) < 50 \<and>
    ps_fm ps' = \<lparr>fm_init = True, fm_chunk_count = int (length es),
      fm_offset = Some (map (\<lambda>e. master_offset ms (snd e)) es), fm_top = int (length es),
      fm_timer = Some (replicate (length es) (io_now io)), fm_already_used = Some []\<rparr>"
proof -
  let ?line = "replicate 40 0 @ io_slack io" and ?dat = "take 1200 (io_data io)"
  obtain gs r where g: "request_groups [] (map snd es) = (gs, r)" by fastforce
  have line: "41 \<le> length ?line" using assms(6) by (cases "io_slack io") simp_all
  obtain line' dat' packets where w: "whohas_lines (io_stk io) (chunk_text es) ?line ?dat 0 0 [] =
        Inr (line', dat', 20 * length r, int (length es), rev packets, True)"
      "list_all2 asks_for packets gs" "length line' = length ?line" "length dat' = 1200"
      "take (20 * length r) dat' = concat r"
    using whohas_lines_text [OF assms(2) line, of ?dat "[]" "io_stk io" junk gs r 0 "[]"] assms(7-9) g
    by auto
  have part: "concat gs @ r = map snd es" "\<forall>g \<in> set gs. length g = 50" "length r < 50"
    using request_groups_partition [OF g] by simp_all
  have r20: "\<forall>h \<in> set r. length h = 20"
  proof -
    have "set r \<subseteq> set (map snd es)" unfolding part(1) [symmetric] by simp
    then show ?thesis using assms(2) by auto
  qed
  have offs: "offset_lines io (chunk_file (ps_config ps)) (chunk_text es) line' (replicate (length es) 0) 0 =
      Inr (map (\<lambda>e. master_offset ms (snd e)) es, int (length es))"
    using offset_lines_text [of es line' io "chunk_file (ps_config ps)" path ms "replicate (length es) 0" 0]
      assms(2-6) line w(3) by (simp add: master_offset_def)
  let ?dat2 = "dat'[20 * length r := 0]"
  have wr: "wr dat' (int (20 * length r)) 0 = Inr ?dat2"
  proof -
    have "in_range (int (20 * length r)) dat'" using w(4) part(3) by (simp add: in_range_def)
    moreover have "nat (int (20 * length r)) = 20 * length r" by simp
    ultimately show ?thesis by (simp only: wr_ok)
  qed
  have "take (20 * length r) ?dat2 = concat r" using w(5) by simp
  then obtain p where p: "init_packet (io_stk io) 0 (Some ?dat2) (20 * length r) = Inr p" "asks_for p r"
    using init_packet_asks [OF assms(8,9) _ r20, of ?dat2] part(3) by auto
  obtain ps' where "generate_WHOHAS io chunkfile outputfile ps = Inr (ps', rev (packets @ [p]))"
    "ps_fm ps' = \<lparr>fm_init = True, fm_chunk_count = int (length es),
      fm_offset = Some (map (\<lambda>e. master_offset ms (snd e)) es), fm_top = int (length es),
      fm_timer = Some (replicate (length es) (io_now io)), fm_already_used = Some []\<rparr>"
    using assms(1) w(1) offs wr p(1) by (simp add: generate_WHOHAS_def Let_def)
  moreover have "list_all2 asks_for (packets @ [p]) (gs @ [r])"
    using w(2) p(2) by (simp add: list_all2_appendI)
  moreover have "concat (gs @ [r]) = map snd es" "\<forall>g \<in> set (butlast (gs @ [r])). length g = 50"
      "length (last (gs @ [r])) < 50"
    using part by simp_all
  ultimately show ?thesis by blast
qed

text \<open>
  C20. A GET command asks for every chunk: on a chunk file as \<^verbatim>\<open>make_chunks\<close> prints it, the packets of
  \<^verbatim>\<open>generate_WHOHAS\<close>, in the order in which \<^verbatim>\<open>process_get\<close> broadcasts them, request exactly its hashes in
  order, fifty per packet and the rest in a last one; the file manager records the position of every
  chunk in the master file and a running timer for it.
\<close>

theorem generate_whohas_requests_all:
  assumes "io_fs io chunkfile = Some (chunk_text es)" and "\<forall>e \<in> set es. length (snd e) = 20"
    and "io_fs io (chunk_file (ps_config ps)) = Some (master_text path ms)" and "path_ok path"
    and "\<forall>m \<in> set ms. length (snd m) = 20" and "io_slack io \<noteq> []" and "1200 \<le> length (io_data io)"
    and "c_string (io_stk io) = Inr junk" and "length junk \<le> 1195"
  shows "\<exists>ps' packets groups. generate_WHOHAS io chunkfile outputfile ps = Inr (ps', rev packets) \<and>
    list_all2 asks_for packets groups \<and> concat groups = map snd es \<and>
    (\<forall>g \<in> set (butlast groups). length g = 50) \<and> length (last groups) < 50 \<and>
    ps_fm ps' = \<lparr>fm_init = True, fm_chunk_count = int (length es),
      fm_offset = Some (map (\<lambda>e. master_offset ms (snd e)) es), fm_top = int (length es),
      fm_timer = Some (replicate (length es) (io_now io)), fm_already_used = Some []\<rparr>"
  using assms by (rule generate_whohas_text)

theorem generate_whohas_requests_all_witness:
  "\<exists>ps' p. generate_WHOHAS example_io [104] [111] (example_peer [] initial_manager) = Inr (ps', [p]) \<and>
     asks_for p [replicate 20 1] \<and> fm_offset (ps_fm ps') = Some [0]"
proof -
  let ?es = "[(0, replicate 20 1)] :: (nat \<times> byte list) list"
  have "path_ok [97]" by (simp add: path_ok_def is_space_def)
  then obtain ps' packets groups where g: "generate_WHOHAS example_io [104] [111] (example_peer [] initial_manager) =
        Inr (ps', rev packets)" "list_all2 asks_for packets groups" "concat groups = map snd ?es"
      "\<forall>g \<in> set (butlast groups). length g = 50"
      "fm_offset (ps_fm ps') = Some (map (\<lambda>e. master_offset ?es (snd e)) ?es)"
    using generate_whohas_requests_all [of example_io "[104]" ?es "example_peer [] initial_manager" "[97]" ?es "[]" "[111]"]
    by (auto simp: example_io_def example_peer_def example_config_def c_string_def)
  have "groups = [[replicate 20 1]]"
  proof (cases groups rule: rev_cases)
    case (snoc gs g)
    have "gs = []"
    proof (rule ccontr)
      assume "gs \<noteq> []"
      then obtain a as where "gs = a # as" by (cases gs) auto
      then have "length a = 50" "length (concat groups) \<ge> length a" using g(4) snoc by auto
      then show False using g(3) by simp
    qed
    then show ?thesis using g(3) snoc by simp
  qed (use g(3) in simp)
  then obtain p where "packets = [p]" "asks_for p [replicate 20 1]"
    using g(2) by (auto simp: list_all2_Cons2)
  then show ?thesis using g(1,5) by (auto simp: master_offset_def)
qed


section \<open>Answers to a request\<close>

text \<open>
  \<open>download_started\<close>: the peer after it accepted a chunk from a node, with a fresh buffer, an entry in
  the list of owners and the chunk's timer restarted. \<open>get_pkt\<close> is the GET packet for a hash.
\<close>

definition download_started :: "io \<Rightarrow> int \<Rightarrow> bt_peer_t \<Rightarrow> int \<Rightarrow> peer_st \<Rightarrow> peer_st" where
  "download_started io off node sockfd ps =
     (let fm = ps_fm ps; offsets = (case manager_offsets fm of Inr os \<Rightarrow> os | Inl _ \<Rightarrow> [])
      in ps\<lparr>ps_recv := fresh_buffer (io_content io) off sockfd # ps_recv ps,
        ps_fm := fm\<lparr>
          fm_already_used := map_option ((#) \<lparr>co_offset = off, co_address = peer_addr node\<rparr>) (fm_already_used fm),
          fm_timer := map_option (\<lambda>ts. ts[index_of off offsets := io_now io]) (fm_timer fm)\<rparr>\<rparr>)"

definition get_pkt :: "byte list \<Rightarrow> data_packet_t" where
  "get_pkt h = \<lparr>header = hdr_swap (host_header 2 36 0 0), data = h @ replicate 1180 0\<rparr>"

definition busy_with :: "int \<Rightarrow> int \<Rightarrow> peer_st \<Rightarrow> bool" where
  "busy_with sockfd off ps \<longleftrightarrow>
     (\<exists>b \<in> set (ps_recv ps). (rb_socket b = sockfd \<or> rb_offset b = off) \<and> rb_busy b)"

text \<open>
  \<open>manager_ready\<close>: a download is set up, with one timer per chunk of the list \<open>offsets\<close>.
\<close>

definition manager_ready :: "int list \<Rightarrow> file_manager_t \<Rightarrow> bool" where
  "manager_ready offsets fm \<longleftrightarrow> manager_offsets fm = Inr offsets \<and>
     (\<exists>used ts. fm_already_used fm = Some used \<and> fm_timer fm = Some ts \<and> length ts = length offsets)"

lemma manager_offsets_frame [simp]:
  "manager_offsets (fm\<lparr>fm_already_used := u\<rparr>) = manager_offsets fm"
  "manager_offsets (fm\<lparr>fm_timer := t\<rparr>) = manager_offsets fm"
  by (simp_all add: manager_offsets_def split: option.split)

lemma index_of_less: "x \<in> set xs \<Longrightarrow> index_of x xs < length xs"
  by (induction xs) auto

lemma ihave_step_result:
  assumes "io_fs io (chunk_file (ps_config ps)) = Some (master_text path ms)" "path_ok path"
    "\<forall>m \<in> set ms. length (snd m) = 20" "io_slack io \<noteq> []"
    "List.find (\<lambda>n. peer_id n = sockfd) (peers (ps_config ps)) = Some node"
    "manager_ready offsets (ps_fm ps)" "length h = 20"
    "master_offset ms h = -1 \<or> master_offset ms h \<in> set offsets"
  shows "ihave_step io sockfd h ps ret =
    Inr (if master_offset ms h = -1 \<or> busy_with sockfd (master_offset ms h) ps then (ps, ret)
         else (download_started io (master_offset ms h) node sockfd ps, get_pkt h # ret))"
proof -
  let ?off = "master_offset ms h"
  have off: "get_off_set_from_master_chunkfile (io_slack io) (io_fs io) (chunk_file (ps_config ps)) h = Inr ?off"
    using assms(1-4) master_offset_text [of "io_fs io" _ path ms "io_slack io" h]
    by (simp add: master_offset_def)
  obtain used ts where fm: "manager_offsets (ps_fm ps) = Inr offsets" "fm_already_used (ps_fm ps) = Some used"
      "fm_timer (ps_fm ps) = Some ts" "length ts = length offsets"
    using assms(6) by (auto simp: manager_ready_def)
  show ?thesis
  proof (cases "?off = -1 \<or> busy_with sockfd ?off ps")
    case True
    then show ?thesis
      using off assms(5) fm(2) by (auto simp: ihave_step_def init_recv_buffer_def busy_with_def)
  next
    case False
    have "in_range (int (index_of ?off offsets)) ts"
      using assms(8) False fm(4) index_of_less [of ?off offsets] by (auto simp: in_range_def)
    moreover have "init_recv_buffer (io_content io) ?off sockfd (ps_recv ps) =
        (fresh_buffer (io_content io) ?off sockfd # ps_recv ps, 1)"
      using False by (auto simp: init_recv_buffer_def busy_with_def)
    moreover have "init_packet (io_stk io) 2 (Some h) 20 = Inr (get_pkt h)"
      using assms(7) by (simp add: init_packet_plain get_pkt_def)
    ultimately show ?thesis
      using off assms(5) fm False
      by (simp add: ihave_step_def touch_timer_def download_started_def Let_def)
  qed
qed

lemma ihave_step_skip:
  assumes "io_fs io (chunk_file (ps_config ps)) = Some (master_text path ms)" "path_ok path"
    "\<forall>m \<in> set ms. length (snd m) = 20" "io_slack io \<noteq> []"
    "List.find (\<lambda>n. peer_id n = sockfd) (peers (ps_config ps)) = Some node"
    "manager_ready offsets (ps_fm ps)" "\<forall>off. busy_with sockfd off ps"
    "\<forall>j < n. \<exists>h. packet_hash p (i + j) = Inr h \<and> (master_offset ms h = -1 \<or> master_offset ms h \<in> set offsets)"
  shows "ihave_loop io sockfd p n i ps ret = Inr (ps, ret)"
  using assms(8)
proof (induction n arbitrary: i)
  case (Suc n)
  obtain h where h: "packet_hash p i = Inr h" "master_offset ms h = -1 \<or> master_offset ms h \<in> set offsets"
    using Suc.prems by (metis add_0_right zero_less_Suc)
  have "ihave_step io sockfd h ps ret = Inr (ps, ret)"
    using ihave_step_result [of io ps path ms sockfd node offsets h ret] assms(1-7) h length_packet_hash [OF h(1)]
    by simp
  moreover have "ihave_loop io sockfd p n (Suc i) ps ret = Inr (ps, ret)"
    using Suc.prems by (intro Suc.IH) (metis Suc_less_eq add_Suc_shift)
  ultimately show ?case using h(1) by simp
qed simp

lemma ihave_loop_result:
  assumes "io_fs io (chunk_file (ps_config ps)) = Some (master_text path ms)" "path_ok path"
    "\<forall>m \<in> set ms. length (snd m) = 20" "io_slack io \<noteq> []"
    "List.find (\<lambda>n. peer_id n = sockfd) (peers (ps_config ps)) = Some node"
    "manager_ready offsets (ps_fm ps)"
    "\<forall>j < length hs. packet_hash p (i + j) = Inr (hs ! j)"
    "\<forall>h \<in> set hs. master_offset ms h = -1 \<or> master_offset ms h \<in> set offsets"
  shows "ihave_loop io sockfd p (length hs) i ps [] =
    Inr (case List.find (\<lambda>h. master_offset ms h \<noteq> -1 \<and> \<not> busy_with sockfd (master_offset ms h) ps) hs of
           None \<Rightarrow> (ps, [])
         | Some h \<Rightarrow> (download_started io (master_offset ms h) node sockfd ps, [get_pkt h]))"
  using assms(7,8)
proof (induction hs arbitrary: i)
  case (Cons h hs)
  have h: "packet_hash p i = Inr h" using Cons.prems(1) by force
  have tl: "\<forall>j < length hs. packet_hash p (Suc i + j) = Inr (hs ! j)"
    using Cons.prems(1) by (auto dest: spec [of _ "Suc _"])
  note step = ihave_step_result [OF assms(1-6) length_packet_hash [OF h], of "[]"]
  show ?case
  proof (cases "master_offset ms h = -1 \<or> busy_with sockfd (master_offset ms h) ps")
    case True
    have "ihave_step io sockfd h ps [] = Inr (ps, [])"
      using True Cons.prems(2) step by simp
    moreover note Cons.IH [OF tl]
    ultimately show ?thesis using Cons.prems(2) h True by auto
  next
    case False
    let ?ps = "download_started io (master_offset ms h) node sockfd ps"
    have s: "ihave_step io sockfd h ps [] = Inr (?ps, [get_pkt h])"
      using False Cons.prems(2) step by simp
    have "manager_ready offsets (ps_fm ?ps)"
      using assms(6) by (auto simp: manager_ready_def download_started_def Let_def)
    moreover have "\<forall>off. busy_with sockfd off ?ps"
      by (simp add: busy_with_def download_started_def fresh_buffer_def Let_def)
    moreover have "\<forall>j < length hs. \<exists>h. packet_hash p (Suc i + j) = Inr h \<and>
        (master_offset ms h = -1 \<or> master_offset ms h \<in> set offsets)"
      using tl Cons.prems(2) by auto
    moreover have "ps_config ?ps = ps_config ps" by (simp add: download_started_def Let_def)
    ultimately have "ihave_loop io sockfd p (length hs) (Suc i) ?ps [get_pkt h] = Inr (?ps, [get_pkt h])"
      using ihave_step_skip [of io ?ps path ms sockfd node offsets "length hs" p "Suc i" "[get_pkt h]"] assms(1-5)
      by simp
    then show ?thesis using h s False by simp
  qed
qed simp

text \<open>
  C22. An IHAVE packet starts at most one download: of the hashes it lists the first that the master file
  knows and that is not being fetched already is requested with a GET from the peer that sent it,
  unless that peer is already serving a chunk; its buffer, its timer and its owner are recorded. The comment in
  the loop announces a GET packet for each hash; after the first, \<^verbatim>\<open>init_recv_buffer\<close> refuses the others, because the
  peer is busy.
\<close>

theorem ihave_starts_one_download:
  assumes "packet_type (header p) = 1" and "packet_count p = Inr (int (length hs))"
    and "\<forall>j < length hs. packet_hash p j = Inr (hs ! j)"
    and "io_fs io (chunk_file (ps_config ps)) = Some (master_text path ms)" and "path_ok path"
    and "\<forall>m \<in> set ms. length (snd m) = 20" and "io_slack io \<noteq> []"
    and "List.find (\<lambda>n. peer_id n = sockfd) (peers (ps_config ps)) = Some node"
    and "manager_ready offsets (ps_fm ps)"
    and "\<forall>h \<in> set hs. master_offset ms h = -1 \<or> master_offset ms h \<in> set offsets"
  shows "handle_packet io p sockfd ps =
    Inr (case List.find (\<lambda>h. master_offset ms h \<noteq> -1 \<and> \<not> busy_with sockfd (master_offset ms h) ps) hs of
           None \<Rightarrow> (ps, [])
         | Some h \<Rightarrow> (download_started io (master_offset ms h) node sockfd ps, [get_pkt h]))"
  using ihave_loop_result [OF assms(4-9), of hs "pkt_swap p" 0] assms(1-3,10)
  by (simp add: handle_packet_def handle_ihave_def Let_def)

definition example_offer :: data_packet_t where
  "example_offer = \<lparr>header = hdr_swap (host_header 1 60 0 0),
     data = [2, 1, 1, 1] @ replicate 20 2 @ replicate 20 1 @ replicate 1440 0\<rparr>"

theorem ihave_starts_one_download_witness:
  "handle_packet example_io example_offer 7 (example_peer [] (one_chunk 0)) =
     Inr (download_started example_io 0 (hd (peers example_config)) 7 (example_peer [] (one_chunk 0)),
       [get_pkt (replicate 20 1)])"
proof -
  let ?hs = "[replicate 20 2, replicate 20 1] :: byte list list"
  have d: "length (data example_offer) = 1484" by (simp add: example_offer_def)
  have h: "packet_hash example_offer 0 = Inr (replicate 20 2)"
      "packet_hash example_offer 1 = Inr (replicate 20 1)"
    by (simp_all add: packet_hash_def d) (simp_all add: example_offer_def)
  then have hs: "\<forall>j < length ?hs. packet_hash example_offer j = Inr (?hs ! j)"
    by (simp add: All_less_Suc numeral_2_eq_2)
  have c: "packet_count example_offer = Inr (int (length ?hs))"
    by (simp add: packet_count_def example_offer_def in_range_def)
  have m: "master_offset [(0, replicate 20 1)] (replicate 20 2) = -1"
    "master_offset [(0, replicate 20 1)] (replicate 20 1) = 0"
    by (simp_all add: master_offset_def replicate_eq_replicate)
  have r: "manager_ready [0] (one_chunk 0)"
    by (simp add: manager_ready_def one_chunk_def manager_offsets_def)
  have n: "\<not> busy_with 7 0 (example_peer [] (one_chunk 0))"
    by (simp add: busy_with_def example_peer_def)
  show ?thesis
    using ihave_starts_one_download [OF _ c hs, of example_io "example_peer [] (one_chunk 0)" "[97]"
        "[(0, replicate 20 1)]" 7 "hd (peers example_config)" "[0]"] m r n
    by (simp add: example_offer_def example_io_def example_peer_def example_config_def path_ok_def is_space_def)
qed


section \<open>Repeating a request\<close>

text \<open>
  \<open>stalled\<close>: a chunk that is incomplete and whose timer ran for more than ten seconds. \<open>release_all\<close>
  gives up the buffers of a set of chunks.
\<close>

definition stalled :: "io \<Rightarrow> recv_buffer_t list \<Rightarrow> int \<times> int \<Rightarrow> bool" where
  "stalled io l c \<longleftrightarrow> is_buffer_full (fst c) l \<noteq> 1 \<and> io_now io - snd c > 10"

definition release_all :: "int set \<Rightarrow> recv_buffer_t list \<Rightarrow> recv_buffer_t list" where
  "release_all offs l = map (\<lambda>b. if rb_offset b \<in> offs then b\<lparr>rb_busy := False\<rparr> else b) l"

definition master_hash :: "(nat \<times> byte list) list \<Rightarrow> int \<Rightarrow> byte list option" where
  "master_hash ms off = map_option snd (List.find (\<lambda>m. int (fst m) = off) ms)"

lemma release_all_release: "release_all offs (release_buffer off l) = release_all (insert off offs) l"
  by (auto simp: release_all_def release_buffer_def)

lemma release_all_empty [simp]: "release_all {} l = l"
  by (simp add: release_all_def)

lemma stalled_release [simp]: "stalled io (release_buffer off l) c = stalled io l c"
  by (simp add: stalled_def)

lemma get_hash_text:
  assumes "fs master = Some (master_text path ms)" "path_ok path"
    "\<forall>m \<in> set ms. length (snd m) = 20" "slack \<noteq> []"
  shows "get_hash_from_master_chunkfile slack fs master off = Inr (master_hash ms off)"
proof -
  obtain temp where t: "open_master slack (master_text path ms) =
        Inr (temp, path @ 0 # replicate (511 - length path) 0, chunk_text ms)"
      "length temp = 40 + length slack"
    using open_master_text [OF assms(2)] by blast
  have len: "41 \<le> length temp" using t(2) assms(4) by (cases slack) simp_all
  show ?thesis
    using hash_loop_chunk_text [OF assms(3) len, of "[]"] assms(1) t(1)
    by (simp add: get_hash_from_master_chunkfile_def master_hash_def)
qed

lemma master_hash_length:
  "\<forall>m \<in> set ms. length (snd m) = 20 \<Longrightarrow> master_hash ms off = Some h \<Longrightarrow> length h = 20"
  by (auto simp: master_hash_def dest!: find_Some_in_set)

lemma regenerate_loop_result:
  assumes "io_fs io (chunk_file (ps_config ps)) = Some (master_text path ms)" "path_ok path"
    "\<forall>m \<in> set ms. length (snd m) = 20" "io_slack io \<noteq> []"
    "c_string (io_stk io) = Inr junk" "length junk \<le> 1195"
    "\<forall>off \<in> set offs. master_hash ms off \<noteq> None" "length ts = i + length offs"
    "l = ps_recv ps"
  shows "\<exists>packets. regenerate_loop io offs i (Some ts) ps ret =
      Inr (Some (take i ts @ map (\<lambda>c. if stalled io l c then io_now io else snd c) (zip offs (drop i ts))),
        ps\<lparr>ps_recv := release_all (fst ` set (filter (stalled io l) (zip offs (drop i ts)))) l\<rparr>,
        rev packets @ ret) \<and>
    list_all2 asks_for packets
      (map (\<lambda>c. [the (master_hash ms (fst c))]) (filter (stalled io l) (zip offs (drop i ts))))"
  using assms(1,7-9)
proof (induction offs arbitrary: i ts ps ret l)
  case (Cons off offs)
  have i: "in_range (int i) ts" "i < length ts" "drop i ts = ts ! i # drop (Suc i) ts"
    using Cons.prems(3) by (simp_all add: in_range_def Cons_nth_drop_Suc)
  show ?case
  proof (cases "stalled io l (off, ts ! i)")
    case True
    obtain h where h: "master_hash ms off = Some h" using Cons.prems(2) by auto
    have "length h = 20" using h assms(3) by (intro master_hash_length)
    then obtain p where p: "init_packet (io_stk io) 0 (Some h) 20 = Inr p" "asks_for p [h]"
      using init_packet_asks [OF assms(5,6), of "[h]" h] by auto
    let ?ts = "ts[i := io_now io]" and ?ps = "ps\<lparr>ps_recv := release_buffer off l\<rparr>"
    obtain packets where ih: "regenerate_loop io offs (Suc i) (Some ?ts) ?ps (p # ret) =
        Inr (Some (take (Suc i) ?ts @ map (\<lambda>c. if stalled io l c then io_now io else snd c)
               (zip offs (drop (Suc i) ?ts))),
          ?ps\<lparr>ps_recv := release_all (fst ` set (filter (stalled io l) (zip offs (drop (Suc i) ?ts))))
            (release_buffer off l)\<rparr>,
          rev packets @ p # ret)"
        "list_all2 asks_for packets
          (map (\<lambda>c. [the (master_hash ms (fst c))]) (filter (stalled io l) (zip offs (drop (Suc i) ?ts))))"
      using Cons.IH [of ?ps ?ts "Suc i" "release_buffer off l" "p # ret"] Cons.prems by auto
    have "regenerate_loop io (off # offs) i (Some ts) ps ret =
        regenerate_loop io offs (Suc i) (Some ?ts) ?ps (p # ret)"
      using True i(1) p(1) Cons.prems(1,4) assms(2-4) get_hash_text [of "io_fs io" _ path ms "io_slack io" off] h
      by (simp add: stalled_def)
    moreover have "take (Suc i) ?ts = take i ts @ [io_now io]" "drop (Suc i) ?ts = drop (Suc i) ts"
      using i(2) by (simp_all add: take_Suc_conv_app_nth)
    ultimately show ?thesis
      using ih True i(3) p(2) h
      by (intro exI [of _ "p # packets"]) (simp add: release_all_release)
  next
    case False
    obtain packets where ih: "regenerate_loop io offs (Suc i) (Some ts) ps ret =
        Inr (Some (take (Suc i) ts @ map (\<lambda>c. if stalled io l c then io_now io else snd c)
               (zip offs (drop (Suc i) ts))),
          ps\<lparr>ps_recv := release_all (fst ` set (filter (stalled io l) (zip offs (drop (Suc i) ts)))) l\<rparr>,
          rev packets @ ret)"
        "list_all2 asks_for packets
          (map (\<lambda>c. [the (master_hash ms (fst c))]) (filter (stalled io l) (zip offs (drop (Suc i) ts))))"
      using Cons.IH [of ps ts "Suc i" l ret] Cons.prems by auto
    have "regenerate_loop io (off # offs) i (Some ts) ps ret = regenerate_loop io offs (Suc i) (Some ts) ps ret"
      using False i(1) Cons.prems(4) by (auto simp: stalled_def)
    moreover have "take (Suc i) ts = take i ts @ [ts ! i]" using i(2) by (simp add: take_Suc_conv_app_nth)
    ultimately show ?thesis using ih False i(3) by auto
  qed
qed simp

text \<open>
  C23. Chunks that stall are requested again: \<^verbatim>\<open>re_generateWhohas\<close> sends one request for every chunk of
  the download that is incomplete and has not been heard of for ten seconds, frees its buffer for
  another peer and restarts its timer; the other chunks are left alone.
\<close>

theorem stalled_chunks_requested_again:
  assumes "fm_init (ps_fm ps)" and "manager_offsets (ps_fm ps) = Inr offs"
    and "fm_timer (ps_fm ps) = Some ts" and "length ts = length offs"
    and "io_fs io (chunk_file (ps_config ps)) = Some (master_text path ms)" and "path_ok path"
    and "\<forall>m \<in> set ms. length (snd m) = 20" and "io_slack io \<noteq> []"
    and "c_string (io_stk io) = Inr junk" and "length junk \<le> 1195"
    and "\<forall>off \<in> set offs. master_hash ms off \<noteq> None"
    and "late = filter (stalled io (ps_recv ps)) (zip offs ts)"
  shows "\<exists>packets. re_generateWhohas io ps =
      Inr (ps\<lparr>ps_recv := release_all (fst ` set late) (ps_recv ps),
          ps_fm := (ps_fm ps)\<lparr>fm_timer := Some (map (\<lambda>c. if stalled io (ps_recv ps) c then io_now io else snd c)
            (zip offs ts))\<rparr>\<rparr>, rev packets) \<and>
    list_all2 asks_for packets (map (\<lambda>c. [the (master_hash ms (fst c))]) late)"
  using regenerate_loop_result [OF assms(5-11), of ts 0 "ps_recv ps" "[]"] assms(1-4,12)
  by (auto simp: re_generateWhohas_def)

theorem stalled_chunks_requested_again_witness:
  "\<exists>ps p. re_generateWhohas example_io (example_peer [example_buffer] (one_chunk 0)) = Inr (ps, [p]) \<and>
     asks_for p [replicate 20 1] \<and> \<not> busy_with 7 0 ps"
proof -
  let ?ps = "example_peer [example_buffer] (one_chunk 0)" and ?ms = "[(0, replicate 20 1)]"
  have h: "master_hash ?ms 0 = Some (replicate 20 1)" by (simp add: master_hash_def)
  have e: "rb_offset example_buffer = 0" "rb_total_recv example_buffer = 0"
    by (simp_all add: example_buffer_def fresh_buffer_def)
  have s: "[(0, 0)] = filter (stalled example_io (ps_recv ?ps)) (zip [0] [0])"
    using e by (simp add: stalled_def example_io_def example_peer_def is_buffer_full_iff)
  have r: "manager_offsets (one_chunk 0) = Inr [0]" by (simp add: one_chunk_def manager_offsets_def)
  obtain packets where "re_generateWhohas example_io ?ps =
      Inr (?ps\<lparr>ps_recv := release_all (fst ` set [(0, 0)]) (ps_recv ?ps),
          ps_fm := (ps_fm ?ps)\<lparr>fm_timer := Some (map (\<lambda>c. if stalled example_io (ps_recv ?ps) c
            then io_now example_io else snd c) (zip [0] [0]))\<rparr>\<rparr>, rev packets)"
      "list_all2 asks_for packets (map (\<lambda>c. [the (master_hash ?ms (fst c))]) [(0, 0)])"
    using stalled_chunks_requested_again [of ?ps "[0]" "[0]" example_io "[97]" ?ms "[]", OF _ _ _ _ _ _ _ _ _ _ _ s] h r
    by (auto simp: example_peer_def one_chunk_def example_io_def example_config_def path_ok_def is_space_def c_string_def)
  then show ?thesis
    using h e by (auto simp: list_all2_Cons2 busy_with_def release_all_def example_peer_def)
qed


end
