(* ===== verification/ChunkTransfer.thy ===== *)
theory ChunkTransfer
  imports Sender FileManager
begin

text \<open>
  One chunk on its way from the peer that has it to the peer that wants it: the sender half and the
  receiver half of \<^verbatim>\<open>flow_control.c\<close> connected by the path of a datagram through \<^verbatim>\<open>peer.c\<close> and
  \<^verbatim>\<open>packet.c\<close>, over a network that may lose, duplicate, delay and reorder datagrams.

  \<open>chunk_transfer\<close> states what the two halves promise each other; the invariant of the system is
  proved from these laws alone, and the laws are then proved of the code's functions.
\<close>

section \<open>The path of a datagram\<close>

text \<open>
  \<open>to_wire\<close>: the conversion and the \<^verbatim>\<open>spiffy_sendto\<close> in \<^verbatim>\<open>process_inbound_udp\<close>. \<open>from_wire\<close>: the
  receive buffer (with its stale bytes \<open>buf\<close>), the cast, and the conversion in \<^verbatim>\<open>handle_packet\<close>.
\<close>

definition to_wire :: "data_packet_t \<Rightarrow> byte list res" where
  "to_wire p = sendto_bytes (seq_ack_swap p)"

definition from_wire :: "byte list \<Rightarrow> byte list \<Rightarrow> data_packet_t" where
  "from_wire buf msg = pkt_swap (build_packet_from_buf (recvfrom_into buf msg))"

fun all_to_wire :: "data_packet_t list \<Rightarrow> byte list list res" where
  "all_to_wire [] = Inr []"
| "all_to_wire (p # ps) = rbind (to_wire p) (\<lambda>m. rbind (all_to_wire ps) (\<lambda>ms. Inr (m # ms)))"

definition wire_image :: "header_t \<Rightarrow> byte list \<Rightarrow> byte list" where
  "wire_image h d = take (unat (packet_len h)) (packet_bytes \<lparr>header = hdr_swap h, data = d\<rparr>)"

lemma to_wire_host:
  assumes "n \<le> 16 + length d" "n < 65536"
  shows "to_wire \<lparr>header = hdr_swap (host_header t n (htonl s) (htonl a)), data = d\<rparr> =
    Inr (wire_image (host_header t n s a) d)"
proof -
  have "unat (of_nat n :: 16 word) = n" using assms(2) by (simp add: unat_of_nat)
  with assms show ?thesis
    by (simp add: to_wire_def seq_ack_swap_host sendto_bytes_def Let_def wire_image_def)
qed

lemma from_wire_host:
  assumes "16 \<le> n" "n \<le> 16 + length d" "n \<le> length buf" "n < 65536"
  shows "from_wire buf (wire_image (host_header t n s a) d) =
    \<lparr>header = host_header t n s a, data = take (n - 16) d @ drop n buf\<rparr>"
proof -
  have "unat (of_nat n :: 16 word) = n" using assms(4) by (simp add: unat_of_nat)
  with assms show ?thesis
    by (simp add: from_wire_def wire_image_def recvfrom_into_def build_packet_take min_def pkt_swap_def)
qed

text \<open>The two kinds of datagram of a transfer.\<close>

definition data_msg :: "byte list \<Rightarrow> nat \<Rightarrow> byte list" where
  "data_msg F k = wire_image (host_header 3 1040 (word_of_int (int k + 1)) 0)
     (chunk_slice F k @ replicate 176 0)"

definition ack_msg :: "int \<Rightarrow> byte list" where
  "ack_msg a = wire_image (host_header 4 16 0 (word_of_int a)) (replicate 1200 0)"

lemma to_wire_data_pkt:
  assumes "length F = 524288" "k < 512"
  shows "to_wire (data_pkt F k) = Inr (data_msg F k)"
  using to_wire_host [of 1040 "chunk_slice F k @ replicate 176 0" 3 "word_of_int (int k + 1)" 0]
    length_chunk_slice [OF assms]
  by (simp add: data_pkt_def data_msg_def)

lemma to_wire_ack_pkt: "to_wire (ack_pkt a) = Inr (ack_msg a)"
  using to_wire_host [of 16 "replicate 1200 0" 4 0 "word_of_int a"]
  by (simp add: ack_pkt_def ack_msg_def)

lemma all_to_wire_data:
  assumes "length F = 524288" "set ps \<subseteq> data_pkt F ` {k. k < 512}"
  shows "\<exists>ms. all_to_wire ps = Inr ms \<and> set ms \<subseteq> data_msg F ` {k. k < 512}"
  using assms(2)
proof (induction ps)
  case (Cons p ps)
  then obtain k ms where "p = data_pkt F k" "k < 512" "all_to_wire ps = Inr ms"
      "set ms \<subseteq> data_msg F ` {k. k < 512}"
    by auto
  then show ?case using to_wire_data_pkt [OF assms(1)] by auto
qed simp

lemma from_wire_data_msg:
  assumes "length F = 524288" "k < 512" "length buf = 1500"
  shows "from_wire buf (data_msg F k) =
    \<lparr>header = host_header 3 1040 (word_of_int (int k + 1)) 0, data = chunk_slice F k @ drop 1040 buf\<rparr>"
  using assms length_chunk_slice [OF assms(1,2)]
    from_wire_host [of 1040 "chunk_slice F k @ replicate 176 0" buf]
  by (simp add: data_msg_def)

lemma from_wire_ack_msg:
  assumes "length buf = 1500"
  shows "from_wire buf (ack_msg a) =
    \<lparr>header = host_header 4 16 0 (word_of_int a), data = drop 16 buf\<rparr>"
  using assms from_wire_host [of 16 "replicate 1200 0" buf] by (simp add: ack_msg_def)

lemma carries_data_msg:
  assumes "length F = 524288" "k < 512" "length buf = 1500"
  shows "carries F k (from_wire buf (data_msg F k))"
proof -
  have "sint (word_of_int (int k + 1) :: 32 word) = int k + 1"
    using assms(2) by (intro sint_small) auto
  moreover have "payload_len (host_header 3 1040 s 0) = 1024" for s
    by (simp add: payload_len_def)
  ultimately show ?thesis
    using length_chunk_slice [OF assms(1,2)]
    by (simp add: from_wire_data_msg [OF assms] carries_def)
qed

section \<open>Two peers and a network\<close>

text \<open>
  \<open>data_net\<close> and \<open>ack_net\<close> hold every datagram ever sent. A step delivers one of them, which stays:
  a datagram may arrive never, late, out of order or many times. Retransmissions send datagrams that
  are there already. \<open>tick\<close> stands for what the sender does without a datagram (timers, losses).
\<close>

record ('s, 'r) sys =
  sndr :: 's
  rcvr :: 'r
  data_net :: "byte list set"
  ack_net :: "byte list set"

inductive sys_step ::
  "('e \<Rightarrow> byte list \<Rightarrow> 's \<Rightarrow> ('s \<times> byte list list) res) \<Rightarrow>
   ('e \<Rightarrow> byte list \<Rightarrow> 'r \<Rightarrow> ('r \<times> byte list list) res) \<Rightarrow>
   ('t \<Rightarrow> 's \<Rightarrow> 's) \<Rightarrow> ('e \<Rightarrow> bool) \<Rightarrow> ('s, 'r) sys \<Rightarrow> ('s, 'r) sys \<Rightarrow> bool"
  for on_ack on_data tick env_ok where
  deliver_data: "env_ok e \<Longrightarrow> m \<in> data_net s \<Longrightarrow> on_data e m (rcvr s) = Inr (r, ms) \<Longrightarrow>
    sys_step on_ack on_data tick env_ok s (s\<lparr>rcvr := r, ack_net := ack_net s \<union> set ms\<rparr>)"
| deliver_ack: "env_ok e \<Longrightarrow> m \<in> ack_net s \<Longrightarrow> on_ack e m (sndr s) = Inr (x, ms) \<Longrightarrow>
    sys_step on_ack on_data tick env_ok s (s\<lparr>sndr := x, data_net := data_net s \<union> set ms\<rparr>)"
| tick: "sys_step on_ack on_data tick env_ok s (s\<lparr>sndr := tick t (sndr s)\<rparr>)"

inductive_cases sys_stepE: "sys_step on_ack on_data tick env_ok s s'"

inductive sys_reach ::
  "('e \<Rightarrow> byte list \<Rightarrow> 's \<Rightarrow> ('s \<times> byte list list) res) \<Rightarrow>
   ('e \<Rightarrow> byte list \<Rightarrow> 'r \<Rightarrow> ('r \<times> byte list list) res) \<Rightarrow>
   ('t \<Rightarrow> 's \<Rightarrow> 's) \<Rightarrow> ('e \<Rightarrow> bool) \<Rightarrow> ('s, 'r) sys \<Rightarrow> ('s, 'r) sys \<Rightarrow> bool"
  for on_ack on_data tick env_ok s0 where
  start: "sys_reach on_ack on_data tick env_ok s0 s0"
| step: "sys_reach on_ack on_data tick env_ok s0 s \<Longrightarrow> sys_step on_ack on_data tick env_ok s s' \<Longrightarrow>
    sys_reach on_ack on_data tick env_ok s0 s'"

section \<open>What the two halves promise, and what follows\<close>

locale chunk_transfer =
  fixes on_ack :: "'e \<Rightarrow> byte list \<Rightarrow> 's \<Rightarrow> ('s \<times> byte list list) res"
    and on_data :: "'e \<Rightarrow> byte list \<Rightarrow> 'r \<Rightarrow> ('r \<times> byte list list) res"
    and tick :: "'t \<Rightarrow> 's \<Rightarrow> 's"
    and env_ok :: "'e \<Rightarrow> bool"
    and dmsg :: "nat \<Rightarrow> byte list"
    and amsg :: "int \<Rightarrow> byte list"
    and sender_ok :: "'s \<Rightarrow> bool"
    and acked :: "'s \<Rightarrow> nat set"
    and recv_ok :: "'r \<Rightarrow> bool"
    and got :: "'r \<Rightarrow> nat set"
  assumes on_ack_ok: "sender_ok s \<Longrightarrow> env_ok e \<Longrightarrow> 1 \<le> a \<Longrightarrow> a \<le> 1024 \<Longrightarrow>
      \<exists>s' ms. on_ack e (amsg a) s = Inr (s', ms) \<and> sender_ok s' \<and>
        set ms \<subseteq> dmsg ` {k. k < 512} \<and> acked s' \<subseteq> acked s \<union> {i. i < 512 \<and> int i < a}"
    and on_data_ok: "recv_ok r \<Longrightarrow> env_ok e \<Longrightarrow> k < 512 \<Longrightarrow>
      \<exists>r' a. on_data e (dmsg k) r = Inr (r', [amsg a]) \<and> recv_ok r' \<and> got r' = insert k (got r) \<and>
        1 \<le> a \<and> a \<le> 1024 \<and> (\<forall>i. 1 \<le> i \<and> i < 512 \<and> int i < a \<longrightarrow> i \<in> got r') \<and>
        (a < 512 \<longrightarrow> nat a \<notin> got r')"
    and tick_ok: "sender_ok s \<Longrightarrow> sender_ok (tick t s) \<and> acked (tick t s) = acked s"
begin

text \<open>
  \<open>cumulative r m\<close>: the acknowledgement \<open>m\<close> covers only packets that \<open>r\<close> has. \<open>started r m\<close>: the datagram
  \<open>m\<close> is a packet of the chunk, and not the first only if \<open>r\<close> has the first.
\<close>

definition cumulative :: "'r \<Rightarrow> byte list \<Rightarrow> bool" where
  "cumulative r m \<longleftrightarrow>
     (\<exists>a. m = amsg a \<and> 1 \<le> a \<and> a \<le> 1024 \<and> (\<forall>i < 512. int i < a \<longrightarrow> i \<in> got r))"

definition started :: "'r \<Rightarrow> byte list \<Rightarrow> bool" where
  "started r m \<longleftrightarrow> (\<exists>k < 512. m = dmsg k \<and> (k = 0 \<or> 0 \<in> got r))"

definition sys_inv :: "('s, 'r) sys \<Rightarrow> bool" where
  "sys_inv s \<longleftrightarrow> sender_ok (sndr s) \<and> recv_ok (rcvr s) \<and> acked (sndr s) \<subseteq> got (rcvr s) \<and>
     (\<forall>m \<in> data_net s. started (rcvr s) m) \<and> (\<forall>m \<in> ack_net s. cumulative (rcvr s) m)"

lemma data_step_inv:
  assumes "sys_inv s" "env_ok e" "m \<in> data_net s"
  shows "\<exists>r ms. on_data e m (rcvr s) = Inr (r, ms) \<and>
    sys_inv (s\<lparr>rcvr := r, ack_net := ack_net s \<union> set ms\<rparr>)"
proof -
  obtain k where k: "k < 512" "m = dmsg k" "k = 0 \<or> 0 \<in> got (rcvr s)"
    using assms unfolding sys_inv_def started_def by blast
  obtain r a where r: "on_data e (dmsg k) (rcvr s) = Inr (r, [amsg a])" "recv_ok r"
      "got r = insert k (got (rcvr s))" "1 \<le> a" "a \<le> 1024"
      "\<forall>i. 1 \<le> i \<and> i < 512 \<and> int i < a \<longrightarrow> i \<in> got r"
    using on_data_ok [OF _ assms(2) k(1)] assms(1) unfolding sys_inv_def by blast
  have zero: "0 \<in> got r" using k(3) r(3) by blast
  have mono: "got (rcvr s) \<subseteq> got r" using r(3) by blast
  have "i \<in> got r" if "i < 512" "int i < a" for i
    using that r(6) zero by (cases "i = 0") auto
  then have new: "cumulative r (amsg a)" using r(4,5) unfolding cumulative_def by blast
  have old: "cumulative r n" if "n \<in> ack_net s" for n
    using that assms(1) mono unfolding sys_inv_def cumulative_def by blast
  have "sys_inv (s\<lparr>rcvr := r, ack_net := ack_net s \<union> set [amsg a]\<rparr>)"
    unfolding sys_inv_def
  proof (intro conjI ballI)
    show "acked (sndr (s\<lparr>rcvr := r, ack_net := ack_net s \<union> set [amsg a]\<rparr>))
        \<subseteq> got (rcvr (s\<lparr>rcvr := r, ack_net := ack_net s \<union> set [amsg a]\<rparr>))"
      using assms(1) mono by (auto simp: sys_inv_def)
  next
    fix n assume "n \<in> data_net (s\<lparr>rcvr := r, ack_net := ack_net s \<union> set [amsg a]\<rparr>)"
    then show "started (rcvr (s\<lparr>rcvr := r, ack_net := ack_net s \<union> set [amsg a]\<rparr>)) n"
      using assms(1) zero by (auto simp: sys_inv_def started_def)
  qed (use assms(1) r(2) new old in \<open>auto simp: sys_inv_def\<close>)
  with r(1) k(2) show ?thesis by blast
qed

lemma ack_step_inv:
  assumes "sys_inv s" "env_ok e" "m \<in> ack_net s"
  shows "\<exists>x ms. on_ack e m (sndr s) = Inr (x, ms) \<and>
    sys_inv (s\<lparr>sndr := x, data_net := data_net s \<union> set ms\<rparr>)"
proof -
  obtain a where a: "m = amsg a" "1 \<le> a" "a \<le> 1024" "\<forall>i < 512. int i < a \<longrightarrow> i \<in> got (rcvr s)"
    using assms unfolding sys_inv_def cumulative_def by blast
  obtain x ms where x: "on_ack e (amsg a) (sndr s) = Inr (x, ms)" "sender_ok x"
      "set ms \<subseteq> dmsg ` {k. k < 512}" "acked x \<subseteq> acked (sndr s) \<union> {i. i < 512 \<and> int i < a}"
    using on_ack_ok [OF _ assms(2) a(2,3)] assms(1) unfolding sys_inv_def by blast
  have "0 \<in> got (rcvr s)" using a(2,4) by simp
  then have new: "started (rcvr s) n" if "n \<in> set ms" for n
    using that x(3) unfolding started_def by blast
  have "acked x \<subseteq> got (rcvr s)" using x(4) a(4) assms(1) unfolding sys_inv_def by blast
  then have "sys_inv (s\<lparr>sndr := x, data_net := data_net s \<union> set ms\<rparr>)"
    using x(2) new assms(1) by (auto simp: sys_inv_def)
  with x(1) a(1) show ?thesis by blast
qed

lemma step_inv: "sys_inv s \<Longrightarrow> sys_step on_ack on_data tick env_ok s s' \<Longrightarrow> sys_inv s'"
proof (erule sys_stepE)
  fix e m r ms
  assume "sys_inv s" "s' = s\<lparr>rcvr := r, ack_net := ack_net s \<union> set ms\<rparr>" "env_ok e"
    "m \<in> data_net s" "on_data e m (rcvr s) = Inr (r, ms)"
  then show "sys_inv s'" using data_step_inv [of s e m] by auto
next
  fix e m x ms
  assume "sys_inv s" "s' = s\<lparr>sndr := x, data_net := data_net s \<union> set ms\<rparr>" "env_ok e"
    "m \<in> ack_net s" "on_ack e m (sndr s) = Inr (x, ms)"
  then show "sys_inv s'" using ack_step_inv [of s e m] by auto
next
  fix t assume "sys_inv s" "s' = s\<lparr>sndr := tick t (sndr s)\<rparr>"
  then show "sys_inv s'" using tick_ok [of "sndr s" t] by (simp add: sys_inv_def)
qed

lemma reach_inv:
  assumes "sys_reach on_ack on_data tick env_ok s0 s" "sys_inv s0"
  shows "sys_inv s"
  using assms by (induction rule: sys_reach.induct) (auto intro: step_inv)

lemma reach_no_fault:
  assumes "sys_reach on_ack on_data tick env_ok s0 s" "sys_inv s0" "env_ok e"
  shows "m \<in> data_net s \<Longrightarrow> \<exists>x. on_data e m (rcvr s) = Inr x"
    and "m \<in> ack_net s \<Longrightarrow> \<exists>x. on_ack e m (sndr s) = Inr x"
  using data_step_inv [OF reach_inv [OF assms(1,2)] assms(3)]
    ack_step_inv [OF reach_inv [OF assms(1,2)] assms(3)] by blast+

lemma reach_acked_got:
  assumes "sys_reach on_ack on_data tick env_ok s0 s" "sys_inv s0"
  shows "acked (sndr s) \<subseteq> got (rcvr s)"
  using reach_inv [OF assms] by (simp add: sys_inv_def)

lemma reach_recv_ok:
  assumes "sys_reach on_ack on_data tick env_ok s0 s" "sys_inv s0"
  shows "recv_ok (rcvr s)"
  using reach_inv [OF assms] by (simp add: sys_inv_def)

end

text \<open>
  Progress: a sender that is \<open>ready n\<close> has all before \<open>n\<close> acknowledged and has sent packet \<open>n\<close>; the
  acknowledgement \<open>n + 1\<close> makes it ready for the next packet.
\<close>

locale chunk_progress =
  chunk_transfer on_ack on_data tick env_ok dmsg amsg sender_ok acked recv_ok got
  for on_ack :: "'e \<Rightarrow> byte list \<Rightarrow> 's \<Rightarrow> ('s \<times> byte list list) res"
    and on_data :: "'e \<Rightarrow> byte list \<Rightarrow> 'r \<Rightarrow> ('r \<times> byte list list) res"
    and tick :: "'t \<Rightarrow> 's \<Rightarrow> 's" and env_ok dmsg amsg sender_ok acked recv_ok got +
  fixes ready :: "nat \<Rightarrow> 's \<Rightarrow> bool"
    and sent :: "'s \<Rightarrow> nat set"
  assumes ready_sent: "ready n s \<Longrightarrow> n \<in> sent s"
    and ready_ok: "ready n s \<Longrightarrow> sender_ok s"
    and on_ack_progress: "ready n s \<Longrightarrow> env_ok e \<Longrightarrow> n < 511 \<Longrightarrow>
      \<exists>s' ms. on_ack e (amsg (int n + 1)) s = Inr (s', ms) \<and> ready (Suc n) s' \<and>
        (\<forall>k \<in> sent s'. k \<in> sent s \<or> dmsg k \<in> set ms)"
begin

definition at_packet :: "nat \<Rightarrow> ('s, 'r) sys \<Rightarrow> bool" where
  "at_packet n s \<longleftrightarrow> sys_inv s \<and> got (rcvr s) = {..<n} \<and>
     (n < 512 \<longrightarrow> ready n (sndr s) \<and> (\<forall>k \<in> sent (sndr s). dmsg k \<in> data_net s))"

lemma data_progress:
  assumes at: "at_packet n s" and n: "n < 512" and e: "env_ok e"
  shows "\<exists>r a. dmsg n \<in> data_net s \<and> on_data e (dmsg n) (rcvr s) = Inr (r, [amsg a]) \<and> got r = {..<Suc n} \<and>
    (n < 511 \<longrightarrow> a = int n + 1)"
proof -
  have inv: "sys_inv s" and rdy: "ready n (sndr s)"
    and net: "\<forall>k \<in> sent (sndr s). dmsg k \<in> data_net s" and got: "got (rcvr s) = {..<n}"
    using at n by (auto simp: at_packet_def)
  have m: "dmsg n \<in> data_net s" using net ready_sent [OF rdy] by blast
  obtain r a where r: "on_data e (dmsg n) (rcvr s) = Inr (r, [amsg a])"
      "got r = insert n (got (rcvr s))" "1 \<le> a"
      "\<forall>i. 1 \<le> i \<and> i < 512 \<and> int i < a \<longrightarrow> i \<in> got r" "a < 512 \<longrightarrow> nat a \<notin> got r"
    using on_data_ok [OF _ e n] inv unfolding sys_inv_def by blast
  have got': "got r = {..<Suc n}" unfolding r(2) got by auto
  have "a = int n + 1" if n': "n < 511"
  proof (rule antisym)
    show "a \<le> int n + 1"
    proof (rule ccontr)
      assume "\<not> a \<le> int n + 1"
      then have "Suc n \<in> got r" using r(4) n' by simp
      then show False by (simp add: got')
    qed
    show "int n + 1 \<le> a"
    proof (rule ccontr)
      assume "\<not> int n + 1 \<le> a"
      then have "nat a \<notin> got r" "nat a < Suc n" using r(3,5) n' by auto
      then show False by (simp add: got')
    qed
  qed
  with m r(1) got' show ?thesis by blast
qed

lemma next_packet:
  assumes at: "at_packet n s" and n: "n < 512" and e: "env_ok e"
  shows "\<exists>s'. sys_reach on_ack on_data tick env_ok s s' \<and> at_packet (Suc n) s'"
proof -
  have inv: "sys_inv s" and rdy: "ready n (sndr s)"
    and net: "\<forall>k \<in> sent (sndr s). dmsg k \<in> data_net s"
    using at n by (auto simp: at_packet_def)
  obtain r a where r: "dmsg n \<in> data_net s" "on_data e (dmsg n) (rcvr s) = Inr (r, [amsg a])" "got r = {..<Suc n}"
      "n < 511 \<longrightarrow> a = int n + 1"
    using data_progress [OF assms] by blast
  define s1 where "s1 = s\<lparr>rcvr := r, ack_net := ack_net s \<union> set [amsg a]\<rparr>"
  have st1: "sys_step on_ack on_data tick env_ok s s1"
    unfolding s1_def using e r(1,2) by (rule sys_step.deliver_data)
  have inv1: "sys_inv s1" using inv st1 by (rule step_inv)
  have reach1: "sys_reach on_ack on_data tick env_ok s s1"
    using sys_reach.start st1 by (rule sys_reach.step)
  show ?thesis
  proof (cases "n = 511")
    case True
    with inv1 r(3) have "at_packet (Suc n) s1" by (simp add: at_packet_def s1_def)
    with reach1 show ?thesis by blast
  next
    case False
    with n have n': "n < 511" by simp
    obtain x ms where x: "on_ack e (amsg (int n + 1)) (sndr s) = Inr (x, ms)" "ready (Suc n) x"
        "\<forall>k \<in> sent x. k \<in> sent (sndr s) \<or> dmsg k \<in> set ms"
      using on_ack_progress [OF rdy e n'] by blast
    define s2 where "s2 = s1\<lparr>sndr := x, data_net := data_net s1 \<union> set ms\<rparr>"
    have st2: "sys_step on_ack on_data tick env_ok s1 s2"
      unfolding s2_def using e x(1) r(4) n'
      by (intro sys_step.deliver_ack [of env_ok e "amsg a"]) (simp_all add: s1_def)
    have "at_packet (Suc n) s2"
      using step_inv [OF inv1 st2] r(3) x(2,3) net by (auto simp: at_packet_def s2_def s1_def)
    then show ?thesis using sys_reach.step [OF reach1 st2] by blast
  qed
qed

lemma reach_trans:
  "sys_reach on_ack on_data tick env_ok s t \<Longrightarrow> sys_reach on_ack on_data tick env_ok t u \<Longrightarrow>
     sys_reach on_ack on_data tick env_ok s u"
  by (rotate_tac 1, induction rule: sys_reach.induct) (auto intro: sys_reach.step)

lemma can_complete:
  assumes "at_packet 0 s" "env_ok e" "n \<le> 512"
  shows "\<exists>s'. sys_reach on_ack on_data tick env_ok s s' \<and> at_packet n s'"
  using assms(3)
proof (induction n)
  case 0
  then show ?case using assms(1) sys_reach.start by blast
next
  case (Suc n)
  then obtain t where "sys_reach on_ack on_data tick env_ok s t" "at_packet n t" by auto
  moreover then obtain u where "sys_reach on_ack on_data tick env_ok t u" "at_packet (Suc n) u"
    using next_packet [of n t e] Suc.prems assms(2) by auto
  ultimately show ?case using reach_trans by blast
qed

end

section \<open>The code's two halves keep the promises\<close>

text \<open>
  \<open>recv_datagram\<close> and \<open>ack_datagram\<close>: the DATA and the ACK branch of \<^verbatim>\<open>handle_packet\<close>, with the
  datagram as \<^verbatim>\<open>process_inbound_udp\<close> reads it and the responses as it sends them. The environment
  \<open>e\<close> gives the stale bytes of the receive buffer and the memory behind the array of packets.
\<close>

record env =
  env_buf :: "byte list"
  env_beyond :: "nat \<Rightarrow> bool option"

definition env_sane :: "env \<Rightarrow> bool" where
  "env_sane e \<longleftrightarrow> length (env_buf e) = 1500 \<and> readable (env_beyond e)"

definition recv_datagram ::
  "int \<Rightarrow> env \<Rightarrow> byte list \<Rightarrow> recv_buffer_t list \<Rightarrow> (recv_buffer_t list \<times> byte list list) res" where
  "recv_datagram node e msg l =
     (let p = from_wire (env_buf e) msg
      in if packet_type (header p) = 3 then
           rbind (recv_data (env_beyond e) p node l) (\<lambda>(l', acks, _).
           rbind (all_to_wire acks) (\<lambda>ms. Inr (l', ms)))
         else Inr (l, []))"

definition ack_datagram ::
  "int \<Rightarrow> env \<Rightarrow> byte list \<Rightarrow> sender_st \<times> packet_tracker_t list
     \<Rightarrow> ((sender_st \<times> packet_tracker_t list) \<times> byte list list) res" where
  "ack_datagram node e msg st =
     (let p = from_wire (env_buf e) msg
      in if packet_type (header p) = 4 then
           rbind (handle_ack node (sint (ack_num (header p) - 1)) (snd st) (fst st)) (\<lambda>(S', trk', ps).
           rbind (all_to_wire ps) (\<lambda>ms. Inr ((S', trk'), ms)))
         else Inr (st, []))"

datatype tick =
  Packet_Loss int
| Start_Timer packet_tracker_t data_packet_t int sockaddr_in int

fun do_tick :: "tick \<Rightarrow> sender_st \<times> packet_tracker_t list \<Rightarrow> sender_st \<times> packet_tracker_t list" where
  "do_tick (Packet_Loss n) st = (process_packet_loss n (fst st), snd st)"
| "do_tick (Start_Timer u p n from now) st = (fst st, create_timer u (snd st) p n from now)"

definition serving :: "int \<Rightarrow> byte list \<Rightarrow> sender_st \<times> packet_tracker_t list \<Rightarrow> bool" where
  "serving node F st \<longleftrightarrow>
     tracker_ok (snd st) \<and> (\<exists>d. session node (fst st) = Some d \<and> sender_wf F d)"

definition acked_by :: "int \<Rightarrow> sender_st \<times> packet_tracker_t list \<Rightarrow> nat set" where
  "acked_by node st =
     (case session node (fst st) of None \<Rightarrow> {} | Some d \<Rightarrow> {i. i < 512 \<and> d_state d ! i = ACKED})"

definition fetching :: "int \<Rightarrow> int \<Rightarrow> byte list \<Rightarrow> recv_buffer_t list \<Rightarrow> bool" where
  "fetching node off F l \<longleftrightarrow> length F = 524288 \<and>
     (\<exists>b. get_recv_by_socket node l = Some b \<and> rb_offset b = off \<and> recv_wf F b)"

text \<open>
  \<open>leads node off l\<close>: the first buffer of the chunk \<open>off\<close>, the one that \<^verbatim>\<open>copy_chunk_data\<close> reads, belongs to the
  transfer from \<open>node\<close>.
\<close>

definition leads :: "int \<Rightarrow> int \<Rightarrow> recv_buffer_t list \<Rightarrow> bool" where
  "leads node off l \<longleftrightarrow> List.find (\<lambda>k. snd k = off) (buffer_keys l) = Some (node, off)"

lemma leads_first:
  assumes "leads node off l" "get_recv_by_socket node l = Some b" "rb_offset b = off"
  shows "List.find (\<lambda>b. rb_offset b = off) l = Some b"
  using assms
proof (induction l)
  case (Cons x l)
  then show ?case by (cases "rb_socket x = node"; cases "rb_offset x = off")
      (auto simp: leads_def buffer_keys_def get_recv_by_socket_def)
qed (simp add: get_recv_by_socket_def)

lemma leads_holds: "leads node off l \<Longrightarrow> fetching node off F l \<Longrightarrow> holds_chunk l off F"
  using leads_first by (auto simp: fetching_def holds_chunk_def)

lemma leads_keys: "buffer_keys l' = buffer_keys l \<Longrightarrow> leads node off l' = leads node off l"
  by (simp add: leads_def)

definition got_from :: "int \<Rightarrow> recv_buffer_t list \<Rightarrow> nat set" where
  "got_from node l = (case get_recv_by_socket node l of None \<Rightarrow> {} | Some b \<Rightarrow> received b)"

lemma ack_datagram_ok:
  assumes "serving node F st" "env_sane e" "1 \<le> a" "a \<le> 1024"
  shows "\<exists>st' ms. ack_datagram node e (ack_msg a) st = Inr (st', ms) \<and> serving node F st' \<and>
    set ms \<subseteq> data_msg F ` {k. k < 512} \<and>
    acked_by node st' \<subseteq> acked_by node st \<union> {i. i < 512 \<and> int i < a}"
proof -
  obtain S trk where st: "st = (S, trk)" by (cases st)
  obtain d where d: "session node S = Some d" "sender_wf F d" "tracker_ok trk"
    using assms(1) by (auto simp: serving_def st)
  have F: "length F = 524288" using d(2) by (simp add: sender_wf_def)
  have len: "length (env_buf e) = 1500" using assms(2) by (simp add: env_sane_def)
  have "word_of_int a - 1 = (word_of_int (a - 1) :: 32 word)" by simp
  then have num: "sint (word_of_int a - 1 :: 32 word) = a - 1"
    using assms(3,4) sint_small [of "a - 1"] by simp
  show ?thesis
  proof (cases "a - 1 \<le> 512")
    case True
    obtain S' trk' ps where h: "handle_ack node (a - 1) trk S = Inr (S', trk', ps)"
        "ack_effect F node (a - 1) d S trk S' trk' ps"
      using handle_ack_effect [OF d, of "a - 1"] assms(3) True by auto
    obtain ms where ms: "all_to_wire ps = Inr ms" "set ms \<subseteq> data_msg F ` {k. k < 512}"
      using all_to_wire_data [OF F] h(2) unfolding ack_effect_def by blast
    have "ack_datagram node e (ack_msg a) st = Inr ((S', trk'), ms)"
      using h(1) ms(1) num by (simp add: ack_datagram_def from_wire_ack_msg [OF len] st)
    moreover have "serving node F (S', trk')"
      using h(2) by (auto simp: ack_effect_def serving_def)
    moreover have "acked_by node (S', trk') \<subseteq> acked_by node st \<union> {i. i < 512 \<and> int i < a}"
      using h(2) d(1) by (fastforce simp: ack_effect_def acked_by_def st)
    ultimately show ?thesis using ms(2) by blast
  next
    case False
    then have "ack_datagram node e (ack_msg a) st = Inr (st, [])"
      using num d(1)
      by (simp add: ack_datagram_def from_wire_ack_msg [OF len] st handle_ack_def layout_simps)
    with assms(1) show ?thesis by auto
  qed
qed

lemma recv_datagram_ok:
  assumes "fetching node off F l" "env_sane e" "k < 512"
  shows "\<exists>l' a. recv_datagram node e (data_msg F k) l = Inr (l', [ack_msg a]) \<and>
    fetching node off F l' \<and> got_from node l' = insert k (got_from node l) \<and> 1 \<le> a \<and> a \<le> 1024 \<and>
    (\<forall>i. 1 \<le> i \<and> i < 512 \<and> int i < a \<longrightarrow> i \<in> got_from node l') \<and>
    (a < 512 \<longrightarrow> nat a \<notin> got_from node l')"
proof -
  obtain b where F: "length F = 524288" and b: "get_recv_by_socket node l = Some b"
      "rb_offset b = off" "recv_wf F b"
    using assms(1) by (auto simp: fetching_def)
  have len: "length (env_buf e) = 1500" and rd: "readable (env_beyond e)"
    using assms(2) by (simp_all add: env_sane_def)
  let ?p = "from_wire (env_buf e) (data_msg F k)"
  obtain b' where b': "recv_data (env_beyond e) ?p node l =
        Inr (put_recv b' l, [ack_pkt (rb_expected b')], Some (rb_offset b))"
      "get_recv_by_socket node (put_recv b' l) = Some b'" "recv_effect F k b b'"
    using recv_data_ok [OF b(1,3) assms(3) carries_data_msg [OF F assms(3) len] rd] by blast
  have off: "rb_offset b' = off" using b'(3) b(2) by (simp add: recv_effect_def)
  have "packet_type (header ?p) = 3" by (simp add: from_wire_data_msg [OF F assms(3) len])
  then have "recv_datagram node e (data_msg F k) l =
      Inr (put_recv b' l, [ack_msg (rb_expected b')])"
    using b'(1) by (simp add: recv_datagram_def to_wire_ack_pkt)
  moreover have "fetching node off F (put_recv b' l)"
    using F b'(2,3) off by (simp add: fetching_def recv_effect_def)
  moreover have "got_from node (put_recv b' l) = insert k (got_from node l)"
    using b'(2,3) b(1) by (simp add: got_from_def recv_effect_def)
  moreover have "1 \<le> rb_expected b' \<and> rb_expected b' \<le> 1024 \<and>
      (\<forall>i. 1 \<le> i \<and> i < 512 \<and> int i < rb_expected b' \<longrightarrow> i \<in> got_from node (put_recv b' l)) \<and>
      (rb_expected b' < 512 \<longrightarrow> nat (rb_expected b') \<notin> got_from node (put_recv b' l))"
    using b'(2,3) by (auto simp: got_from_def recv_effect_def recv_wf_def)
  ultimately show ?thesis by blast
qed

lemma do_tick_ok:
  assumes "serving node F st"
  shows "serving node F (do_tick t st) \<and> acked_by node (do_tick t st) = acked_by node st"
proof (cases t)
  case (Packet_Loss n)
  obtain d where d: "session node (fst st) = Some d" "sender_wf F d"
    using assms by (auto simp: serving_def)
  show ?thesis
  proof (cases "n = node")
    case True
    with Packet_Loss assms d process_packet_loss_session [OF d] show ?thesis
      by (auto simp: serving_def acked_by_def)
  next
    case False
    with Packet_Loss assms show ?thesis
      by (simp add: serving_def acked_by_def process_packet_loss_other)
  qed
next
  case Start_Timer
  with assms show ?thesis by (simp add: serving_def acked_by_def create_timer_ok)
qed

interpretation ct: chunk_transfer "ack_datagram snode" "recv_datagram rnode" do_tick env_sane
  "data_msg F" ack_msg "serving snode F" "acked_by snode" "fetching rnode off F" "got_from rnode"
  for snode rnode off F
  by unfold_locales (rule ack_datagram_ok recv_datagram_ok do_tick_ok; assumption)+

section \<open>A transfer can be completed\<close>

definition sent_by :: "int \<Rightarrow> sender_st \<times> packet_tracker_t list \<Rightarrow> nat set" where
  "sent_by node st =
     (case session node (fst st) of None \<Rightarrow> {} | Some d \<Rightarrow> {k. k < 512 \<and> int k \<le> d_end d})"

definition ready_sender :: "int \<Rightarrow> byte list \<Rightarrow> nat \<Rightarrow> sender_st \<times> packet_tracker_t list \<Rightarrow> bool" where
  "ready_sender node F n st \<longleftrightarrow> n < 512 \<and> tracker_ok (snd st) \<and>
     (\<exists>d. session node (fst st) = Some d \<and> sender_wf F d \<and> d_start d = int n - 1 \<and>
       int n \<le> d_end d \<and> d_prev_ack d \<noteq> word_of_int (int n))"

lemma all_to_wire_map:
  "length F = 524288 \<Longrightarrow> (\<And>k. k \<in> set ks \<Longrightarrow> k < 512) \<Longrightarrow>
     all_to_wire (map (data_pkt F) ks) = Inr (map (data_msg F) ks)"
  by (induction ks) (simp_all add: to_wire_data_pkt)

lemma word_of_int_neq: "0 \<le> i \<Longrightarrow> i < 2 ^ 31 - 1 \<Longrightarrow> word_of_int i \<noteq> (word_of_int (i + 1) :: 32 word)"
  using sint_small [of i] sint_small [of "i + 1"] by auto

lemma ready_sender_progress:
  assumes rdy: "ready_sender node F n st" and e: "env_sane e" and n: "n < 511"
  shows "\<exists>st' ms. ack_datagram node e (ack_msg (int n + 1)) st = Inr (st', ms) \<and>
    ready_sender node F (Suc n) st' \<and>
    (\<forall>k \<in> sent_by node st'. k \<in> sent_by node st \<or> data_msg F k \<in> set ms)"
proof -
  obtain S trk where st: "st = (S, trk)" by (cases st)
  obtain d where d: "session node S = Some d" "sender_wf F d" "tracker_ok trk"
      "d_start d < int n" "int n \<le> d_end d" "d_prev_ack d \<noteq> word_of_int (int n)"
    using rdy by (auto simp: ready_sender_def st)
  have F: "length F = 524288" "d_end d \<le> 511" "-1 \<le> d_end d"
    using d(2) by (simp_all add: sender_wf_def)
  have len: "length (env_buf e) = 1500" using e by (simp add: env_sane_def)
  obtain S' trk' d' where h: "handle_ack node (int n) trk S = Inr (S', trk',
        rev (map (data_pkt F) [nat (d_end d + 1)..<nat (d_end d' + 1)]))"
      "session node S' = Some d'" "sender_wf F d'" "tracker_ok trk'" "d_start d' = int n"
      "d_prev_ack d' = word_of_int (int n)"
      "d_end d' = max (d_end d) (min 511 (int n + d_send_window d'))"
    using handle_ack_advances [OF d] by blast
  let ?ks = "rev [nat (d_end d + 1)..<nat (d_end d' + 1)]"
  have w: "1 \<le> d_send_window d'" "d_end d' \<le> 511" using h(3) by (simp_all add: sender_wf_def)
  have "k < 512" if "k \<in> set ?ks" for k using that w(2) by auto
  then have wire: "all_to_wire (map (data_pkt F) ?ks) = Inr (map (data_msg F) ?ks)"
    using F(1) by (intro all_to_wire_map)
  have "sint (word_of_int (int n + 1) - 1 :: 32 word) = int n"
    using n sint_small [of "int n"] by simp
  then have "ack_datagram node e (ack_msg (int n + 1)) st = Inr ((S', trk'), map (data_msg F) ?ks)"
    using h(1) wire by (simp add: ack_datagram_def from_wire_ack_msg [OF len] st rev_map)
  moreover have "ready_sender node F (Suc n) (S', trk')"
    using h w n word_of_int_neq [of "int n"]
    by (auto simp: ready_sender_def add.commute intro!: exI [of _ d'])
  moreover have "k \<in> sent_by node st \<or> data_msg F k \<in> set (map (data_msg F) ?ks)"
    if "k \<in> sent_by node (S', trk')" for k
    using that h(2) d(1) by (cases "int k \<le> d_end d") (auto simp: sent_by_def st intro!: imageI)
  ultimately show ?thesis by blast
qed

interpretation cp: chunk_progress "ack_datagram snode" "recv_datagram rnode" do_tick env_sane
  "data_msg F" ack_msg "serving snode F" "acked_by snode" "fetching rnode off F" "got_from rnode"
  "ready_sender snode F" "sent_by snode"
  for snode rnode off F
proof unfold_locales
  fix n and st :: "sender_st \<times> packet_tracker_t list"
  assume "ready_sender snode F n st"
  then show "n \<in> sent_by snode st" by (auto simp: ready_sender_def sent_by_def)
next
  fix n and st :: "sender_st \<times> packet_tracker_t list"
  assume "ready_sender snode F n st"
  then show "serving snode F st" by (auto simp: ready_sender_def serving_def)
qed (rule ready_sender_progress)

section \<open>The start of a transfer\<close>

text \<open>
  The GET branch of \<^verbatim>\<open>handle_packet\<close> (\<^verbatim>\<open>init_datalist\<close>, \<^verbatim>\<open>send_data\<close>) on one side and its IHAVE branch
  (\<^verbatim>\<open>init_recv_buffer\<close>) on the other.
\<close>

definition transfer_start ::
  "32 word \<Rightarrow> int \<Rightarrow> byte list \<Rightarrow> int \<Rightarrow> int \<Rightarrow> int \<Rightarrow> byte list
     \<Rightarrow> sender_st \<times> packet_tracker_t list \<Rightarrow> recv_buffer_t list
     \<Rightarrow> (sender_st \<times> packet_tracker_t list, recv_buffer_t list) sys res" where
  "transfer_start uninit_prev uninit_count uninit snode rnode off F st l =
     rbind (send_data snode (init_datalist uninit_prev uninit_count snode off (Some F) (fst st)))
       (\<lambda>(S', ps).
     rbind (all_to_wire ps) (\<lambda>ms.
     Inr \<lparr>sndr = (S', snd st), rcvr = fst (init_recv_buffer uninit off rnode l),
          data_net = set ms, ack_net = {}\<rparr>))"

definition fresh_session :: "32 word \<Rightarrow> int \<Rightarrow> int \<Rightarrow> int \<Rightarrow> byte list \<Rightarrow> data_t" where
  "fresh_session uninit_prev uninit_count node off F =
     hd (snd_list (init_datalist uninit_prev uninit_count node off (Some F)
       \<lparr>snd_list = [], wlog = []\<rparr>))"

lemma fresh_session_wf:
  "length F = 524288 \<Longrightarrow> sender_wf F (fresh_session p c node off F)"
  "d_start (fresh_session p c node off F) = -1" "d_end (fresh_session p c node off F) = -1"
  "d_send_window (fresh_session p c node off F) = 1" "d_socket (fresh_session p c node off F) = node"
  "d_prev_ack (fresh_session p c node off F) = p"
  "d_state (fresh_session p c node off F) = replicate 512 UNSEND"
  by (simp_all add: fresh_session_def init_datalist_def sender_wf_def layout_simps)

lemma init_datalist_push:
  "init_datalist p c node off (Some F) S = S\<lparr>snd_list := fresh_session p c node off F # snd_list S\<rparr>"
  by (simp add: fresh_session_def init_datalist_def)

lemma fresh_session_send:
  assumes "length F = 524288"
  shows "\<exists>d. send_session (fresh_session p c node off F) = Inr (d, [data_pkt F 0]) \<and> sender_wf F d \<and>
    d_socket d = node \<and> d_start d = -1 \<and> d_end d = 0 \<and> d_prev_ack d = p \<and>
    {i. i < 512 \<and> d_state d ! i = ACKED} = {}"
proof -
  let ?d = "fresh_session p c node off F"
  note wf = fresh_session_wf(1) [OF assms, of p c node off]
  have room: "window_room ?d = 1" by (simp add: window_room_def fresh_session_wf)
  note r = send_session_result [OF wf refl, unfolded room]
  show ?thesis
    using r send_session_wf [OF wf r]
    by (auto simp: fresh_session_wf blit_def nth_append nth_Cons split: nat.splits)
qed

lemma fresh_fetching:
  assumes "length F = 524288" "length uninit = 1500" "snd (init_recv_buffer uninit off node l) = 1"
  shows "fetching node off F (fst (init_recv_buffer uninit off node l)) \<and>
    got_from node (fst (init_recv_buffer uninit off node l)) = {}"
proof -
  have l: "fst (init_recv_buffer uninit off node l) = fresh_buffer uninit off node # l"
    using assms(3) by (auto simp: init_recv_buffer_def split: if_splits)
  have keys: "rb_socket (fresh_buffer uninit off node) = node"
    "rb_offset (fresh_buffer uninit off node) = off"
    by (simp_all add: fresh_buffer_def)
  show ?thesis
    using fresh_buffer_wf(1) [OF assms(2)] fresh_buffer_wf(2) [OF assms(2)] assms(1) keys
    by (simp add: l fetching_def got_from_def rcv.lookup_push)
qed

theorem transfer_start_result:
  assumes F: "length F = 524288" and u: "length uninit = 1500"
    and r: "snd (init_recv_buffer uninit off rnode l) = 1" and t: "tracker_ok (snd st)"
  shows "\<exists>s. transfer_start p c uninit snode rnode off F st l = Inr s \<and>
    data_net s = {data_msg F 0} \<and> ack_net s = {} \<and>
    serving snode F (sndr s) \<and> acked_by snode (sndr s) = {} \<and> sent_by snode (sndr s) = {0} \<and>
    fetching rnode off F (rcvr s) \<and> got_from rnode (rcvr s) = {} \<and>
    (p \<noteq> 0 \<longrightarrow> ready_sender snode F 0 (sndr s))"
proof -
  let ?d = "fresh_session p c snode off F"
  let ?S = "(fst st)\<lparr>snd_list := ?d # snd_list (fst st)\<rparr>"
  obtain d where d: "send_session ?d = Inr (d, [data_pkt F 0])" "sender_wf F d" "d_socket d = snode"
      "d_start d = -1" "d_end d = 0" "d_prev_ack d = p" "{i. i < 512 \<and> d_state d ! i = ACKED} = {}"
    using fresh_session_send [OF F] by blast
  have S: "session snode ?S = Some ?d" by (simp add: snd.lookup_push fresh_session_wf)
  then have S1: "session snode (put_session d ?S) = Some d"
    using d(3) by (simp add: snd.store_same del: sender_st.update_convs)
  have send: "send_data snode ?S = Inr (put_session d ?S, [data_pkt F 0])"
    using S d(1) by (simp add: send_data_def del: sender_st.update_convs)
  define s where "s = \<lparr>sndr = (put_session d ?S, snd st),
    rcvr = fst (init_recv_buffer uninit off rnode l), data_net = {data_msg F 0}, ack_net = {}\<rparr>"
  have "transfer_start p c uninit snode rnode off F st l = Inr s"
    using send to_wire_data_pkt [OF F, of 0] unfolding transfer_start_def init_datalist_push s_def
    by simp
  moreover have "sent_by snode (sndr s) = {0}"
    using S1 d(5) by (auto simp: sent_by_def s_def)
  moreover have "serving snode F (sndr s)" "acked_by snode (sndr s) = {}"
      "p \<noteq> 0 \<longrightarrow> ready_sender snode F 0 (sndr s)"
    using S1 d t by (simp_all add: serving_def acked_by_def ready_sender_def s_def)
  ultimately show ?thesis
    using fresh_fetching [OF F u r] by (intro exI [of _ s]) (simp add: s_def)
qed

lemma start_inv:
  assumes "data_net s = {data_msg F 0}" "ack_net s = {}" "serving snode F (sndr s)"
    "acked_by snode (sndr s) = {}" "fetching rnode off F (rcvr s)"
  shows "chunk_transfer.sys_inv (data_msg F) ack_msg (serving snode F) (acked_by snode)
    (fetching rnode off F) (got_from rnode) s"
  using assms by (auto simp: ct.sys_inv_def ct.started_def intro!: exI [of _ 0])

section \<open>Reachable states of a transfer\<close>

abbreviation transfer_reach where
  "transfer_reach snode rnode \<equiv> sys_reach (ack_datagram snode) (recv_datagram rnode) do_tick env_sane"

text \<open>\<open>transfer_sane\<close>: the circumstances in which the two peers start.\<close>

definition transfer_sane ::
  "byte list \<Rightarrow> byte list \<Rightarrow> int \<Rightarrow> int \<Rightarrow> sender_st \<times> packet_tracker_t list \<Rightarrow> recv_buffer_t list \<Rightarrow> bool" where
  "transfer_sane F uninit off rnode st l \<longleftrightarrow>
     length F = 524288 \<and> length uninit = 1500 \<and> snd (init_recv_buffer uninit off rnode l) = 1 \<and>
     tracker_ok (snd st)"

lemma transfer_start_inv:
  assumes "transfer_sane F uninit off rnode st l"
    "transfer_start p c uninit snode rnode off F st l = Inr s0"
  shows "chunk_transfer.sys_inv (data_msg F) ack_msg (serving snode F) (acked_by snode)
    (fetching rnode off F) (got_from rnode) s0"
  using assms transfer_start_result [of F uninit off rnode l st p c snode] start_inv [of s0 F]
  unfolding transfer_sane_def by auto

lemma transfer_fetching:
  assumes "transfer_sane F uninit off rnode st l"
    "transfer_start p c uninit snode rnode off F st l = Inr s0"
    "transfer_reach snode rnode s0 s"
  shows "fetching rnode off F (rcvr s)"
  using ct.reach_recv_ok [OF assms(3) transfer_start_inv [OF assms(1,2)]] .

text \<open>The buffers of the receiver stay the ones it started with.\<close>

lemma recv_datagram_keys:
  "recv_datagram node e m l = Inr (l', ms) \<Longrightarrow> buffer_keys l' = buffer_keys l"
  by (auto simp: recv_datagram_def Let_def res_simps split: if_splits dest: recv_data_keys)

lemma transfer_keys:
  assumes "transfer_reach snode rnode s0 s"
  shows "buffer_keys (rcvr s) = buffer_keys (rcvr s0)"
  using assms
  by (induction rule: sys_reach.induct) (auto elim!: sys_stepE dest: recv_datagram_keys)

lemma transfer_leads:
  assumes "transfer_sane F uninit off rnode st l"
    "transfer_start p c uninit snode rnode off F st l = Inr s0" "transfer_reach snode rnode s0 s"
  shows "leads rnode off (rcvr s)"
proof -
  have "rcvr s0 = fresh_buffer uninit off rnode # l"
    using assms(1,2) by (auto simp: transfer_start_def transfer_sane_def init_recv_buffer_def res_simps
        split: if_splits)
  then show ?thesis using transfer_keys [OF assms(3)] by (simp add: leads_def buffer_keys_def fresh_buffer_def)
qed

lemma transfer_full_iff:
  assumes sane: "transfer_sane F uninit off rnode st l"
    and s0: "transfer_start p c uninit snode rnode off F st l = Inr s0"
    and fresh: "off \<notin> snd ` set (buffer_keys l)"
    and s: "transfer_reach snode rnode s0 s"
  shows "is_buffer_full off (rcvr s) = 1 \<longleftrightarrow> got_from rnode (rcvr s) = {..<512}"
proof -
  have "rcvr s0 = fresh_buffer uninit off rnode # l"
    using s0 sane by (auto simp: transfer_start_def transfer_sane_def init_recv_buffer_def res_simps
        split: if_splits)
  then have "buffer_keys (rcvr s) = (rnode, off) # buffer_keys l"
    using transfer_keys [OF s] by (simp add: buffer_keys_def fresh_buffer_def)
  moreover have "filter (\<lambda>k. snd k = off) (buffer_keys l) = []"
    using fresh by (auto simp: filter_empty_conv)
  ultimately have keys: "length (filter (\<lambda>k. snd k = off) (buffer_keys (rcvr s))) \<le> 1" by simp
  obtain b where b: "get_recv_by_socket rnode (rcvr s) = Some b" "rb_offset b = off" "recv_wf F b"
    using transfer_fetching [OF sane s0 s] by (auto simp: fetching_def)
  have "is_buffer_full off (rcvr s) = 1 \<longleftrightarrow> rb_total_recv b = 524288"
    using is_buffer_full_keys [OF leads_first [OF transfer_leads [OF sane s0 s] b(1,2)] keys] .
  then show ?thesis
    using full_received [OF b(3)] received_full [OF b(3)] b(1) by (auto simp: got_from_def)
qed

lemma transfer_completes:
  assumes sane: "transfer_sane F uninit off rnode st l" and p: "p \<noteq> 0"
    and s0: "transfer_start p c uninit snode rnode off F st l = Inr s0"
  shows "\<exists>s. transfer_reach snode rnode s0 s \<and> got_from rnode (rcvr s) = {..<512}"
proof -
  note inv = transfer_start_inv [OF sane s0]
  have at: "cp.at_packet F snode rnode off 0 s0"
    using inv transfer_start_result [of F uninit off rnode l st p c snode] sane p s0
    by (auto simp: cp.at_packet_def transfer_sane_def)
  obtain s where "transfer_reach snode rnode s0 s" "cp.at_packet F snode rnode off 512 s"
    using cp.can_complete [OF at, of "\<lparr>env_buf = replicate 1500 0, env_beyond = \<lambda>_. Some False\<rparr>" 512]
    by (auto simp: env_sane_def readable_def)
  then show ?thesis by (auto simp: cp.at_packet_def)
qed

text \<open>A transfer only touches the buffer at the head of the list, the one it started with.\<close>

lemma recv_datagram_head:
  assumes "recv_datagram node e m l = Inr (l', ms)" "l \<noteq> []" "rb_socket (hd l) = node"
  shows "l' \<noteq> [] \<and> rb_socket (hd l') = node \<and> tl l' = tl l"
proof (cases "packet_type (header (from_wire (env_buf e) m)) = 3")
  case False
  with assms show ?thesis by (simp add: recv_datagram_def Let_def)
next
  case True
  obtain b rest where l: "l = b # rest" "rb_socket b = node" using assms(2,3) by (cases l) auto
  then have b: "get_recv_by_socket node l = Some b" by (simp add: get_recv_by_socket_def)
  obtain acks off where r: "recv_data (env_beyond e) (from_wire (env_buf e) m) node l = Inr (l', acks, off)"
    using assms(1) True by (auto simp: recv_datagram_def Let_def res_simps)
  show ?thesis
  proof (cases "sint (seq_num (header (from_wire (env_buf e) m))) > 512")
    case True
    with r l show ?thesis by (auto simp: recv_data_def Let_def)
  next
    case False
    then obtain b' a where s: "recv_session (env_beyond e) (from_wire (env_buf e) m)
          (sint (seq_num (header (from_wire (env_buf e) m))) - 1) b = Inr (b', a)" "l' = put_recv b' l"
      using r b by (auto simp: recv_data_def Let_def res_simps)
    have "rb_socket b' = node" using recv_session_keys [OF s(1)] l(2) by simp
    with s(2) l show ?thesis by (simp add: put_recv_def)
  qed
qed

lemma transfer_tail:
  assumes "transfer_sane F uninit off rnode st l"
    and "transfer_start p c uninit snode rnode off F st l = Inr s0"
    and "transfer_reach snode rnode s0 s"
  shows "rcvr s \<noteq> [] \<and> rb_socket (hd (rcvr s)) = rnode \<and> tl (rcvr s) = l"
  using assms(3)
proof (induction rule: sys_reach.induct)
  case start
  have "rcvr s0 = fresh_buffer uninit off rnode # l"
    using assms(1,2) by (auto simp: transfer_start_def transfer_sane_def init_recv_buffer_def res_simps
        split: if_splits)
  then show ?case by (simp add: fresh_buffer_def)
next
  case (step s s')
  from step.hyps(2) show ?case
    using step.IH recv_datagram_head [of rnode _ _ "rcvr s"] by (elim sys_stepE) auto
qed

section \<open>Properties of the path of a datagram\<close>

text \<open>
  A response with payload arrives as it was built: the header fields are converted twice, once by
  \<^verbatim>\<open>init_packet\<close> (before the sequence and acknowledgement numbers are set, in host order) and once by
  \<^verbatim>\<open>peer.c\<close> (those two), and the receiver reads the numbers, the type, the length and the payload that
  were meant.
\<close>

theorem response_roundtrip:
  assumes "t \<noteq> 0" and "t \<noteq> 1" and "len \<le> length src" and "len \<le> 1200" and "length buf = 1500"
  shows "\<exists>p msg. init_packet stk t (Some src) len = Inr p \<and>
    to_wire (p\<lparr>header := (header p)\<lparr>seq_num := s, ack_num := a\<rparr>\<rparr>) = Inr msg \<and>
    from_wire buf msg =
      \<lparr>header = host_header t (len + 16) s a, data = take len src @ drop (len + 16) buf\<rparr>"
proof -
  let ?p = "\<lparr>header = hdr_swap (host_header t (len + 16) 0 0),
    data = take len src @ replicate (1200 - len) 0\<rparr>"
  have 1: "init_packet stk t (Some src) len = Inr ?p"
    using assms by (simp add: init_packet_plain)
  have "?p\<lparr>header := (header ?p)\<lparr>seq_num := s, ack_num := a\<rparr>\<rparr> =
      \<lparr>header = hdr_swap (host_header t (len + 16) (htonl s) (htonl a)),
       data = take len src @ replicate (1200 - len) 0\<rparr>"
    by (simp add: hdr_swap_def host_header_def)
  then have 2: "to_wire (?p\<lparr>header := (header ?p)\<lparr>seq_num := s, ack_num := a\<rparr>\<rparr>) =
      Inr (wire_image (host_header t (len + 16) s a) (take len src @ replicate (1200 - len) 0))"
    using assms to_wire_host [of "len + 16" "take len src @ replicate (1200 - len) 0" t s a] by simp
  have "from_wire buf (wire_image (host_header t (len + 16) s a) (take len src @ replicate (1200 - len) 0)) =
      \<lparr>header = host_header t (len + 16) s a, data = take len src @ drop (len + 16) buf\<rparr>"
    using assms from_wire_host [of "len + 16" "take len src @ replicate (1200 - len) 0" buf t s a]
    by (simp add: min_def)
  with 1 2 show ?thesis by blast
qed

theorem response_roundtrip_witness:
  "\<exists>p msg. init_packet [] 3 (Some (replicate 1024 7)) 1024 = Inr p \<and>
    to_wire (p\<lparr>header := (header p)\<lparr>seq_num := 258, ack_num := 0\<rparr>\<rparr>) = Inr msg \<and>
    from_wire (replicate 1500 9) msg =
      \<lparr>header = host_header 3 1040 258 0, data = replicate 1024 7 @ replicate 460 9\<rparr>"
  using response_roundtrip [of 3 1024 "replicate 1024 7" "replicate 1500 9" "[]" 0 258] by simp

end
