(* ===== verification/Peer.thy ===== *)
theory Peer
  imports Requests ChunkTransfer
begin

text \<open>
  The operations of \<^verbatim>\<open>peer.c\<close> on the state of a peer: \<^verbatim>\<open>broadcast\<close>, \<^verbatim>\<open>process_inbound_udp\<close>,
  \<^verbatim>\<open>process_get\<close>, \<^verbatim>\<open>handle_user_input\<close> and the two loops over stalled chunks and expired timers that end
  an iteration of \<^verbatim>\<open>peer_run\<close>.

  A call of \<^verbatim>\<open>spiffy_sendto\<close> is recorded as the pair of its destination and the bytes it is given; its
  result is only printed by the code. Lists of packets are reversed before they are sent
  (\<^verbatim>\<open>reverseList\<close>). \<^verbatim>\<open>create_timer\<close> stores the pointer of the packet that is sent, so the conversion of
  its header, which follows, is seen in the tracker too; this aliasing is \<open>share_packet\<close>.
\<close>

section \<open>Sending\<close>

type_synonym sent = "(sockaddr_in \<times> byte list) list"

definition send_packet :: "data_packet_t \<Rightarrow> sockaddr_in \<Rightarrow> sent res" where
  "send_packet p to = rbind (sendto_bytes p) (\<lambda>msg. Inr [(to, msg)])"

definition reverseList :: "'a list \<Rightarrow> 'a list" where
  "reverseList l = foldl (\<lambda>cursor p. p # cursor) [] l"

lemma reverseList_rev [simp]: "reverseList l = rev l"
proof -
  have "foldl (\<lambda>cursor p. p # cursor) acc l = rev l @ acc" for acc
    by (induction l arbitrary: acc) simp_all
  then show ?thesis by (simp add: reverseList_def)
qed

fun broadcast_loop :: "data_packet_t \<Rightarrow> int \<Rightarrow> bt_peer_t list \<Rightarrow> sent res" where
  "broadcast_loop p my_id [] = Inr []"
| "broadcast_loop p my_id (node # nodes) =
     (if peer_id node = my_id then broadcast_loop p my_id nodes
      else rbind (send_packet p (peer_addr node)) (\<lambda>out.
           rbind (broadcast_loop p my_id nodes) (\<lambda>outs. Inr (out @ outs))))"

definition broadcast :: "data_packet_t \<Rightarrow> bt_config_t \<Rightarrow> sent res" where
  "broadcast p config = broadcast_loop p (identity config) (peers config)"

fun broadcast_all :: "data_packet_t list \<Rightarrow> bt_config_t \<Rightarrow> sent res" where
  "broadcast_all [] config = Inr []"
| "broadcast_all (p # ps) config =
     rbind (broadcast p config) (\<lambda>out. rbind (broadcast_all ps config) (\<lambda>outs. Inr (out @ outs)))"

section \<open>Inbound datagrams\<close>

text \<open>
  \<open>check_timers\<close>: the loop that looks for an expired timer of a packet with the same numbers.
  \<open>share_packet trk trk' p\<close>: the timers \<open>trk'\<close> made from \<open>trk\<close>, where the packet of a timer that is new
  has become \<open>p\<close>.
\<close>

fun check_timers ::
  "packet_tracker_t list \<Rightarrow> header_t \<Rightarrow> int \<Rightarrow> packet_tracker_t list \<times> bool" where
  "check_timers [] h now = ([], False)"
| "check_timers (t # ts) h now =
     (let th = header (tr_packet t);
          (t', found) =
            (if seq_num th = seq_num h \<and> ack_num th = ack_num h
             then (case timer_expired t now of (t', r) \<Rightarrow> (t', r = -1)) else (t, False));
          (ts', found') = check_timers ts h now
      in (t' # ts', found \<or> found'))"

definition share_packet ::
  "packet_tracker_t list \<Rightarrow> packet_tracker_t list \<Rightarrow> data_packet_t \<Rightarrow> packet_tracker_t list" where
  "share_packet trk trk' p =
     (if length trk' = length trk then trk' else butlast trk' @ [(last trk')\<lparr>tr_packet := p\<rparr>])"

definition respond ::
  "io \<Rightarrow> int \<Rightarrow> sockaddr_in \<Rightarrow> nat \<Rightarrow> data_packet_t \<Rightarrow> packet_tracker_t list
     \<Rightarrow> (packet_tracker_t list \<times> sent) res" where
  "respond io target from i p trk =
     (case check_timers trk (header p) (io_now io) of (trk, found) \<Rightarrow>
      if \<not> found then
        let trk' = (if packet_type (header p) = 3
                    then create_timer (io_tracker io) trk p target from (io_now io) else trk)
        in if int (io_rand io i mod 20) < -5 \<and> (packet_type (header p) = 3 \<or> packet_type (header p) = 4)
           then Inr (trk', [])
           else rbind (send_packet (seq_ack_swap p) from) (\<lambda>out.
                Inr (share_packet trk trk' (seq_ack_swap p), out))
      else if packet_type (header p) \<noteq> 3 then rbind (send_packet p from) (\<lambda>out. Inr (trk, out))
      else Inr (trk, []))"

fun respond_all ::
  "io \<Rightarrow> int \<Rightarrow> sockaddr_in \<Rightarrow> nat \<Rightarrow> data_packet_t list \<Rightarrow> packet_tracker_t list
     \<Rightarrow> (packet_tracker_t list \<times> sent) res" where
  "respond_all io target from i [] trk = Inr (trk, [])"
| "respond_all io target from i (p # ps) trk =
     rbind (respond io target from i p trk) (\<lambda>(trk, out).
     rbind (respond_all io target from (Suc i) ps trk) (\<lambda>(trk, outs). Inr (trk, out @ outs)))"

definition node_of_addr :: "sockaddr_in \<Rightarrow> bt_peer_t list \<Rightarrow> int" where
  "node_of_addr from nodes =
     (case List.find (\<lambda>n. sin_family from = sin_family (peer_addr n) \<and>
             sin_port from = sin_port (peer_addr n) \<and> s_addr from = s_addr (peer_addr n)) nodes of
        None \<Rightarrow> -1
      | Some n \<Rightarrow> peer_id n)"

definition process_inbound_udp ::
  "io \<Rightarrow> byte list \<Rightarrow> byte list \<Rightarrow> sockaddr_in \<Rightarrow> peer_st \<Rightarrow> (peer_st \<times> sent) res" where
  "process_inbound_udp io buf msg from ps =
     (let recv_packet = build_packet_from_buf (recvfrom_into buf msg);
          target_id = node_of_addr from (peers (ps_config ps))
      in if target_id = -1 then Inr (ps, [])
         else rbind (handle_packet io recv_packet target_id ps) (\<lambda>(ps', response_list).
              rbind (respond_all io target_id from 0 (reverseList response_list) (ps_tracker ps'))
                (\<lambda>(trk, out). Inr (ps'\<lparr>ps_tracker := trk\<rparr>, out))))"

section \<open>The user's command\<close>

text \<open>
  \<^verbatim>\<open>sscanf(line, "GET %120s %120s", chunkf, outf)\<close> on arrays that are all zero; the code tests its
  result only for being nonzero and then the second word for being nonempty.
\<close>

definition scan_word_120 :: "byte list \<Rightarrow> (byte list \<times> byte list) option" where
  "scan_word_120 s =
     (if skip_space s = [] then None
      else let w = take 120 (takeWhile (\<lambda>b. \<not> is_space b) (skip_space s))
           in Some (w, drop (length w) (skip_space s)))"

definition scan_get :: "byte list \<Rightarrow> byte list \<times> byte list" where
  "scan_get line =
     (if take 3 line \<noteq> [0x47, 0x45, 0x54] then ([], [])
      else case scan_word_120 (drop 3 line) of
             None \<Rightarrow> ([], [])
           | Some (chunkf, r) \<Rightarrow>
               (case scan_word_120 r of None \<Rightarrow> (chunkf, []) | Some (outf, _) \<Rightarrow> (chunkf, outf)))"

definition process_get :: "io \<Rightarrow> byte list \<Rightarrow> byte list \<Rightarrow> peer_st \<Rightarrow> (peer_st \<times> sent) res" where
  "process_get io chunkfile outputfile ps =
     rbind (generate_WHOHAS io chunkfile outputfile ps) (\<lambda>(ps', whohas_list).
     rbind (broadcast_all (reverseList whohas_list) (ps_config ps')) (\<lambda>out. Inr (ps', out)))"

definition handle_user_input :: "io \<Rightarrow> byte list \<Rightarrow> peer_st \<Rightarrow> (peer_st \<times> sent) res" where
  "handle_user_input io line ps =
     (case scan_get line of (chunkf, outf) \<Rightarrow>
      if outf \<noteq> [] then process_get io chunkf outf ps else Inr (ps, []))"

section \<open>Stalled chunks and expired timers\<close>

definition repeat_requests :: "io \<Rightarrow> peer_st \<Rightarrow> (peer_st \<times> sent) res" where
  "repeat_requests io ps =
     rbind (re_generateWhohas io ps) (\<lambda>(ps', whohas).
     rbind (broadcast_all (reverseList whohas) (ps_config ps')) (\<lambda>out. Inr (ps', out)))"

text \<open>The head of the list is a dummy without an address: its expiry counts but nothing is sent.\<close>

fun retransmit ::
  "int \<Rightarrow> packet_tracker_t list \<Rightarrow> sender_st \<Rightarrow> (packet_tracker_t list \<times> sender_st \<times> sent) res" where
  "retransmit now [] S = Inr ([], S, [])"
| "retransmit now (t # ts) S =
     (case timer_expired t now of (t, r) \<Rightarrow>
      if r = -1 \<and> tr_seq t \<noteq> -441 then
        let p = (tr_packet t)\<lparr>header := (header (tr_packet t))\<lparr>seq_num := htonl (word_of_int (tr_seq t))\<rparr>\<rparr>
        in rbind (send_packet p (tr_from t)) (\<lambda>out.
           rbind (retransmit now ts (process_packet_loss (sint (ack_num (header p))) S))
             (\<lambda>(ts', S', outs). Inr (t\<lparr>tr_packet := p, tr_send_time := now\<rparr> # ts', S', out @ outs)))
      else rbind (retransmit now ts S) (\<lambda>(ts', S', outs). Inr (t # ts', S', outs)))"

definition check_timeouts :: "io \<Rightarrow> peer_st \<Rightarrow> (peer_st \<times> sent) res" where
  "check_timeouts io ps =
     rbind (retransmit (io_now io) (ps_tracker ps) (ps_sender ps)) (\<lambda>(trk, S, out).
     Inr (ps\<lparr>ps_tracker := trk, ps_sender := S\<rparr>, out))"

section \<open>Responses\<close>

text \<open>
  \<open>silent t\<close>: the packet of the timer \<open>t\<close> has a sequence number that no fresh response has, which
  holds for a packet in network order. A tracker all of whose packets are silent never suppresses a
  response.
\<close>

definition silent :: "packet_tracker_t \<Rightarrow> bool" where
  "silent t \<longleftrightarrow> 512 < seq_num (header (tr_packet t))"

lemma small_word_bits:
  assumes "w \<le> (512 :: 32 word)" "10 \<le> n" shows "\<not> bit w n"
proof -
  have "w < 2 ^ 10" using assms(1) by (simp add: word_le_nat_alt word_less_nat_alt)
  then have "take_bit 10 w = w" unfolding take_bit_eq_mod by (rule mod_word_less)
  then show ?thesis using assms(2) by (metis bit_take_bit_iff leD)
qed

lemma htonl_seq_silent:
  assumes "1 \<le> w" "w \<le> (512 :: 32 word)"
  shows "512 < htonl w"
proof -
  have "w \<noteq> 0" using assms(1) by auto
  then obtain n where n: "bit w n" using bit_eq_iff [of w 0] by auto
  then have n10: "n < 10" using small_word_bits [OF assms(2)] by (meson not_le)
  have "\<exists>m \<ge> 10. bit (htonl w) m"
  proof (cases "n < 8")
    case True
    then show ?thesis using n by (intro exI [of _ "n + 24"]) (simp add: bit_htonl)
  next
    case False
    then show ?thesis using n n10 by (intro exI [of _ "n + 8"]) (simp add: bit_htonl)
  qed
  then show ?thesis using small_word_bits [of "htonl w"] by (meson not_le)
qed

lemma check_timers_silent:
  assumes "\<forall>t \<in> set ts. silent t" "seq_num h \<le> 512"
  shows "check_timers ts h now = (ts, False)"
  using assms(1)
proof (induction ts)
  case (Cons t ts)
  then have "seq_num (header (tr_packet t)) \<noteq> seq_num h"
    using assms(2) by (auto simp: silent_def)
  with Cons show ?case by simp
qed simp

text \<open>What every handler hands over: packets with small sequence numbers, DATA packets with theirs.\<close>

definition response_ok :: "data_packet_t \<Rightarrow> bool" where
  "response_ok p \<longleftrightarrow> seq_num (header p) \<le> 512 \<and>
     (packet_type (header p) = 3 \<longrightarrow> 1 \<le> seq_num (header p) \<and> ack_num (header p) = 0)"

lemma restart_timer_packets: "restart_timer ts q now = Some ts' \<Longrightarrow>
    length ts' = length ts \<and> map tr_packet ts' = map tr_packet ts"
  by (induction ts arbitrary: ts') (auto split: if_splits)

lemma silent_map: "map tr_packet ts' = map tr_packet ts \<Longrightarrow> \<forall>t \<in> set ts. silent t \<Longrightarrow> \<forall>t \<in> set ts'. silent t"
  by (metis (mono_tags, lifting) in_set_conv_nth length_map nth_map nth_mem silent_def)

lemma share_packet_created:
  assumes "\<forall>t \<in> set trk. silent t" "silent uninit" "response_ok p" "packet_type (header p) = 3"
  shows "\<forall>t \<in> set (share_packet trk (create_timer uninit trk p target from now) (seq_ack_swap p)). silent t"
proof -
  have new: "silent (t\<lparr>tr_packet := seq_ack_swap p\<rparr>)" for t
    using htonl_seq_silent [of "seq_num (header p)"] assms(3,4)
    by (simp add: silent_def response_ok_def seq_ack_swap_def)
  show ?thesis
  proof (cases "trk = []")
    case True
    then show ?thesis using new assms(2) by (simp add: share_packet_def create_timer_def silent_def)
  next
    case False
    show ?thesis
    proof (cases "restart_timer trk (seq_num (header p)) now")
      case None
      then show ?thesis using False new assms(1) by (simp add: share_packet_def create_timer_def)
    next
      case (Some ts)
      have "\<forall>t \<in> set ts. silent t"
        by (rule silent_map [OF _ assms(1)]) (use restart_timer_packets [OF Some] in simp)
      then show ?thesis
        using False Some restart_timer_packets [OF Some] by (simp add: share_packet_def create_timer_def)
    qed
  qed
qed

text \<open>The tracker after a packet was sent.\<close>

definition tracked :: "io \<Rightarrow> int \<Rightarrow> sockaddr_in \<Rightarrow> data_packet_t \<Rightarrow> packet_tracker_t list \<Rightarrow> packet_tracker_t list" where
  "tracked io target from p trk =
     (if packet_type (header p) = 3
      then share_packet trk (create_timer (io_tracker io) trk p target from (io_now io)) (seq_ack_swap p)
      else trk)"

lemma tracked_silent:
  assumes "\<forall>t \<in> set trk. silent t" "silent (io_tracker io)" "response_ok p"
  shows "\<forall>t \<in> set (tracked io target from p trk). silent t"
proof (cases "packet_type (header p) = 3")
  case True
  show ?thesis
    unfolding tracked_def if_P [OF True] by (rule share_packet_created [OF assms True])
next
  case False
  show ?thesis unfolding tracked_def if_not_P [OF False] by (rule assms(1))
qed

lemma create_timer_nonempty: "create_timer uninit trk p target from now \<noteq> []"
proof (cases "restart_timer trk (seq_num (header p)) now")
  case (Some ts)
  have "length ts = length trk" using restart_timer_packets [OF Some] by blast
  then have "trk \<noteq> [] \<Longrightarrow> ts \<noteq> []" by auto
  then show ?thesis using Some by (cases "trk = []") (simp_all add: create_timer_def)
qed (simp add: create_timer_def)

lemma share_packet_keys:
  "trk' \<noteq> [] \<Longrightarrow> map (\<lambda>t. (tr_sock t, tr_seq t)) (share_packet trk trk' p) =
     map (\<lambda>t. (tr_sock t, tr_seq t)) trk'"
  by (cases trk' rule: rev_cases) (auto simp: share_packet_def)

lemma tracker_ok_keys:
  assumes "map (\<lambda>t. (tr_sock t, tr_seq t)) trk' = map (\<lambda>t. (tr_sock t, tr_seq t)) trk"
  shows "tracker_ok trk' = tracker_ok trk" "timers trk' = timers trk"
proof -
  have "map snd (map (\<lambda>t. (tr_sock t, tr_seq t)) trk') = map snd (map (\<lambda>t. (tr_sock t, tr_seq t)) trk)"
    using assms by simp
  then have seqs: "map tr_seq trk' = map tr_seq trk" by (simp add: o_def)
  then show "tracker_ok trk' = tracker_ok trk"
    by (cases trk; cases trk') (auto simp: tracker_ok_def)
  show "timers trk' = timers trk" using assms by (simp add: timers_def map_tl)
qed

lemma tracked_ok: "tracker_ok trk \<Longrightarrow> tracker_ok (tracked io target from p trk)"
  using tracker_ok_keys(1) [OF share_packet_keys [OF create_timer_nonempty]]
  by (simp add: tracked_def create_timer_ok)

lemma respond_sends:
  assumes "\<forall>t \<in> set trk. silent t" "response_ok p" "to_wire p = Inr m"
  shows "respond io target from i p trk = Inr (tracked io target from p trk, [(from, m)])"
proof -
  have "seq_num (header p) \<le> 512" using assms(2) by (simp add: response_ok_def)
  note c = check_timers_silent [OF assms(1) this, of "io_now io"]
  have r: "\<not> int (io_rand io i mod 20) < -5" by simp
  have "length (share_packet trk trk p) = length trk" "share_packet trk trk q = trk" for q
    by (simp_all add: share_packet_def)
  then show ?thesis
    using c r assms(3) by (simp add: respond_def to_wire_def send_packet_def tracked_def Let_def)
qed

text \<open>All responses go out in order, each once, and every DATA packet is timed.\<close>

fun track_all :: "io \<Rightarrow> int \<Rightarrow> sockaddr_in \<Rightarrow> data_packet_t list \<Rightarrow> packet_tracker_t list \<Rightarrow> packet_tracker_t list" where
  "track_all io target from [] trk = trk"
| "track_all io target from (p # ps) trk = track_all io target from ps (tracked io target from p trk)"

lemma track_all_silent:
  "\<forall>t \<in> set trk. silent t \<Longrightarrow> silent (io_tracker io) \<Longrightarrow> \<forall>p \<in> set ps. response_ok p \<Longrightarrow>
     \<forall>t \<in> set (track_all io target from ps trk). silent t"
proof (induction ps arbitrary: trk)
  case (Cons p ps)
  have "\<forall>t \<in> set (tracked io target from p trk). silent t"
    using Cons.prems by (intro tracked_silent) simp_all
  then show ?case using Cons.IH Cons.prems(2,3) by simp
qed simp

lemma track_all_ok: "tracker_ok trk \<Longrightarrow> tracker_ok (track_all io target from ps trk)"
  by (induction ps arbitrary: trk) (auto simp: tracked_ok)

text \<open>
  \<open>timer_started\<close>: the pairs of peer and number of the timers, with one more for a DATA packet whose
  number is not timed yet. The timers after an answer are these, packet by packet.
\<close>

definition timer_started :: "int \<Rightarrow> data_packet_t \<Rightarrow> (int \<times> int) list \<Rightarrow> (int \<times> int) list" where
  "timer_started node p ts =
     (if packet_type (header p) \<noteq> 3 \<or> (\<exists>k \<in> set ts. word_of_int (snd k) = seq_num (header p)) then ts
      else ts @ [(node, sint (seq_num (header p)))])"

lemma tracked_timers:
  assumes "tracker_ok trk" "response_ok p"
  shows "timers (tracked io node sender p trk) = timer_started node p (timers trk)"
proof (cases "packet_type (header p) = 3")
  case True
  then have "seq_num (header p) \<noteq> -441" using assms(2) by (auto simp: response_ok_def)
  note t = create_timer_timers [OF assms(1) this, of "io_tracker io" node sender "io_now io"]
  have "(\<exists>peer q. (peer, q) \<in> set (timers trk) \<and> word_of_int q = seq_num (header p)) \<longleftrightarrow>
      (\<exists>k \<in> set (timers trk). word_of_int (snd k) = seq_num (header p))"
    by force
  with t True show ?thesis
    using tracker_ok_keys(2) [OF share_packet_keys [OF create_timer_nonempty]]
    by (simp add: tracked_def timer_started_def)
qed (simp add: tracked_def timer_started_def)

lemma track_all_timers:
  "tracker_ok trk \<Longrightarrow> \<forall>p \<in> set ps. response_ok p \<Longrightarrow>
     timers (track_all io node sender ps trk) = fold (timer_started node) ps (timers trk)"
  by (induction ps arbitrary: trk) (auto simp: tracked_ok tracked_timers)

lemma respond_all_sends:
  assumes "\<forall>t \<in> set trk. silent t" "silent (io_tracker io)" "\<forall>p \<in> set ps. response_ok p"
    "all_to_wire ps = Inr ms"
  shows "respond_all io target from i ps trk = Inr (track_all io target from ps trk, map (Pair from) ms)"
  using assms(1,3,4)
proof (induction ps arbitrary: i trk ms)
  case (Cons p ps)
  obtain m ms' where m: "to_wire p = Inr m" "all_to_wire ps = Inr ms'" "ms = m # ms'"
    using Cons.prems(3) by (auto simp: res_simps)
  have p: "response_ok p" "\<forall>p \<in> set ps. response_ok p" using Cons.prems(2) by simp_all
  note t = tracked_silent [OF Cons.prems(1) assms(2) p(1)]
  show ?case
    using respond_sends [OF Cons.prems(1) p(1) m(1)] Cons.IH [OF t p(2) m(2)] m(3) by simp
qed simp


section \<open>Timers\<close>

text \<open>
  \<open>entry_ok\<close>: a timer whose packet is ready to be sent again, in network order and with its own
  sequence number. In a sane tracker all entries but the dummy are, and no entry is mistaken for a
  fresh response.
\<close>

definition entry_ok :: "packet_tracker_t \<Rightarrow> bool" where
  "entry_ok t \<longleftrightarrow> 1 \<le> tr_seq t \<and> tr_seq t \<le> 512 \<and>
     seq_num (header (tr_packet t)) = htonl (word_of_int (tr_seq t)) \<and>
     ack_num (header (tr_packet t)) = 0 \<and> (\<exists>m. sendto_bytes (tr_packet t) = Inr m)"

definition tracker_sane :: "packet_tracker_t list \<Rightarrow> bool" where
  "tracker_sane trk \<longleftrightarrow> tracker_ok trk \<and> (\<forall>t \<in> set trk. silent t) \<and> (\<forall>t \<in> set (tl trk). entry_ok t)"

lemma tracker_sane_Nil [simp]: "tracker_sane []"
  by (simp add: tracker_sane_def tracker_ok_def)

lemma restart_timer_entries:
  "restart_timer ts q now = Some ts' \<Longrightarrow> \<forall>t \<in> set ts. entry_ok t \<Longrightarrow> \<forall>t \<in> set ts'. entry_ok t"
proof (induction ts arbitrary: ts')
  case (Cons t ts)
  show ?case
  proof (cases "word_of_int (tr_seq t) = q")
    case True
    then show ?thesis using Cons.prems by (auto simp: entry_ok_def)
  next
    case False
    then obtain us where us: "restart_timer ts q now = Some us" "ts' = t # us" using Cons.prems(1) by auto
    have "\<forall>t \<in> set us. entry_ok t" by (rule Cons.IH [OF us(1)]) (use Cons.prems(2) in simp)
    then show ?thesis using us(2) Cons.prems(2) by simp
  qed
qed simp

lemma restart_timer_tl:
  assumes "restart_timer trk q now = Some ts'" "\<forall>t \<in> set (tl trk). entry_ok t"
  shows "\<forall>t \<in> set (tl ts'). entry_ok t"
proof (cases trk)
  case (Cons d ts)
  show ?thesis
  proof (cases "word_of_int (tr_seq d) = q")
    case True
    then show ?thesis using assms Cons by auto
  next
    case False
    then obtain us where us: "restart_timer ts q now = Some us" "ts' = d # us" using assms(1) Cons by auto
    then show ?thesis using restart_timer_entries [OF us(1)] assms(2) Cons by simp
  qed
qed (use assms in simp)

lemma seq_small: "w \<le> (512 :: 32 word) \<Longrightarrow> sint w = uint w \<and> uint w \<le> 512"
proof -
  assume "w \<le> 512"
  then have u: "uint w \<le> 512" by (simp add: word_le_def)
  then have "- (2 ^ 31) \<le> uint w" "uint w < 2 ^ 31" by (simp_all add: order_trans [OF _ uint_ge_0])
  then show ?thesis using u by (simp add: sint_uint signed_take_bit_int_eq_self)
qed

lemma new_entry_ok:
  assumes "response_ok p" "packet_type (header p) = 3" "to_wire p = Inr m"
  shows "entry_ok ((new_tracker p target from now)\<lparr>tr_packet := seq_ack_swap p\<rparr>)"
proof -
  have s: "1 \<le> seq_num (header p)" "seq_num (header p) \<le> 512" "ack_num (header p) = 0"
    using assms(1,2) by (simp_all add: response_ok_def)
  have "1 \<le> uint (seq_num (header p))" using s(1) by (simp add: word_le_def)
  then show ?thesis
    using seq_small [OF s(2)] s(3) assms(3)
    by (simp add: entry_ok_def new_tracker_def seq_ack_swap_def to_wire_def)
qed

lemma tracked_entries:
  assumes "\<forall>t \<in> set (tl trk). entry_ok t" "response_ok p" "to_wire p = Inr m"
  shows "\<forall>t \<in> set (tl (tracked io target from p trk)). entry_ok t"
proof (cases "packet_type (header p) = 3")
  case True
  note entry = new_entry_ok [OF assms(2) True assms(3), of target "from" "io_now io"]
  show ?thesis
  proof (cases "trk = []")
    case True
    then show ?thesis using entry \<open>packet_type (header p) = 3\<close>
      by (simp add: tracked_def share_packet_def create_timer_def)
  next
    case False
    then obtain d ts where trk: "trk = d # ts" by (cases trk) auto
    show ?thesis
    proof (cases "restart_timer trk (seq_num (header p)) (io_now io)")
      case None
      have "create_timer (io_tracker io) trk p target from (io_now io) = trk @ [new_tracker p target from (io_now io)]"
        using False None by (simp add: create_timer_def)
      then have "tracked io target from p trk =
          d # ts @ [(new_tracker p target from (io_now io))\<lparr>tr_packet := seq_ack_swap p\<rparr>]"
        using True by (simp add: tracked_def share_packet_def trk)
      then show ?thesis using entry assms(1) trk by auto
    next
      case (Some us)
      then have "tracked io target from p trk = us"
        using False True restart_timer_packets [OF Some]
        by (simp add: tracked_def share_packet_def create_timer_def)
      then show ?thesis using restart_timer_tl [OF Some assms(1)] by simp
    qed
  qed
qed (use assms(1) in \<open>simp add: tracked_def\<close>)

lemma tracked_sane:
  assumes "tracker_sane trk" "silent (io_tracker io)" "response_ok p" "to_wire p = Inr m"
  shows "tracker_sane (tracked io target from p trk)"
  using assms tracked_ok tracked_entries tracked_silent unfolding tracker_sane_def by blast

lemma track_all_sane:
  assumes "tracker_sane trk" "silent (io_tracker io)" "\<forall>p \<in> set ps. response_ok p" "all_to_wire ps = Inr ms"
  shows "tracker_sane (track_all io target from ps trk)"
  using assms(1,3,4)
proof (induction ps arbitrary: trk ms)
  case (Cons p ps)
  obtain m ms' where m: "to_wire p = Inr m" "all_to_wire ps = Inr ms'"
    using Cons.prems(3) by (auto simp: res_simps)
  have p: "response_ok p" "\<forall>p \<in> set ps. response_ok p" using Cons.prems(2) by simp_all
  show ?case
    using Cons.IH [OF tracked_sane [OF Cons.prems(1) assms(2) p(1) m(1)] p(2) m(2)] by simp
qed simp

text \<open>The loop over expired timers.\<close>

definition after_timeout :: "int \<Rightarrow> packet_tracker_t \<Rightarrow> packet_tracker_t" where
  "after_timeout now t =
     (if now - tr_send_time t \<ge> 1 then
        let t = t\<lparr>tr_expire_time := tr_expire_time t + 1\<rparr>
        in if tr_seq t = -441 then t else t\<lparr>tr_send_time := now\<rparr>
      else t)"

definition expired :: "int \<Rightarrow> packet_tracker_t list \<Rightarrow> packet_tracker_t list" where
  "expired now ts = filter (\<lambda>t. tr_seq t \<noteq> -441 \<and> now - tr_send_time t \<ge> 1) ts"

definition resends :: "packet_tracker_t \<Rightarrow> sockaddr_in \<times> byte list \<Rightarrow> bool" where
  "resends t out \<longleftrightarrow> fst out = tr_from t \<and> sendto_bytes (tr_packet t) = Inr (snd out)"

lemma retransmit_result:
  assumes "\<forall>t \<in> set ts. tr_seq t = -441 \<or> entry_ok t"
  shows "\<exists>outs. retransmit now ts S =
      Inr (map (after_timeout now) ts, (process_packet_loss 0 ^^ length (expired now ts)) S, outs) \<and>
    list_all2 resends (expired now ts) outs"
  using assms
proof (induction ts arbitrary: S)
  case (Cons t ts)
  have tl: "\<forall>t \<in> set ts. tr_seq t = -441 \<or> entry_ok t" using Cons.prems by simp
  show ?case
  proof (cases "tr_seq t \<noteq> -441 \<and> now - tr_send_time t \<ge> 1")
    case True
    then have e: "entry_ok t" using Cons.prems by simp
    then obtain m where m: "sendto_bytes (tr_packet t) = Inr m" by (auto simp: entry_ok_def)
    have p: "(tr_packet t)\<lparr>header := (header (tr_packet t))\<lparr>seq_num := htonl (word_of_int (tr_seq t))\<rparr>\<rparr> = tr_packet t"
      using e by (simp add: entry_ok_def)
    have ack: "sint (ack_num (header (tr_packet t))) = 0" using e by (simp add: entry_ok_def)
    obtain outs where ih: "retransmit now ts (process_packet_loss 0 S) =
        Inr (map (after_timeout now) ts,
          (process_packet_loss 0 ^^ length (expired now ts)) (process_packet_loss 0 S), outs)"
        "list_all2 resends (expired now ts) outs"
      using Cons.IH [OF tl] by blast
    have "retransmit now (t # ts) S = Inr (map (after_timeout now) (t # ts),
        (process_packet_loss 0 ^^ length (expired now (t # ts))) S, (tr_from t, m) # outs)"
      using True p ack m ih(1)
      by (simp add: timer_expired_def TIMEOUT_def send_packet_def after_timeout_def expired_def
          funpow_swap1 Let_def)
    moreover have "list_all2 resends (expired now (t # ts)) ((tr_from t, m) # outs)"
      using True m ih(2) by (simp add: expired_def resends_def)
    ultimately show ?thesis by blast
  next
    case False
    obtain outs where ih: "retransmit now ts S = Inr (map (after_timeout now) ts,
          (process_packet_loss 0 ^^ length (expired now ts)) S, outs)"
        "list_all2 resends (expired now ts) outs"
      using Cons.IH [OF tl] by blast
    then show ?thesis using False
      by (intro exI [of _ outs])
         (auto simp: timer_expired_def TIMEOUT_def after_timeout_def expired_def Let_def)
  qed
qed (simp add: expired_def)


section \<open>Floods\<close>

lemma broadcast_loop_result:
  "sendto_bytes p = Inr msg \<Longrightarrow> broadcast_loop p me nodes =
     Inr (map (\<lambda>n. (peer_addr n, msg)) (filter (\<lambda>n. peer_id n \<noteq> me) nodes))"
  by (induction nodes) (simp_all add: send_packet_def)

definition others :: "bt_config_t \<Rightarrow> sockaddr_in list" where
  "others config = map peer_addr (filter (\<lambda>n. peer_id n \<noteq> identity config) (peers config))"

lemma broadcast_result:
  "sendto_bytes p = Inr msg \<Longrightarrow> broadcast p config = Inr (map (\<lambda>a. (a, msg)) (others config))"
  by (simp add: broadcast_def broadcast_loop_result others_def)

lemma broadcast_all_result:
  assumes "list_all2 (\<lambda>p m. sendto_bytes p = Inr m) ps ms"
  shows "broadcast_all ps config = Inr (concat (map (\<lambda>m. map (\<lambda>a. (a, m)) (others config)) ms))"
  using assms by (induction ps ms rule: list_all2_induct) (simp_all add: broadcast_result)

text \<open>\<open>reads_request msg hs\<close>: a peer that receives the datagram \<open>msg\<close> reads a request for the hashes \<open>hs\<close>.\<close>

definition reads_request :: "byte list \<Rightarrow> byte list list \<Rightarrow> bool" where
  "reads_request msg hs \<longleftrightarrow> (\<forall>buf. length buf = 1500 \<longrightarrow>
     packet_type (header (from_wire buf msg)) = 0 \<and>
     packet_count (from_wire buf msg) = Inr (int (length hs)) \<and>
     (\<forall>i < length hs. packet_hash (from_wire buf msg) i = Inr (hs ! i)))"

lemma packet_hash_prefix:
  assumes "data q = take n (data p) @ rest" "n \<le> length (data p)" "4 + 20 * i + 20 \<le> n"
    "packet_hash p i = Inr h"
  shows "packet_hash q i = Inr h"
proof -
  have "take 20 (drop (4 + 20 * i) (take n (data p) @ rest)) = take 20 (drop (4 + 20 * i) (data p))"
  proof -
    have "20 \<le> n - (4 + 20 * i)" "4 + 20 * i \<le> n"
      "20 \<le> length (data p) - (4 + 20 * i)" using assms(2,3) by linarith+
    then show ?thesis using assms(2) by (simp add: drop_take min_absorb1)
  qed
  then show ?thesis using assms by (auto simp: packet_hash_def split: if_splits)
qed

lemma asks_for_sent:
  assumes "asks_for p hs" "length hs < 60"
  shows "\<exists>msg. sendto_bytes p = Inr msg \<and> reads_request msg hs"
proof -
  let ?n = "20 + 20 * length hs"
  have n: "unat (ntohs (packet_len (header p))) = ?n" using assms(1) by (simp add: asks_for_def)
  have len: "length (data p) = 1200" using assms(1) by (simp add: asks_for_def)
  then have fit: "?n \<le> 16 + length (data p)" "16 \<le> ?n" "?n \<le> 1500" using assms(2) by simp_all
  then have s: "sendto_bytes p = Inr (take ?n (packet_bytes p))"
    using n by (simp add: sendto_bytes_def Let_def)
  have "reads_request (take ?n (packet_bytes p)) hs"
    unfolding reads_request_def
  proof (intro allI impI)
    fix buf :: "byte list" assume buf: "length buf = 1500"
    let ?q = "p\<lparr>data := take (?n - 16) (data p) @ drop ?n buf\<rparr>"
    have "transmit buf p = Inr ?q" using transmit_ok [OF n fit(2,1)] fit(3) buf by simp
    then have q: "from_wire buf (take ?n (packet_bytes p)) = pkt_swap ?q"
      using s by (simp add: transmit_def from_wire_def)
    have hash: "packet_hash ?q i = Inr (hs ! i)" if "i < length hs" for i
    proof (rule packet_hash_prefix)
      show "data ?q = take (?n - 16) (data p) @ drop ?n buf" by simp
      show "?n - 16 \<le> length (data p)" using fit(1) by simp
      show "4 + 20 * i + 20 \<le> ?n - 16" using that by simp
      show "packet_hash p i = Inr (hs ! i)" using assms(1) that by (simp add: asks_for_def)
    qed
    have "packet_count ?q = packet_count p"
      using len by (simp add: packet_count_def in_range_def nth_append)
    then show "packet_type (header (from_wire buf (take ?n (packet_bytes p)))) = 0 \<and>
        packet_count (from_wire buf (take ?n (packet_bytes p))) = Inr (int (length hs)) \<and>
        (\<forall>i < length hs. packet_hash (from_wire buf (take ?n (packet_bytes p))) i = Inr (hs ! i))"
      unfolding q using assms(1) hash by (simp add: asks_for_def)
  qed
  then show ?thesis using s by blast
qed


section \<open>Properties of the command\<close>

definition word_ok :: "byte list \<Rightarrow> bool" where
  "word_ok w \<longleftrightarrow> w \<noteq> [] \<and> length w \<le> 120 \<and> (\<forall>b \<in> set w. \<not> is_space b)"

lemma scan_word_120_word:
  assumes "word_ok w" "r = [] \<or> is_space (hd r)"
  shows "scan_word_120 (32 # w @ r) = Some (w, r)"
proof -
  obtain x xs where x: "w = x # xs" "\<not> is_space x" using assms(1) by (cases w) (auto simp: word_ok_def)
  have sp: "is_space 32" by (simp add: is_space_def)
  have sk: "skip_space (32 # w @ r) = w @ r" using x sp by (simp add: skip_space_def)
  have "takeWhile (\<lambda>b. \<not> is_space b) r = []" using assms(2) by (cases r) auto
  then have "takeWhile (\<lambda>b. \<not> is_space b) (w @ r) = w"
    using assms(1) by (subst takeWhile_append2) (auto simp: word_ok_def)
  then show ?thesis
    using assms(1) sk x(1) by (simp add: scan_word_120_def word_ok_def)
qed

lemma scan_get_command:
  assumes "word_ok c" "word_ok out"
  shows "scan_get ([0x47, 0x45, 0x54, 32] @ c @ [32] @ out) = (c, out)"
proof -
  have "is_space 32" by (simp add: is_space_def)
  then show ?thesis
    using scan_word_120_word [OF assms(1), of "32 # out"] scan_word_120_word [OF assms(2), of "[]"]
    by (simp add: scan_get_def)
qed

lemma generate_WHOHAS_frame:
  assumes "generate_WHOHAS io c out ps = Inr (ps', ret)"
  shows "ps_config ps' = (ps_config ps)\<lparr>output_file := take 120 out\<rparr> \<and> ps_sender ps' = ps_sender ps \<and>
    ps_recv ps' = ps_recv ps \<and> ps_tracker ps' = ps_tracker ps \<and> ps_written ps' = ps_written ps"
  using assms by (auto simp: generate_WHOHAS_def Let_def res_simps split: option.splits if_splits)

text \<open>The circumstances of a GET command: the chunk file and the master chunk file.\<close>

definition get_files :: "io \<Rightarrow> bt_config_t \<Rightarrow> byte list \<Rightarrow> (nat \<times> byte list) list \<Rightarrow> (nat \<times> byte list) list \<Rightarrow> bool" where
  "get_files io config c es ms \<longleftrightarrow>
     io_fs io c = Some (chunk_text es) \<and> (\<forall>e \<in> set es. length (snd e) = 20) \<and>
     (\<exists>path. io_fs io (chunk_file config) = Some (master_text path ms) \<and> path_ok path) \<and>
     (\<forall>m \<in> set ms. length (snd m) = 20) \<and> io_slack io \<noteq> [] \<and> 1200 \<le> length (io_data io) \<and>
     (\<exists>junk. c_string (io_stk io) = Inr junk \<and> length junk \<le> 1195)"

definition requested :: "int \<Rightarrow> (nat \<times> byte list) list \<Rightarrow> (nat \<times> byte list) list \<Rightarrow> file_manager_t" where
  "requested now es ms = \<lparr>fm_init = True, fm_chunk_count = int (length es),
     fm_offset = Some (map (\<lambda>e. master_offset ms (snd e)) es), fm_top = int (length es),
     fm_timer = Some (replicate (length es) now), fm_already_used = Some []\<rparr>"

lemma process_get_result:
  assumes "get_files io (ps_config ps) c es ms"
  shows "\<exists>ps' msgs groups. process_get io c out ps =
      Inr (ps', concat (map (\<lambda>m. map (\<lambda>a. (a, m)) (others (ps_config ps))) msgs)) \<and>
    list_all2 reads_request msgs groups \<and> concat groups = map snd es \<and>
    (\<forall>g \<in> set groups. length g \<le> 50) \<and>
    ps' = ps\<lparr>ps_config := (ps_config ps)\<lparr>output_file := take 120 out\<rparr>, ps_fm := requested (io_now io) es ms\<rparr>"
proof -
  obtain path junk where f: "io_fs io (chunk_file (ps_config ps)) = Some (master_text path ms)" "path_ok path"
      "c_string (io_stk io) = Inr junk" "length junk \<le> 1195"
    using assms by (auto simp: get_files_def)
  obtain ps' packets groups where g: "generate_WHOHAS io c out ps = Inr (ps', rev packets)"
      "list_all2 asks_for packets groups" "concat groups = map snd es"
      "\<forall>g \<in> set (butlast groups). length g = 50" "length (last groups) < 50"
      "ps_fm ps' = requested (io_now io) es ms"
    using generate_whohas_text [of io c es ps path ms junk out] assms f
    by (auto simp: get_files_def requested_def)
  have small: "\<forall>g \<in> set groups. length g \<le> 50"
  proof (cases groups rule: rev_cases)
    case (snoc gs g)
    then show ?thesis using g(4,5) by auto
  qed simp
  have "list_all2 (\<lambda>p hs. asks_for p hs \<and> length hs \<le> 50) packets groups"
    using g(2) small by (induction packets groups rule: list_all2_induct) auto
  then have "\<exists>msgs. list_all2 (\<lambda>p m. sendto_bytes p = Inr m) packets msgs \<and> list_all2 reads_request msgs groups"
  proof (induction packets groups rule: list_all2_induct)
    case (Cons p ps hs gs)
    then obtain m where "sendto_bytes p = Inr m" "reads_request m hs" using asks_for_sent [of p hs] by auto
    moreover obtain msgs where "list_all2 (\<lambda>p m. sendto_bytes p = Inr m) ps msgs"
        "list_all2 reads_request msgs gs"
      using Cons by blast
    ultimately show ?case by (intro exI [of _ "m # msgs"]) simp
  qed simp
  then obtain msgs where m: "list_all2 (\<lambda>p m. sendto_bytes p = Inr m) packets msgs"
      "list_all2 reads_request msgs groups" by blast
  note fr = generate_WHOHAS_frame [OF g(1)]
  then have "others (ps_config ps') = others (ps_config ps)" by (simp add: others_def)
  then have "process_get io c out ps =
      Inr (ps', concat (map (\<lambda>m. map (\<lambda>a. (a, m)) (others (ps_config ps))) msgs))"
    using g(1) broadcast_all_result [OF m(1), of "ps_config ps'"] by (simp add: process_get_def)
  moreover have "ps' = ps\<lparr>ps_config := (ps_config ps)\<lparr>output_file := take 120 out\<rparr>,
      ps_fm := requested (io_now io) es ms\<rparr>"
    using fr g(6) by (cases ps; cases ps') simp
  ultimately show ?thesis using m(2) g(3) small by blast
qed

text \<open>
  C16. The command \<^verbatim>\<open>GET chunkfile outfile\<close> reaches everybody: every other peer of the configuration is
  sent every request, whoever receives them reads exactly the hashes of the chunk file in order, at
  most fifty per datagram, and the download is set up in the file manager.
\<close>

theorem get_command_floods:
  assumes "word_ok c" and "word_ok out" and "get_files io (ps_config ps) c es ms"
  shows "\<exists>msgs groups. handle_user_input io ([0x47, 0x45, 0x54, 32] @ c @ [32] @ out) ps =
      Inr (ps\<lparr>ps_config := (ps_config ps)\<lparr>output_file := out\<rparr>, ps_fm := requested (io_now io) es ms\<rparr>,
        concat (map (\<lambda>m. map (\<lambda>a. (a, m)) (others (ps_config ps))) msgs)) \<and>
    list_all2 reads_request msgs groups \<and> concat groups = map snd es \<and>
    (\<forall>g \<in> set groups. length g \<le> 50)"
proof -
  have "out \<noteq> []" "take 120 out = out" using assms(2) by (simp_all add: word_ok_def)
  then show ?thesis
    using process_get_result [OF assms(3), of out] scan_get_command [OF assms(1,2)]
    unfolding handle_user_input_def by auto
qed

theorem get_command_floods_witness:
  "\<exists>msgs groups. handle_user_input example_io [0x47, 0x45, 0x54, 32, 104, 32, 111] (example_peer [] initial_manager) =
      Inr (example_peer [] (requested 100 [(0, replicate 20 1)] [(0, replicate 20 1)]),
        concat (map (\<lambda>m. [(peer_addr (hd (peers example_config)), m)]) msgs)) \<and>
    list_all2 reads_request msgs groups \<and> concat groups = [replicate 20 1]"
proof -
  let ?ps = "example_peer [] initial_manager" and ?es = "[(0, replicate 20 1)] :: (nat \<times> byte list) list"
  have "path_ok [97]" by (simp add: path_ok_def is_space_def)
  then have "get_files example_io (ps_config ?ps) [104] ?es ?es"
    by (auto simp: get_files_def example_io_def example_peer_def example_config_def c_string_def)
  moreover have "word_ok [104]" "word_ok [111]" by (simp_all add: word_ok_def is_space_def)
  ultimately obtain msgs groups where r: "handle_user_input example_io
        ([0x47, 0x45, 0x54, 32] @ [104] @ [32] @ [111]) ?ps =
      Inr (?ps\<lparr>ps_config := (ps_config ?ps)\<lparr>output_file := [111]\<rparr>,
          ps_fm := requested (io_now example_io) ?es ?es\<rparr>,
        concat (map (\<lambda>m. map (\<lambda>a. (a, m)) (others (ps_config ?ps))) msgs))"
      "list_all2 reads_request msgs groups" "concat groups = map snd ?es"
    using get_command_floods [of "[104]" "[111]" example_io ?ps ?es ?es] by blast
  have s: "?ps\<lparr>ps_config := (ps_config ?ps)\<lparr>output_file := [111]\<rparr>,
      ps_fm := requested (io_now example_io) ?es ?es\<rparr> = example_peer [] (requested 100 ?es ?es)"
    by (simp add: example_peer_def example_config_def example_io_def)
  have o: "others (ps_config ?ps) = [peer_addr (hd (peers example_config))]"
    by (simp add: others_def example_peer_def example_config_def)
  show ?thesis
    using r unfolding s o by (intro exI [of _ msgs] exI [of _ groups]) simp
qed


section \<open>Properties of the retransmission\<close>

lemma losses_elsewhere:
  "node \<noteq> 0 \<Longrightarrow> session node ((process_packet_loss 0 ^^ n) S) = session node S"
  by (induction n) (simp_all add: process_packet_loss_other)

lemma tracker_sane_entries:
  "tracker_sane trk \<Longrightarrow> \<forall>t \<in> set trk. tr_seq t = -441 \<or> entry_ok t"
  by (cases trk) (auto simp: tracker_sane_def tracker_ok_def)

lemma check_timeouts_result:
  assumes "tracker_sane (ps_tracker ps)"
  shows "\<exists>outs. check_timeouts io ps =
      Inr (ps\<lparr>ps_tracker := map (after_timeout (io_now io)) (ps_tracker ps),
        ps_sender := (process_packet_loss 0 ^^ length (expired (io_now io) (ps_tracker ps))) (ps_sender ps)\<rparr>, outs) \<and>
    list_all2 resends (expired (io_now io) (ps_tracker ps)) outs"
  using retransmit_result [OF tracker_sane_entries [OF assms], of "io_now io" "ps_sender ps"]
  by (auto simp: check_timeouts_def)

lemma after_timeout_keys [simp]:
  "tr_seq (after_timeout now t) = tr_seq t" "tr_sock (after_timeout now t) = tr_sock t"
  "tr_packet (after_timeout now t) = tr_packet t"
  by (simp_all add: after_timeout_def Let_def)

lemma after_timeout_entry: "entry_ok (after_timeout now t) = entry_ok t" "silent (after_timeout now t) = silent t"
  by (simp_all add: entry_ok_def silent_def)

lemma after_timeout_sane: "tracker_sane trk \<Longrightarrow> tracker_sane (map (after_timeout now) trk)"
  by (cases trk) (auto simp: tracker_sane_def tracker_ok_def after_timeout_entry o_def)

text \<open>
  C17. Every expired timer makes its packet go out once more, to the peer it was meant for and with its
  sequence number, and is restarted; no other packet is sent. The congestion window is not reduced:
  \<^verbatim>\<open>process_packet_loss\<close> is called with the acknowledgement number 0 of the packet instead of the peer,
  so no session but one of a peer 0 notices the loss.
\<close>

theorem timeouts_resend_but_keep_window:
  assumes "tracker_sane (ps_tracker ps)"
  shows "\<exists>ps' outs. check_timeouts io ps = Inr (ps', outs) \<and>
    list_all2 resends (expired (io_now io) (ps_tracker ps)) outs \<and>
    expired (io_now io) (ps_tracker ps') = [] \<and> timers (ps_tracker ps') = timers (ps_tracker ps) \<and>
    tracker_sane (ps_tracker ps') \<and>
    (\<forall>node. node \<noteq> 0 \<longrightarrow> session node (ps_sender ps') = session node (ps_sender ps))"
proof -
  obtain outs where o: "check_timeouts io ps =
      Inr (ps\<lparr>ps_tracker := map (after_timeout (io_now io)) (ps_tracker ps),
        ps_sender := (process_packet_loss 0 ^^ length (expired (io_now io) (ps_tracker ps))) (ps_sender ps)\<rparr>, outs)"
      "list_all2 resends (expired (io_now io) (ps_tracker ps)) outs"
    using check_timeouts_result [OF assms] by blast
  have "expired now (map (after_timeout now) trk) = []" for now trk
    by (auto simp: expired_def filter_empty_conv after_timeout_def Let_def split: if_splits)
  moreover have "timers (map (after_timeout now) trk) = timers trk" for now trk
    by (simp add: timers_def map_tl [symmetric] o_def)
  ultimately show ?thesis
    using o after_timeout_sane [OF assms] losses_elsewhere by simp
qed

text \<open>A tracker with one packet that was sent a while ago, and its dummy.\<close>

definition example_timer :: packet_tracker_t where
  "example_timer = \<lparr>tr_sock = 7, tr_seq = 1,
     tr_from = \<lparr>sin_family = 2, sin_port = 1, s_addr = 16777343\<rparr>, tr_send_time = 90, tr_expire_time = 0,
     tr_packet = \<lparr>header = hdr_swap (host_header 3 1040 1 0), data = replicate 1200 0\<rparr>\<rparr>"

definition example_dummy :: packet_tracker_t where
  "example_dummy = example_timer\<lparr>tr_seq := -441\<rparr>"

lemma example_timers_sane: "tracker_sane [example_dummy, example_timer]"
proof -
  have "seq_num (header (tr_packet example_timer)) = htonl 1" by (simp add: example_timer_def)
  moreover have "512 < htonl 1" using htonl_seq_silent [of 1] by simp
  moreover have "sendto_bytes (tr_packet example_timer) = Inr (take 1040 (packet_bytes (tr_packet example_timer)))"
    by (simp add: sendto_bytes_def example_timer_def)
  ultimately show ?thesis
    by (simp add: tracker_sane_def tracker_ok_def silent_def entry_ok_def example_dummy_def)
      (simp add: example_timer_def)
qed

theorem timeouts_resend_but_keep_window_witness:
  "\<exists>ps' out. check_timeouts example_io ((example_peer [] initial_manager)
      \<lparr>ps_tracker := [example_dummy, example_timer], ps_sender := example_sender\<rparr>) = Inr (ps', [out]) \<and>
    resends example_timer out \<and> session 7 (ps_sender ps') = Some example_session"
proof -
  let ?ps = "(example_peer [] initial_manager)
      \<lparr>ps_tracker := [example_dummy, example_timer], ps_sender := example_sender\<rparr>"
  have "expired 100 [example_dummy, example_timer] = [example_timer]"
    by (simp add: expired_def example_dummy_def) (simp add: example_timer_def)
  moreover have "io_now example_io = 100" by (simp add: example_io_def)
  ultimately show ?thesis
    using timeouts_resend_but_keep_window [of ?ps example_io] example_timers_sane example_session_at
    by (fastforce simp: list_all2_Cons1)
qed


end
