(* ===== verification/PeerSafety.thy ===== *)
theory PeerSafety
  imports Peer
begin

text \<open>
  The invariant of a peer and the datagrams that cannot make it leave defined behaviour.

  \<open>peer_ok\<close> says of every part of the state what its operations rely on; \<open>acceptable\<close> spells out what
  the code takes for granted of a datagram. Every handler, given a peer that is \<open>peer_ok\<close> and an
  acceptable packet, returns without a fault, keeps the invariant and hands over responses that can be
  sent. The lemmas go through the parts in the order of the files.
\<close>

section \<open>Buffers\<close>

definition buffer_ok :: "recv_buffer_t \<Rightarrow> bool" where
  "buffer_ok b \<longleftrightarrow> length (rb_chunks b) = 512 \<and> 1 \<le> rb_expected b \<and> rb_expected b \<le> 1024 \<and>
     (\<forall>c \<in> set (rb_chunks b). length (ch_content c) = 1500 \<and> 0 \<le> ch_length c \<and> ch_length c \<le> 1484)"

definition buffers_ok :: "recv_buffer_t list \<Rightarrow> bool" where
  "buffers_ok l \<longleftrightarrow> (\<forall>b \<in> set l. buffer_ok b)"

lemma buffers_ok_Cons [simp]: "buffers_ok (b # l) \<longleftrightarrow> buffer_ok b \<and> buffers_ok l"
  by (simp add: buffers_ok_def)

lemma buffers_ok_Nil [simp]: "buffers_ok []"
  by (simp add: buffers_ok_def)

lemma copy_bytes_total:
  assumes "0 \<le> n" "n \<le> int (length src)" "n \<le> int (length dst)"
  shows "\<exists>content. copy_bytes n src dst = Inr content \<and> length content = length dst"
proof -
  have "nat n \<le> length src" "nat n \<le> length dst" using assms by linarith+
  then show ?thesis by (cases "n = 0") (auto simp: copy_bytes_def length_blit)
qed

lemma fresh_buffer_ok: "length u = 1500 \<Longrightarrow> buffer_ok (fresh_buffer u off node)"
  by (simp add: buffer_ok_def fresh_buffer_def)

lemma buffer_ok_busy [simp]: "buffer_ok (b\<lparr>rb_busy := x\<rparr>) = buffer_ok b"
  by (simp add: buffer_ok_def)

lemma release_buffer_ok [simp]: "buffers_ok (release_buffer off l) = buffers_ok l"
  by (induction l) (auto simp: release_buffer_def)

lemma release_all_ok [simp]: "buffers_ok (release_all offs l) = buffers_ok l"
  by (induction l) (auto simp: release_all_def)

lemma release_full_ok: "release_full offs l = (l', r) \<Longrightarrow> buffers_ok l' = buffers_ok l"
  by (induction offs arbitrary: l) (auto split: if_splits)

lemma buffer_ok_update:
  assumes "buffer_ok b" "length (ch_content c) = 1500" "0 \<le> ch_length c" "ch_length c \<le> 1484"
  shows "buffer_ok (b\<lparr>rb_chunks := (rb_chunks b)[i := c]\<rparr>)"
  using assms set_update_subset_insert [of "rb_chunks b" i c] by (auto simp: buffer_ok_def)

lemma store_packet_buffer_ok:
  assumes "buffer_ok b" "0 \<le> seq" "seq < 512" "length (data p) = 1484"
    "0 \<le> payload_len (header p)" "payload_len (header p) \<le> 1484"
  shows "\<exists>b'. store_packet p seq b = Inr b' \<and> buffer_ok b' \<and> rb_expected b' = rb_expected b \<and>
    rb_offset b' = rb_offset b \<and> rb_socket b' = rb_socket b"
proof -
  have rg: "in_range seq (rb_chunks b)" using assms(1-3) by (simp add: in_range_def buffer_ok_def)
  let ?c = "rb_chunks b ! nat seq"
  have "?c \<in> set (rb_chunks b)" using assms(1-3) by (simp add: buffer_ok_def)
  then have c: "length (ch_content ?c) = 1500" using assms(1) by (simp add: buffer_ok_def)
  show ?thesis
  proof (cases "ch_recved ?c")
    case True
    then show ?thesis using rg assms(1) by (simp add: store_packet_def)
  next
    case False
    let ?n = "payload_len (header p)"
    obtain content where k: "copy_bytes ?n (data p) (ch_content ?c) = Inr content" "length content = 1500"
      using copy_bytes_total [of ?n "data p" "ch_content ?c"] assms(4-6) c by auto
    let ?cs = "(rb_chunks b)[nat seq := ?c\<lparr>ch_recved := True, ch_length := ?n, ch_content := content\<rparr>]"
    let ?b = "b\<lparr>rb_chunks := ?cs\<rparr>"
    have "buffer_ok ?b" using k(2) assms(1,5,6) by (intro buffer_ok_update) simp_all
    then have "buffer_ok (b\<lparr>rb_total_recv := rb_total_recv b + ?n, rb_chunks := ?cs\<rparr>)"
      by (simp add: buffer_ok_def)
    then show ?thesis using False rg k(1) by (simp add: store_packet_def Let_def)
  qed
qed

lemma recv_session_buffer_ok:
  assumes "buffer_ok b" "0 \<le> seq" "seq < 512" "length (data p) = 1484"
    "0 \<le> payload_len (header p)" "payload_len (header p) \<le> 1484" "readable beyond"
  shows "\<exists>b' a. recv_session beyond p seq b = Inr (b', ack_pkt a) \<and> buffer_ok b' \<and>
    rb_offset b' = rb_offset b \<and> rb_socket b' = rb_socket b"
proof -
  obtain b1 where b1: "store_packet p seq b = Inr b1" "buffer_ok b1" "rb_expected b1 = rb_expected b"
      "rb_offset b1 = rb_offset b" "rb_socket b1 = rb_socket b"
    using store_packet_buffer_ok [OF assms(1-6)] by blast
  let ?n = "nat (1024 - rb_expected b1)"
  have e: "length (rb_chunks b1) = 512" "1 \<le> rb_expected b1" "rb_expected b1 + int ?n \<le> 1024"
    using b1(2) by (auto simp: buffer_ok_def)
  obtain a where a: "ack_scan beyond (rb_chunks b1) (rb_expected b1) ?n = Inr a" "rb_expected b1 \<le> a"
      "a \<le> rb_expected b1 + int ?n"
    using ack_scan_result [OF e(1) _ assms(7) e(3)] e(2) by auto
  let ?c = "(rb_chunks b1 ! nat seq)\<lparr>ch_acked := True\<rparr>"
  have "rb_chunks b1 ! nat seq \<in> set (rb_chunks b1)" using assms(2,3) e(1) by simp
  then have "buffer_ok (b1\<lparr>rb_chunks := (rb_chunks b1)[nat seq := ?c]\<rparr>)"
    using b1(2) by (intro buffer_ok_update) (auto simp: buffer_ok_def)
  then have "buffer_ok (b1\<lparr>rb_chunks := (rb_chunks b1)[nat seq := ?c], rb_expected := a\<rparr>)"
    "buffer_ok (b1\<lparr>rb_expected := a\<rparr>)"
    using a(2,3) e b1(2) by (simp_all add: buffer_ok_def)
  moreover have "mark_acked seq (rb_chunks b1) = Inr ((rb_chunks b1)[nat seq := ?c])"
    using assms(2,3) e(1) by (simp add: mark_acked_def in_range_def)
  ultimately show ?thesis
    using b1(1,4,5) a(1)
    by (auto simp: recv_session_def init_packet_no_data ack_pkt_def)
qed

lemma copy_chunk_data_total:
  assumes "buffers_ok l" "j < 512" "length temp = 1500"
  shows "\<exists>temp' len. copy_chunk_data temp off j l = Inr (temp', len) \<and> length temp' = 1500 \<and>
    0 \<le> len \<and> len \<le> 1484"
proof (cases "List.find (\<lambda>b. rb_offset b = off) l")
  case None
  then show ?thesis using assms(3) by (simp add: copy_chunk_data_def)
next
  case (Some b)
  have b: "buffer_ok b" using find_Some_in_set [OF Some] assms(1) by (simp add: buffers_ok_def)
  then have "rb_chunks b ! j \<in> set (rb_chunks b)" using assms(2) by (simp add: buffer_ok_def)
  then have c: "length (ch_content (rb_chunks b ! j)) = 1500" "0 \<le> ch_length (rb_chunks b ! j)"
      "ch_length (rb_chunks b ! j) \<le> 1484"
    using b by (auto simp: buffer_ok_def)
  have "in_range (int j) (rb_chunks b)" using b assms(2) by (simp add: buffer_ok_def in_range_def)
  moreover obtain buf where "copy_bytes (ch_length (rb_chunks b ! j)) (ch_content (rb_chunks b ! j)) temp = Inr buf"
      "length buf = 1500"
    using copy_bytes_total [of "ch_length (rb_chunks b ! j)" "ch_content (rb_chunks b ! j)" temp] c assms(3) by auto
  ultimately show ?thesis using Some c assms(3) by (auto simp: copy_chunk_data_def)
qed

lemma write_packets_total:
  assumes "buffers_ok l" "set js \<subseteq> {..<512}" "length temp = 1500"
  shows "\<exists>out. write_packets off l js temp = Inr out"
  using assms(2,3)
proof (induction js arbitrary: temp)
  case (Cons j js)
  then obtain temp' len where t: "copy_chunk_data temp off j l = Inr (temp', len)" "length temp' = 1500"
      "0 \<le> len" "len \<le> 1484"
    using copy_chunk_data_total [OF assms(1), of j temp off] by auto
  then show ?case using Cons.IH [of temp'] Cons.prems(1) by auto
qed simp

lemma write_chunks_total:
  assumes "buffers_ok l"
  shows "\<exists>out. write_chunks offs l = Inr out"
proof (induction offs)
  case (Cons off offs)
  have "set packet_indices \<subseteq> {..<512}" unfolding packet_indices_def by auto
  then show ?case
    using Cons write_packets_total [OF assms, of packet_indices "replicate 1500 0" off] by auto
qed simp

section \<open>The file manager\<close>

text \<open>While a download is active there is one timer per chunk, and the master file knows every chunk.\<close>

definition manager_ok :: "(nat \<times> byte list) list \<Rightarrow> file_manager_t \<Rightarrow> bool" where
  "manager_ok ms fm \<longleftrightarrow> (fm_init fm \<longrightarrow>
     (\<exists>offs. manager_ready offs fm \<and> (\<forall>off \<in> set offs. master_hash ms off \<noteq> None)))"

definition offsets_of :: "file_manager_t \<Rightarrow> int list" where
  "offsets_of fm = (case manager_offsets fm of Inr offs \<Rightarrow> offs | Inl _ \<Rightarrow> [])"

lemma manager_readyD: "manager_ready offs fm \<Longrightarrow> offsets_of fm = offs"
  by (simp add: manager_ready_def offsets_of_def)

lemma closed_manager_ok [simp]: "manager_ok ms (closed_manager fm)"
  by (simp add: manager_ok_def closed_manager_def)

lemma touch_timer_ready:
  assumes "manager_ready offs fm" "off \<in> set offs"
  shows "\<exists>ts. touch_timer off now fm = Inr (fm\<lparr>fm_timer := Some ts\<rparr>) \<and>
    manager_ready offs (fm\<lparr>fm_timer := Some ts\<rparr>)"
proof -
  obtain used ts where fm: "manager_offsets fm = Inr offs" "fm_already_used fm = Some used"
      "fm_timer fm = Some ts" "length ts = length offs"
    using assms(1) by (auto simp: manager_ready_def)
  have "in_range (int (index_of off offs)) ts"
    using fm(4) index_of_less [OF assms(2)] by (simp add: in_range_def)
  then show ?thesis
    using fm by (intro exI [of _ "ts[index_of off offs := now]"]) (simp add: touch_timer_def manager_ready_def)
qed

text \<open>\<open>released l b b'\<close>: a buffer of the list \<open>l\<close> is left alone, or its busy flag was cleared and its chunk is complete.\<close>

definition released :: "recv_buffer_t list \<Rightarrow> recv_buffer_t \<Rightarrow> recv_buffer_t \<Rightarrow> bool" where
  "released l b b' \<longleftrightarrow> b' = b \<or> b' = b\<lparr>rb_busy := False\<rparr> \<and> is_buffer_full (rb_offset b) l = 1"

lemma release_buffer_released:
  "is_buffer_full off l = 1 \<Longrightarrow> list_all2 (released l) l (release_buffer off l)"
  by (auto simp: release_buffer_def released_def list_all2_map2 intro: list_all2_refl)

lemma released_trans:
  assumes "list_all2 (released l) l l'" "list_all2 (released l') l' l''"
    "\<forall>off. is_buffer_full off l' = is_buffer_full off l"
  shows "list_all2 (released l) l l''"
  by (rule list_all2_trans [OF _ assms(1,2)]) (use assms(3) in \<open>auto simp: released_def\<close>)

lemma release_full_released: "release_full offs l = (l', r) \<Longrightarrow> list_all2 (released l) l l'"
proof (induction offs arbitrary: l)
  case (Cons off offs)
  show ?case
  proof (cases "is_buffer_full off l = 1")
    case True
    then have "list_all2 (released (release_buffer off l)) (release_buffer off l) l'"
      using Cons by simp
    then show ?thesis by (rule released_trans [OF release_buffer_released [OF True]]) simp_all
  next
    case False
    with Cons.prems show ?thesis by (simp add: released_def list_all2_refl)
  qed
qed (simp add: released_def list_all2_refl)

lemma check_file_manager_ok:
  assumes "manager_ok ms fm" "buffers_ok l"
  shows "\<exists>fm' l' w r. check_file_manager True fm l = Inr (fm', l', w, r) \<and> manager_ok ms fm' \<and> buffers_ok l' \<and>
    list_all2 (released l) l l'"
proof (cases "fm_init fm")
  case True
  then obtain offs where offs: "manager_offsets fm = Inr offs"
    using assms(1) by (auto simp: manager_ok_def manager_ready_def)
  obtain l' full where l': "release_full offs l = (l', full)" by fastforce
  then have "buffers_ok l'" "list_all2 (released l) l l'"
    using assms(2) release_full_ok release_full_released by blast+
  then show ?thesis
    using True offs l' assms(1) write_chunks_total [of l' offs]
    by (cases full) (auto simp: check_file_manager_def)
qed (use assms in \<open>simp add: check_file_manager_def released_def list_all2_refl\<close>)

section \<open>Sessions and responses\<close>

definition sessions_ok :: "sender_st \<Rightarrow> bool" where
  "sessions_ok S \<longleftrightarrow> (\<forall>k d. session k S = Some d \<longrightarrow> (\<exists>F. sender_wf F d))"

definition good_response :: "data_packet_t \<Rightarrow> bool" where
  "good_response p \<longleftrightarrow> response_ok p \<and> (\<exists>m. to_wire p = Inr m)"

lemma data_pkt_good:
  assumes "length F = 524288" "k < 512"
  shows "good_response (data_pkt F k)"
proof -
  have "uint (word_of_int (int k + 1) :: 32 word) = (int k + 1) mod 2 ^ 32"
    using uint_word_of_int [of "int k + 1", where ?'a = 32] by simp
  then have w: "uint (word_of_int (int k + 1) :: 32 word) = int k + 1"
    using assms(2) mod_pos_pos_trivial [of "int k + 1" "2 ^ 32"] by (simp only:) simp
  then have "1 \<le> (word_of_int (int k + 1) :: 32 word)" "(word_of_int (int k + 1) :: 32 word) \<le> 512"
    unfolding word_le_def w using assms(2) by simp_all
  then show ?thesis
    using to_wire_data_pkt [OF assms] by (simp add: good_response_def response_ok_def data_pkt_def)
qed

lemma ack_pkt_good: "good_response (ack_pkt a)"
  using to_wire_ack_pkt [of a] by (simp add: good_response_def response_ok_def ack_pkt_def)

lemma plain_response_good:
  assumes "t \<noteq> 3" "n \<le> 16 + length d" "n < 65536"
  shows "good_response \<lparr>header = hdr_swap (host_header t n 0 0), data = d\<rparr>"
  using to_wire_host [OF assms(2,3), of t 0 0] assms(1) by (simp add: good_response_def response_ok_def)

lemma good_responses_wire: "\<forall>p \<in> set ps. good_response p \<Longrightarrow> \<exists>ms. all_to_wire ps = Inr ms"
  by (induction ps) (auto simp: good_response_def)

lemma remove_sane:
  assumes "tracker_sane trk" "0 \<le> q"
  shows "\<exists>trk' r. remove_from_tracker trk node q = Inr (trk', r) \<and> tracker_sane trk'"
proof -
  obtain trk' r where r: "remove_from_tracker trk node q = Inr (trk', r)"
    using rq.remove_succeeds [OF _ assms(2)] assms(1) unfolding tracker_sane_def by blast
  have ok: "tracker_ok trk'" using rq.removeD(1) [OF r _ assms(2)] assms(1) by (simp add: tracker_sane_def)
  show ?thesis
  proof (cases trk)
    case Nil
    then show ?thesis using r by (simp add: remove_from_tracker_def)
  next
    case (Cons d ts)
    obtain ts' r' where u: "unlink_first ts node q = (ts', r')" by fastforce
    have "distinct (map tr_seq ts)" "\<not> tracks node q d"
      using assms Cons by (auto simp: tracker_sane_def tracker_ok_def tracks_def)
    then have "trk' = d # ts'" "set ts' \<subseteq> set ts"
      using r u Cons unlink_first_filter [OF _ u] by (auto simp: remove_from_tracker_def)
    then show ?thesis using r ok assms(1) Cons by (auto simp: tracker_sane_def)
  qed
qed

lemma ack_loop_sane:
  assumes "ack_loop node d trk i ack = Inr (d', trk', c)" "tracker_sane trk" "0 \<le> i"
  shows "tracker_sane trk'"
  using assms
proof (induction "nat (ack + 1 - i)" arbitrary: d trk i)
  case 0
  then have "\<not> (i \<le> ack \<and> i < int CHUNK_PACKET_NUMBER)" by simp
  with 0 show ?case by (subst (asm) ack_loop.simps) (simp only: if_False, simp)
next
  case (Suc n)
  note IH = Suc.hyps(1) [of "i + 1"]
  have n: "n = nat (ack + 1 - (i + 1))" using Suc.hyps(2) by simp
  show ?case
  proof (cases "i \<le> ack \<and> i < int CHUNK_PACKET_NUMBER")
    case False
    with Suc.prems show ?thesis by (subst (asm) ack_loop.simps) (simp only: if_False, simp)
  next
    case True
    obtain t r where rem: "remove_from_tracker trk node i = Inr (t, r)" "tracker_sane t"
      using remove_sane [OF Suc.prems(2,3)] by blast
    have "(\<exists>d2. ack_loop node d2 t (i + 1) ack = Inr (d', trk', c)) \<or>
        ack_loop node d trk (i + 1) ack = Inr (d', trk', c) \<or> trk' = trk"
      using Suc.prems(1) True rem(1)
      by (subst (asm) ack_loop.simps) (auto simp: res_simps split: if_splits)
    then show ?thesis using IH [OF n] rem(2) Suc.prems(2,3) by auto
  qed
qed


lemma handle_ack_safe:
  assumes "sessions_ok S" "tracker_sane trk" "-1 \<le> ack"
  shows "\<exists>S' trk' ps. handle_ack node ack trk S = Inr (S', trk', ps) \<and> sessions_ok S' \<and>
    tracker_sane trk' \<and> (\<forall>p \<in> set ps. good_response p)"
proof (cases "session node S")
  case None
  then show ?thesis using assms(1,2) by (simp add: handle_ack_def)
next
  case (Some d)
  then obtain F where F: "sender_wf F d" using assms(1) by (auto simp: sessions_ok_def)
  show ?thesis
  proof (cases "ack > 512")
    case True
    then show ?thesis using Some assms(1,2) by (simp add: handle_ack_def layout_simps)
  next
    case False
    obtain S' trk' ps where h: "handle_ack node ack trk S = Inr (S', trk', ps)"
        "ack_effect F node ack d S trk S' trk' ps"
      using handle_ack_effect [OF Some F _ assms(3), of trk] False assms(2) by (auto simp: tracker_sane_def)
    have "sessions_ok S'"
      using h(2) assms(1) unfolding sessions_ok_def ack_effect_def by (metis option.inject)
    moreover have "\<forall>p \<in> set ps. good_response p"
    proof -
      have "length F = 524288" using F by (simp add: sender_wf_def)
      then show ?thesis using h(2) data_pkt_good unfolding ack_effect_def by blast
    qed
    moreover have "tracker_sane trk'"
    proof (cases "check_return_ack d ack")
      case (Pair d1 dup)
      have i: "0 \<le> d_start d1 + 1"
        using check_return_ack_wf [OF Pair F] by (auto simp: sender_wf_def)
      show ?thesis
      proof (cases dup)
        case True
        then show ?thesis
          using h(1) Some False Pair assms(2) by (auto simp: handle_ack_def layout_simps res_simps split: if_splits)
      next
        case False
        then obtain d' c where "ack_loop node d1 trk (d_start d1 + 1) ack = Inr (d', trk', c)"
          using h(1) Some \<open>\<not> ack > 512\<close> Pair
          by (auto simp: handle_ack_def layout_simps res_simps split: if_splits prod.splits)
        then show ?thesis using ack_loop_sane assms(2) i by blast
      qed
    qed
    ultimately show ?thesis using h(1) by blast
  qed
qed

lemma get_session_safe:
  assumes "sessions_ok S" "length F = 524288"
  shows "\<exists>S' ps. send_data node (init_datalist p c node off (Some F) S) = Inr (S', ps) \<and>
    sessions_ok S' \<and> (\<forall>p \<in> set ps. good_response p)"
proof -
  let ?S = "init_datalist p c node off (Some F) S"
  let ?d = "fresh_session p c node off F"
  have at: "session k ?S = (if k = node then Some ?d else session k S)" for k
    unfolding init_datalist_push by (simp add: snd.lookup_push fresh_session_wf)
  have s: "session node ?S = Some ?d" by (simp add: at)
  obtain d' ps where d': "send_data node ?S = Inr (put_session d' ?S, ps)" "sender_wf F d'"
      "d_socket d' = node" "set ps \<subseteq> data_pkt F ` {k. k < 512}"
    using send_data_session [OF s fresh_session_wf(1) [OF assms(2)]] by blast
  have "session k (put_session d' ?S) = (if k = node then Some d' else session k S)" for k
    using snd.lookup_store [of d' "snd_list ?S" k] s d'(3) at [of k] by simp
  then have "sessions_ok (put_session d' ?S)"
    using assms(1) d'(2) by (auto simp: sessions_ok_def)
  then show ?thesis using d'(1,4) data_pkt_good [OF assms(2)] by blast
qed

lemma process_packet_loss_sessions: "sessions_ok S \<Longrightarrow> sessions_ok (process_packet_loss n S)"
proof -
  assume S: "sessions_ok S"
  have "\<exists>F. sender_wf F d" if "session k (process_packet_loss n S) = Some d" for k d
  proof (cases "k = n")
    case False
    then show ?thesis using that S process_packet_loss_other by (auto simp: sessions_ok_def)
  next
    case True
    show ?thesis
    proof (cases "session n S")
      case None
      then show ?thesis using that True by (simp add: process_packet_loss_def)
    next
      case (Some e)
      then obtain F where "sender_wf F e" using S by (auto simp: sessions_ok_def)
      then show ?thesis using process_packet_loss_session [OF Some] that True by fastforce
    qed
  qed
  then show "sessions_ok (process_packet_loss n S)" by (simp add: sessions_ok_def)
qed

lemma losses_sessions: "sessions_ok S \<Longrightarrow> sessions_ok ((process_packet_loss n ^^ k) S)"
  by (induction k) (simp_all add: process_packet_loss_sessions)

section \<open>The invariant and the world\<close>

definition peer_ok :: "(nat \<times> byte list) list \<Rightarrow> peer_st \<Rightarrow> bool" where
  "peer_ok ms ps \<longleftrightarrow> sessions_ok (ps_sender ps) \<and> tracker_sane (ps_tracker ps) \<and>
     buffers_ok (ps_recv ps) \<and> manager_ok ms (ps_fm ps)"

text \<open>
  \<open>world_ok\<close>: the files of the configuration are as \<^verbatim>\<open>make_chunks\<close> prints them and the master data file
  is complete, at most four chunks are listed as local, the memory behind the arrays can be read and
  the byte behind the line buffers can be overwritten.
\<close>

definition world_ok :: "(nat \<times> byte list) list \<Rightarrow> bt_config_t \<Rightarrow> io \<Rightarrow> bool" where
  "world_ok ms config io \<longleftrightarrow>
     (\<exists>path content. io_fs io (chunk_file config) = Some (master_text path ms) \<and> path_ok path \<and>
        io_fs io path = Some content \<and> ms \<noteq> [] \<and>
        (\<forall>m \<in> set ms. length (snd m) = 20 \<and> fst m < 4096 \<and> 524288 * (fst m + 1) \<le> length content)) \<and>
     (io_fs io (has_chunk_file config) = None \<or>
       (\<exists>es. io_fs io (has_chunk_file config) = Some (chunk_text es) \<and>
          (\<forall>e \<in> set es. length (snd e) = 20) \<and> length es \<le> 4)) \<and>
     io_slack io \<noteq> [] \<and> length (io_local io) = 100 \<and> length (io_data io) = 524288 \<and>
     length (io_content io) = 1500 \<and> readable (io_beyond io) \<and> io_fopen_ok io \<and> silent (io_tracker io) \<and>
     (\<exists>junk. c_string (io_stk io) = Inr junk \<and> length junk \<le> 1195)"

text \<open>\<open>hashes_in p\<close>: the hashes that a WHOHAS or IHAVE packet lists.\<close>

definition hashes_in :: "data_packet_t \<Rightarrow> byte list list" where
  "hashes_in p = map (\<lambda>i. take 20 (drop (4 + 20 * i) (data p))) [0..<nat (sint (data p ! 0))]"

text \<open>
  What the code takes for granted of a packet from the peer \<open>node\<close>: small counts of hashes, offers only
  of chunks that belong to an active download, DATA packets only while it is active and for a buffer of
  it, with sequence number and length in range, no acknowledgement number that is negative.
\<close>

definition acceptable :: "(nat \<times> byte list) list \<Rightarrow> peer_st \<Rightarrow> int \<Rightarrow> data_packet_t \<Rightarrow> bool" where
  "acceptable ms ps node p \<longleftrightarrow>
     (let t = packet_type (header p); count = sint (data p ! 0); seq = sint (seq_num (header p)); fm = ps_fm ps in
      (t = 0 \<longrightarrow> 0 \<le> count \<and> count < 60) \<and>
      (t = 1 \<longrightarrow> 0 \<le> count \<and> count < 60 \<and> fm_init fm \<and>
         (\<forall>h \<in> set (hashes_in p). master_offset ms h = -1 \<or> master_offset ms h \<in> set (offsets_of fm))) \<and>
      (t = 3 \<longrightarrow> fm_init fm \<and> 1 \<le> seq \<and> seq \<le> 512 \<and> 0 \<le> payload_len (header p) \<and>
         payload_len (header p) \<le> 1484 \<and>
         (\<exists>b. get_recv_by_socket node (ps_recv ps) = Some b \<and> rb_offset b \<in> set (offsets_of fm))) \<and>
      (t = 4 \<longrightarrow> -1 \<le> sint (ack_num (header p) - 1)))"

text \<open>\<open>served ms config node ps r\<close>: a handler returned, with the invariant, the same configuration and good responses.\<close>

definition served :: "(nat \<times> byte list) list \<Rightarrow> peer_st \<Rightarrow> (peer_st \<times> data_packet_t list) res \<Rightarrow> bool" where
  "served ms ps r \<longleftrightarrow> (\<exists>ps' resp. r = Inr (ps', resp) \<and> peer_ok ms ps' \<and> ps_config ps' = ps_config ps \<and>
     (\<forall>p \<in> set resp. good_response p))"

lemma servedI: "r = Inr (ps', resp) \<Longrightarrow> peer_ok ms ps' \<Longrightarrow> ps_config ps' = ps_config ps \<Longrightarrow>
    \<forall>p \<in> set resp. good_response p \<Longrightarrow> served ms ps r"
  by (auto simp: served_def)

lemma world_master:
  assumes "world_ok ms config io"
  obtains path content where "io_fs io (chunk_file config) = Some (master_text path ms)" "path_ok path"
    "io_fs io path = Some content" "ms \<noteq> []" "\<forall>m \<in> set ms. length (snd m) = 20"
    "\<forall>m \<in> set ms. length (snd m) = 20 \<and> fst m < 4096 \<and> 524288 * (fst m + 1) \<le> length content"
  using assms unfolding world_ok_def by blast

lemma packet_hashes:
  assumes "length (data p) = 1484" "0 \<le> sint (data p ! 0)" "sint (data p ! 0) < 60"
  shows "packet_count p = Inr (int (length (hashes_in p)))" "length (hashes_in p) < 60"
    "\<forall>j < length (hashes_in p). packet_hash p j = Inr (hashes_in p ! j)"
    "\<forall>h \<in> set (hashes_in p). length h = 20"
  using assms by (auto simp: packet_count_def in_range_def hashes_in_def packet_hash_def)

lemma hashes_in_swap [simp]: "hashes_in (pkt_swap p) = hashes_in p"
  by (simp add: hashes_in_def)


section \<open>Every branch keeps the invariant\<close>

lemma whohas_served:
  assumes ok: "peer_ok ms ps" and w: "world_ok ms (ps_config ps) io"
    and p: "packet_type (header p) = 0" "length (data p) = 1484" "acceptable ms ps node p"
  shows "served ms ps (handle_packet io p node ps)"
proof -
  have c: "0 \<le> sint (data p ! 0)" "sint (data p ! 0) < 60" using p(1,3) by (auto simp: acceptable_def Let_def)
  note h = packet_hashes [OF p(2) c]
  show ?thesis
  proof (cases "io_fs io (has_chunk_file (ps_config ps))")
    case None
    have eq: "handle_packet io p node ps = Inr (ps, [])"
      using None p(1) h(1) by (simp add: handle_packet_def handle_whohas_def read_chunkfile_def)
    show ?thesis by (rule servedI [OF eq ok]) simp_all
  next
    case (Some s)
    then obtain es where es: "io_fs io (has_chunk_file (ps_config ps)) = Some (chunk_text es)"
        "\<forall>e \<in> set es. length (snd e) = 20" "length es \<le> 4"
      using w by (auto simp: world_ok_def)
    obtain junk where junk: "c_string (io_stk io) = Inr junk" "length junk \<le> 1195"
      using w by (auto simp: world_ok_def)
    define wanted where "wanted =
      filter (\<lambda>h. h \<in> set (takeWhile (\<lambda>h. 0 \<notin> set h) (map snd es))) (hashes_in p)"
    have io: "io_slack io \<noteq> []" "length (io_local io) = 100" using w by (simp_all add: world_ok_def)
    note r = whohas_reply_text [OF p(1) h(1,2) refl h(3) es io junk wanted_def, of node]
    show ?thesis
    proof (cases "wanted = []")
      case True
      then show ?thesis using r ok by (intro servedI [of _ ps "[]"]) simp_all
    next
      case False
      then obtain rest where rest: "handle_packet io p node ps = Inr (ps,
          [\<lparr>header = hdr_swap (host_header 1 (20 + 20 * length wanted) 0 0),
            data = [of_nat (length wanted), 1, 1, 1] @ concat wanted @ rest\<rparr>])"
          "length rest = 1196 - 20 * length wanted"
        using r by auto
      have "\<forall>h \<in> set wanted. length h = 20" using h(4) by (simp add: wanted_def)
      then have len: "length (concat wanted) = 20 * length wanted" by (rule concat_hashes_length)
      have "length wanted < 60" using h(2) length_filter_le le_less_trans unfolding wanted_def by blast
      then have "good_response \<lparr>header = hdr_swap (host_header 1 (20 + 20 * length wanted) 0 0),
          data = [of_nat (length wanted), 1, 1, 1] @ concat wanted @ rest\<rparr>"
        using len rest(2) by (intro plain_response_good) simp_all
      then show ?thesis by (intro servedI [OF rest(1) ok]) simp_all
    qed
  qed
qed

lemma download_started_ok:
  assumes "peer_ok ms ps" "length (io_content io) = 1500"
  shows "peer_ok ms (download_started io off node sockfd ps)"
proof -
  have "manager_ok ms ((ps_fm ps)\<lparr>fm_already_used := map_option f (fm_already_used (ps_fm ps)),
      fm_timer := map_option (\<lambda>ts. ts[i := v]) (fm_timer (ps_fm ps))\<rparr>)" for f i v
    using assms(1) by (auto simp: peer_ok_def manager_ok_def manager_ready_def)
  then show ?thesis
    using assms fresh_buffer_ok [OF assms(2)]
    by (simp add: peer_ok_def download_started_def Let_def)
qed

lemma ihave_served:
  assumes ok: "peer_ok ms ps" and w: "world_ok ms (ps_config ps) io"
    and p: "packet_type (header p) = 1" "length (data p) = 1484" "acceptable ms ps node p"
    and n: "List.find (\<lambda>n. peer_id n = node) (peers (ps_config ps)) = Some nd"
  shows "served ms ps (handle_packet io p node ps)"
proof -
  have a: "0 \<le> sint (data p ! 0)" "sint (data p ! 0) < 60" "fm_init (ps_fm ps)"
      "\<forall>h \<in> set (hashes_in p). master_offset ms h = -1 \<or> master_offset ms h \<in> set (offsets_of (ps_fm ps))"
    using p(1,3) by (auto simp: acceptable_def Let_def)
  note h = packet_hashes [OF p(2) a(1,2)]
  obtain path where m: "io_fs io (chunk_file (ps_config ps)) = Some (master_text path ms)" "path_ok path"
      "\<forall>m \<in> set ms. length (snd m) = 20"
    using world_master [OF w] by metis
  obtain offs where offs: "manager_ready offs (ps_fm ps)"
    using ok a(3) by (auto simp: peer_ok_def manager_ok_def)
  have io: "io_slack io \<noteq> []" "length (io_content io) = 1500" using w by (simp_all add: world_ok_def)
  have r: "handle_packet io p node ps = Inr (case List.find (\<lambda>h. master_offset ms h \<noteq> -1 \<and>
        \<not> busy_with node (master_offset ms h) ps) (hashes_in p) of
      None \<Rightarrow> (ps, [])
    | Some h \<Rightarrow> (download_started io (master_offset ms h) nd node ps, [get_pkt h]))"
    using ihave_loop_result [OF m io(1) n offs, of "hashes_in p" "pkt_swap p" 0] h(1,3) a(4) p(1)
      manager_readyD [OF offs]
    by (simp add: handle_packet_def handle_ihave_def Let_def)
  show ?thesis
  proof (cases "List.find (\<lambda>h. master_offset ms h \<noteq> -1 \<and>
      \<not> busy_with node (master_offset ms h) ps) (hashes_in p)")
    case None
    then have eq: "handle_packet io p node ps = Inr (ps, [])" using r by simp
    show ?thesis by (rule servedI [OF eq ok]) simp_all
  next
    case (Some h0)
    then have "length h0 = 20" using h(4) by (auto dest: find_Some_in_set)
    then have "good_response (get_pkt h0)"
      unfolding get_pkt_def by (intro plain_response_good) simp_all
    have eq: "handle_packet io p node ps = Inr (download_started io (master_offset ms h0) nd node ps, [get_pkt h0])"
      using r Some by simp
    show ?thesis
      by (rule servedI [OF eq download_started_ok [OF ok io(2)]])
         (use \<open>good_response (get_pkt h0)\<close> in \<open>simp_all add: download_started_def Let_def\<close>)
  qed
qed

lemma get_served:
  assumes ok: "peer_ok ms ps" and w: "world_ok ms (ps_config ps) io"
    and p: "packet_type (header p) = 2" "length (data p) = 1484"
  shows "served ms ps (handle_packet io p node ps)"
proof -
  obtain path content where m: "io_fs io (chunk_file (ps_config ps)) = Some (master_text path ms)" "path_ok path"
      "io_fs io path = Some content" "ms \<noteq> []" "\<forall>m \<in> set ms. length (snd m) = 20"
      "\<forall>m \<in> set ms. length (snd m) = 20 \<and> fst m < 4096 \<and> 524288 * (fst m + 1) \<le> length content"
    using world_master [OF w] by metis
  have io: "io_slack io \<noteq> []" "length (io_data io) = 524288" using w by (simp_all add: world_ok_def)
  let ?h = "take 20 (data p)"
  obtain i where i: "get_data_from_hash (io_slack io) (io_index io) (io_data io) (io_fs io)
        (chunk_file (ps_config ps)) ?h = Inr (Some (take 524288 (drop (524288 * i) content)))"
      "if ?h \<in> snd ` set ms then (i, ?h) \<in> set ms else i = fst (last ms)"
    using data_of_hash_text [of "io_fs io" "chunk_file (ps_config ps)" path ms content "io_slack io" "io_data io"]
      m io by blast
  have "i \<in> fst ` set ms"
  proof (cases "?h \<in> snd ` set ms")
    case True
    with i(2) have "(i, ?h) \<in> set ms" by simp
    then show ?thesis by force
  next
    case False
    then have "i = fst (last ms)" using i(2) by simp
    then show ?thesis using m(4) by simp
  qed
  then have len: "length (take 524288 (drop (524288 * i) content)) = 524288"
    using m(6) by fastforce
  have off: "\<exists>off. get_off_set_from_master_chunkfile (io_slack io) (io_fs io) (chunk_file (ps_config ps)) ?h = Inr off"
    using master_offset_text [of "io_fs io" "chunk_file (ps_config ps)" path ms "io_slack io" ?h] m(1,2,5) io(1)
    by simp
  then obtain off where off: "get_off_set_from_master_chunkfile (io_slack io) (io_fs io)
      (chunk_file (ps_config ps)) ?h = Inr off" by blast
  obtain S' resp where s: "send_data node (init_datalist (io_prev_ack io) (io_count_ack io) node off
        (Some (take 524288 (drop (524288 * i) content))) (ps_sender ps)) = Inr (S', resp)"
      "sessions_ok S'" "\<forall>p \<in> set resp. good_response p"
    using get_session_safe [OF _ len, of "ps_sender ps"] ok unfolding peer_ok_def by blast
  have eq: "handle_packet io p node ps = Inr (ps\<lparr>ps_sender := S'\<rparr>, resp)"
    using p i(1) off s(1) by (simp add: handle_packet_def handle_get_def Let_def)
  show ?thesis by (rule servedI [OF eq]) (use s ok in \<open>simp_all add: peer_ok_def\<close>)
qed

lemma data_branch:
  assumes ok: "peer_ok ms ps" and w: "world_ok ms (ps_config ps) io"
    and p: "packet_type (header p) = 3" "length (data p) = 1484" "acceptable ms ps node (pkt_swap p)"
  shows "\<exists>ps' l' ack off. handle_packet io p node ps = Inr (ps', [ack_pkt ack]) \<and> peer_ok ms ps' \<and>
    ps_config ps' = ps_config ps \<and> recv_data (io_beyond io) (pkt_swap p) node (ps_recv ps) = Inr (l', [ack_pkt ack], off) \<and>
    list_all2 (released l') l' (ps_recv ps') \<and> ps_sender ps' = ps_sender ps \<and> ps_tracker ps' = ps_tracker ps"
proof -
  let ?p = "pkt_swap p"
  obtain b where a: "fm_init (ps_fm ps)" "1 \<le> sint (seq_num (header ?p))" "sint (seq_num (header ?p)) \<le> 512"
      "0 \<le> payload_len (header ?p)" "payload_len (header ?p) \<le> 1484"
      "get_recv_by_socket node (ps_recv ps) = Some b" "rb_offset b \<in> set (offsets_of (ps_fm ps))"
    using p(1,3) by (auto simp: acceptable_def Let_def)
  obtain offs where offs: "manager_ready offs (ps_fm ps)"  "\<forall>off \<in> set offs. master_hash ms off \<noteq> None"
    using ok a(1) by (auto simp: peer_ok_def manager_ok_def)
  have bs: "buffers_ok (ps_recv ps)" using ok by (simp add: peer_ok_def)
  have b: "buffer_ok b"
    using a(6) find_Some_in_set bs by (fastforce simp: get_recv_by_socket_def buffers_ok_def)
  have rd: "readable (io_beyond io)" "io_fopen_ok io" using w by (simp_all add: world_ok_def)
  obtain b' ack where b': "recv_session (io_beyond io) ?p (sint (seq_num (header ?p)) - 1) b = Inr (b', ack_pkt ack)"
      "buffer_ok b'" "rb_offset b' = rb_offset b"
    using recv_session_buffer_ok [OF b _ _ _ a(4,5) rd(1), of "sint (seq_num (header ?p)) - 1"] a(2,3) p(2) by auto
  have recv: "recv_data (io_beyond io) ?p node (ps_recv ps) =
      Inr (put_recv b' (ps_recv ps), [ack_pkt ack], Some (rb_offset b))"
    using a(3,6) b'(1,3) by (simp add: recv_data_def)
  have bs': "buffers_ok (put_recv b' (ps_recv ps))"
    unfolding buffers_ok_def
  proof
    fix x assume "x \<in> set (put_recv b' (ps_recv ps))"
    then have "x = b' \<or> x \<in> set (ps_recv ps)" unfolding put_recv_def by (rule set_upd_first)
    then show "buffer_ok x" using b'(2) bs by (auto simp: buffers_ok_def)
  qed
  obtain ts where t: "touch_timer (rb_offset b) (io_now io) (ps_fm ps) = Inr ((ps_fm ps)\<lparr>fm_timer := Some ts\<rparr>)"
      "manager_ready offs ((ps_fm ps)\<lparr>fm_timer := Some ts\<rparr>)"
    using touch_timer_ready [OF offs(1)] a(7) manager_readyD [OF offs(1)] by metis
  have "manager_ok ms ((ps_fm ps)\<lparr>fm_timer := Some ts\<rparr>)" using t(2) offs(2) by (auto simp: manager_ok_def)
  then obtain fm' l' out r where c: "check_file_manager True ((ps_fm ps)\<lparr>fm_timer := Some ts\<rparr>)
        (put_recv b' (ps_recv ps)) = Inr (fm', l', out, r)" "manager_ok ms fm'" "buffers_ok l'"
      "list_all2 (released (put_recv b' (ps_recv ps))) (put_recv b' (ps_recv ps)) l'"
    using check_file_manager_ok [OF _ bs'] by blast
  let ?ps = "ps\<lparr>ps_recv := l', ps_fm := fm', ps_written :=
      (case out of None \<Rightarrow> ps_written ps | Some w \<Rightarrow> (output_file (ps_config ps), w) # ps_written ps)\<rparr>"
  have "handle_packet io p node ps = Inr (?ps, [ack_pkt ack])"
    using p(1) recv t(1) c(1) rd(2) by (simp add: handle_packet_data handle_data_def)
  moreover have "peer_ok ms ?ps" using ok c(2,3) by (simp add: peer_ok_def)
  ultimately show ?thesis using recv c(4) by (intro exI [of _ ?ps]) auto
qed

lemma data_served:
  assumes "peer_ok ms ps" "world_ok ms (ps_config ps) io" "packet_type (header p) = 3"
    "length (data p) = 1484" "acceptable ms ps node (pkt_swap p)"
  shows "served ms ps (handle_packet io p node ps)"
  using data_branch [OF assms] ack_pkt_good by (auto simp: served_def)

lemma ack_branch:
  assumes "peer_ok ms ps" "packet_type (header p) = 4" "acceptable ms ps node (pkt_swap p)"
  shows "\<exists>S' trk' resp. handle_packet io p node ps = Inr (ps\<lparr>ps_sender := S', ps_tracker := trk'\<rparr>, resp) \<and>
    handle_ack node (sint (ack_num (header (pkt_swap p)) - 1)) (ps_tracker ps) (ps_sender ps) = Inr (S', trk', resp) \<and>
    peer_ok ms (ps\<lparr>ps_sender := S', ps_tracker := trk'\<rparr>) \<and> (\<forall>p \<in> set resp. good_response p)"
proof -
  have "-1 \<le> sint (ack_num (header (pkt_swap p)) - 1)" using assms(2,3) by (auto simp: acceptable_def Let_def)
  then obtain S' trk' resp where "handle_ack node (sint (ack_num (header (pkt_swap p)) - 1)) (ps_tracker ps)
        (ps_sender ps) = Inr (S', trk', resp)" "sessions_ok S'" "tracker_sane trk'" "\<forall>p \<in> set resp. good_response p"
    using handle_ack_safe [of "ps_sender ps" "ps_tracker ps"] assms(1) unfolding peer_ok_def by blast
  then show ?thesis using assms(1,2) by (simp add: handle_packet_def Let_def peer_ok_def)
qed

lemma ack_served:
  assumes "peer_ok ms ps" "packet_type (header p) = 4" "acceptable ms ps node (pkt_swap p)"
  shows "served ms ps (handle_packet io p node ps)"
  using ack_branch [OF assms, of io] by (auto simp: served_def)


section \<open>A datagram is handled\<close>

lemma acceptable_swap:
  assumes "acceptable ms ps node (pkt_swap p)" "packet_type (header p) \<in> {0, 1}"
  shows "acceptable ms ps node p"
  using assms by (auto simp: acceptable_def Let_def)

lemma handle_packet_served:
  assumes ok: "peer_ok ms ps" and w: "world_ok ms (ps_config ps) io"
    and p: "length (data p) = 1484" "acceptable ms ps node (pkt_swap p)"
    and n: "List.find (\<lambda>n. peer_id n = node) (peers (ps_config ps)) = Some nd"
  shows "served ms ps (handle_packet io p node ps)"
proof -
  have eq: "handle_packet io p node ps = Inr (ps, [])" if "packet_type (header p) \<notin> {0, 1, 2, 3, 4}"
    using that by (simp add: handle_packet_def Let_def)
  consider "packet_type (header p) = 0" | "packet_type (header p) = 1" | "packet_type (header p) = 2"
    | "packet_type (header p) = 3" | "packet_type (header p) = 4" | "packet_type (header p) \<notin> {0, 1, 2, 3, 4}"
    by blast
  then show ?thesis
  proof cases
    case 1
    show ?thesis by (rule whohas_served [OF ok w 1 p(1) acceptable_swap [OF p(2)]]) (simp add: 1)
  next
    case 2
    show ?thesis by (rule ihave_served [OF ok w 2 p(1) acceptable_swap [OF p(2)] n]) (simp add: 2)
  next
    case 3
    show ?thesis by (rule get_served [OF ok w 3 p(1)])
  next
    case 4
    show ?thesis by (rule data_served [OF ok w 4 p])
  next
    case 5
    show ?thesis by (rule ack_served [OF ok 5 p(2)])
  next
    case 6
    show ?thesis by (rule servedI [OF eq [OF 6] ok]) simp_all
  qed
qed

lemma find_own_id: "n \<in> set nodes \<Longrightarrow> \<exists>nd. List.find (\<lambda>m. peer_id m = peer_id n) nodes = Some nd"
  by (induction nodes) auto

lemma node_of_addr_known:
  assumes "node_of_addr sender nodes \<noteq> -1"
  shows "\<exists>nd. List.find (\<lambda>m. peer_id m = node_of_addr sender nodes) nodes = Some nd"
  using assms by (auto simp: node_of_addr_def find_own_id dest: find_Some_in_set split: option.splits)

lemma data_of_datagram:
  assumes "length buf = 1500" shows "length (data (build_packet_from_buf (recvfrom_into buf msg))) = 1484"
  using assms by (simp add: build_packet_from_buf_def recvfrom_into_def)

text \<open>\<open>arrives ms buf msg sender ps\<close>: what the code takes for granted of a datagram of a known peer.\<close>

definition arrives :: "(nat \<times> byte list) list \<Rightarrow> byte list \<Rightarrow> byte list \<Rightarrow> sockaddr_in \<Rightarrow> peer_st \<Rightarrow> bool" where
  "arrives ms buf msg sender ps \<longleftrightarrow> length buf = 1500 \<and>
     (let node = node_of_addr sender (peers (ps_config ps)) in
      node = -1 \<or> acceptable ms ps node (pkt_swap (build_packet_from_buf (recvfrom_into buf msg))))"

lemma all_to_wire_iff: "all_to_wire ps = Inr ms \<longleftrightarrow> list_all2 (\<lambda>p m. to_wire p = Inr m) ps ms"
proof (induction ps arbitrary: ms)
  case (Cons p ps)
  show ?case by (auto simp: res_simps list_all2_Cons1 Cons)
qed auto

lemma all_to_wire_rev: "all_to_wire ps = Inr ms \<Longrightarrow> all_to_wire (rev ps) = Inr (rev ms)"
  by (simp add: all_to_wire_iff)

lemma inbound_unknown:
  "node_of_addr sender (peers (ps_config ps)) = -1 \<Longrightarrow> process_inbound_udp io buf msg sender ps = Inr (ps, [])"
  by (simp add: process_inbound_udp_def)

lemma inbound_sends:
  assumes "node_of_addr sender (peers (ps_config ps)) = node" "node \<noteq> -1"
    and h: "handle_packet io (build_packet_from_buf (recvfrom_into buf msg)) node ps = Inr (ps', resp)"
    and ok: "peer_ok ms ps'" "\<forall>p \<in> set resp. good_response p" and w: "silent (io_tracker io)"
  shows "\<exists>trk msgs. process_inbound_udp io buf msg sender ps =
      Inr (ps'\<lparr>ps_tracker := trk\<rparr>, map (Pair sender) (rev msgs)) \<and>
    peer_ok ms (ps'\<lparr>ps_tracker := trk\<rparr>) \<and> all_to_wire resp = Inr msgs \<and>
    trk = track_all io node sender (rev resp) (ps_tracker ps')"
proof -
  obtain msgs where msgs: "all_to_wire resp = Inr msgs"
    using good_responses_wire [OF ok(2)] by blast
  note back_order = all_to_wire_rev [OF msgs]
  have sane: "tracker_sane (ps_tracker ps')" "\<forall>p \<in> set (rev resp). response_ok p"
    using ok by (auto simp: peer_ok_def good_response_def)
  let ?trk = "track_all io node sender (rev resp) (ps_tracker ps')"
  have "respond_all io node sender 0 (rev resp) (ps_tracker ps') = Inr (?trk, map (Pair sender) (rev msgs))"
    using respond_all_sends [OF _ w sane(2) back_order] sane(1) by (simp add: tracker_sane_def)
  then have "process_inbound_udp io buf msg sender ps = Inr (ps'\<lparr>ps_tracker := ?trk\<rparr>, map (Pair sender) (rev msgs))"
    using assms(1-3) by (simp add: process_inbound_udp_def Let_def)
  moreover have "peer_ok ms (ps'\<lparr>ps_tracker := ?trk\<rparr>)"
    using ok(1) track_all_sane [OF sane(1) w sane(2) back_order] by (simp add: peer_ok_def)
  ultimately show ?thesis using msgs by blast
qed

lemma arrives_acceptable:
  assumes "arrives ms buf msg sender ps" "node_of_addr sender (peers (ps_config ps)) = node" "node \<noteq> -1"
  shows "length buf = 1500" "length (data (build_packet_from_buf (recvfrom_into buf msg))) = 1484"
    "acceptable ms ps node (pkt_swap (build_packet_from_buf (recvfrom_into buf msg)))"
    "\<exists>nd. List.find (\<lambda>m. peer_id m = node) (peers (ps_config ps)) = Some nd"
  using assms data_of_datagram node_of_addr_known [of sender "peers (ps_config ps)"]
  by (auto simp: arrives_def Let_def)

lemma inbound_ok:
  assumes ok: "peer_ok ms ps" and w: "world_ok ms (ps_config ps) io" and a: "arrives ms buf msg sender ps"
  shows "\<exists>ps' out. process_inbound_udp io buf msg sender ps = Inr (ps', out) \<and> peer_ok ms ps' \<and>
    ps_config ps' = ps_config ps \<and> (\<forall>m \<in> set out. fst m = sender)"
proof (cases "node_of_addr sender (peers (ps_config ps)) = -1")
  case True
  then show ?thesis using ok inbound_unknown by simp
next
  case False
  let ?node = "node_of_addr sender (peers (ps_config ps))"
  note acc = arrives_acceptable [OF a refl False]
  obtain ps' resp where h: "handle_packet io (build_packet_from_buf (recvfrom_into buf msg)) ?node ps = Inr (ps', resp)"
      "peer_ok ms ps'" "ps_config ps' = ps_config ps" "\<forall>p \<in> set resp. good_response p"
    using handle_packet_served [OF ok w acc(2,3)] acc(4) by (auto simp: served_def)
  have "silent (io_tracker io)" using w by (simp add: world_ok_def)
  from inbound_sends [OF refl False h(1,2,4) this] show ?thesis using h(3) by auto
qed

text \<open>
  C7. A datagram cannot make a peer leave defined behaviour as long as it is one the code takes for
  granted: in a state that satisfies the invariant, with the files of the configuration in place, every
  such datagram is handled without a fault, the answers go back to its sender and the invariant holds
  afterwards.
\<close>

theorem inbound_never_faults:
  assumes "peer_ok ms ps" and "world_ok ms (ps_config ps) io" and "arrives ms buf msg sender ps"
  shows "\<exists>ps' out. process_inbound_udp io buf msg sender ps = Inr (ps', out) \<and> peer_ok ms ps' \<and>
    (\<forall>m \<in> set out. fst m = sender)"
  using inbound_ok [OF assms] by blast


text \<open>A world in which the master data file is there, and a peer asking for the chunk in it.\<close>

definition example_world :: io where
  "example_world = example_io\<lparr>io_fs := (io_fs example_io)([97] \<mapsto> replicate 524288 0),
     io_tracker := example_timer\<rparr>"

definition example_get :: "byte list" where
  "example_get = [0x51, 0x3c, 1, 2, 0, 16, 0, 36, 0, 0, 0, 0, 0, 0, 0, 0] @ replicate 20 1"

lemma example_world_ok: "world_ok [(0, replicate 20 1)] (example_config\<lparr>output_file := out\<rparr>) example_world"
proof -
  have "path_ok [97]" by (simp add: path_ok_def is_space_def)
  then have p: "\<exists>path content. io_fs example_world [109] = Some (master_text path [(0, replicate 20 1)]) \<and> path_ok path \<and>
      io_fs example_world path = Some content \<and> 524288 \<le> length content"
    by (intro exI [of _ "[97]"] exI [of _ "replicate 524288 0"]) (simp add: example_world_def example_io_def)
  have h: "io_fs example_world [104] = Some (chunk_text [(0, replicate 20 1)])"
    by (simp add: example_world_def example_io_def)
  have "silent (io_tracker example_world)"
    using example_timers_sane by (simp add: example_world_def tracker_sane_def)
  moreover have "readable (io_beyond example_world)"
    by (simp add: readable_def example_world_def example_io_def)
  moreover have "c_string (io_stk example_world) = Inr []"
    by (simp add: example_world_def example_io_def c_string_def)
  ultimately show ?thesis
    unfolding world_ok_def using p
    by (auto simp: h example_config_def intro!: exI [of _ "[(0, replicate 20 1)]"])
       (simp_all add: example_world_def example_io_def)
qed

lemma initial_peer_ok: "peer_ok ms (example_peer [] initial_manager)"
  by (simp add: peer_ok_def example_peer_def sessions_ok_def get_data_by_socket_def initial_manager_def manager_ok_def)

theorem inbound_never_faults_witness:
  "\<exists>ps' out. process_inbound_udp example_world (replicate 1500 0) example_get
      \<lparr>sin_family = 2, sin_port = 1, s_addr = 16777343\<rparr> (example_peer [] initial_manager) = Inr (ps', out) \<and>
    peer_ok [(0, replicate 20 1)] ps'"
proof -
  let ?a = "\<lparr>sin_family = 2, sin_port = 1, s_addr = 16777343\<rparr>"
  have "packet_type (header (build_packet_from_buf (recvfrom_into (replicate 1500 0) example_get))) = 2"
    by (simp add: build_packet_from_buf_def recvfrom_into_def example_get_def)
  then have "arrives [(0, replicate 20 1)] (replicate 1500 0) example_get ?a (example_peer [] initial_manager)"
    by (simp add: arrives_def acceptable_def pkt_swap_def hdr_swap_def)
  moreover have "ps_config (example_peer [] initial_manager) = example_config\<lparr>output_file := [111]\<rparr>"
    by (simp add: example_peer_def example_config_def)
  ultimately show ?thesis
    using inbound_never_faults [OF initial_peer_ok] example_world_ok by (metis (no_types))
qed

end
