(* ===== verification/InputBuffer.thy ===== *)
theory InputBuffer
  imports Prelude
begin

text \<open>
  The line buffer of \<^verbatim>\<open>input_buffer.c\<close>: \<^verbatim>\<open>create_userbuf\<close> and \<^verbatim>\<open>process_user_input\<close>, over any handler of
  lines. The handler is a function on a state \<open>'s\<close> (the pointer \<^verbatim>\<open>cbdata\<close> is not used by the program);
  the bytes that \<^verbatim>\<open>read\<close> delivers are an argument, empty for an end of file or an error.

  The lemmas show that lines come out of the buffer as they went in, however the input is cut into
  reads, as long as at most 4096 bytes are in the buffer at a time; \<open>line_handler\<close> is the interface
  between the buffer and the handler.
\<close>

section \<open>The buffer\<close>

definition USERBUF_SIZE :: nat where "USERBUF_SIZE = 8191"

lemma USERBUF_SIZE_nat [layout_simps]: "USERBUF_SIZE = 8191"
  by (simp add: USERBUF_SIZE_def)

record user_iobuf =
  ub_buf :: "byte list"
  ub_cur :: "32 word"

text \<open>The two arguments say whether the calls of \<^verbatim>\<open>malloc\<close> succeed.\<close>

definition create_userbuf :: "bool \<Rightarrow> bool \<Rightarrow> user_iobuf option" where
  "create_userbuf malloc_struct malloc_buf =
     (if \<not> malloc_struct then None
      else if \<not> malloc_buf then None
      else Some \<lparr>ub_buf = replicate (USERBUF_SIZE + 1) 0, ub_cur = 0\<rparr>)"

fun strchr :: "byte list \<Rightarrow> byte \<Rightarrow> nat option res" where
  "strchr [] c = Inl Out_Of_Bounds"
| "strchr (b # bs) c =
     (if b = c then Inr (Some 0)
      else if b = 0 then Inr None
      else rbind (strchr bs c) (\<lambda>r. Inr (map_option Suc r)))"

text \<open>\<^verbatim>\<open>memmove(buf, buf + k, n)\<close>.\<close>

definition move_front :: "byte list \<Rightarrow> nat \<Rightarrow> nat \<Rightarrow> byte list res" where
  "move_front buf k n =
     (if k + n \<le> length buf then Inr (blit buf 0 (take n (drop k buf))) else Inl Out_Of_Bounds)"

lemma strchr_Some: "c \<notin> set line \<Longrightarrow> 0 \<notin> set line \<Longrightarrow> strchr (line @ c # rest) c = Inr (Some (length line))"
  by (induction line) auto

lemma strchr_None: "c \<noteq> 0 \<Longrightarrow> c \<notin> set line \<Longrightarrow> 0 \<notin> set line \<Longrightarrow> strchr (line @ 0 # rest) c = Inr None"
  by (induction line) auto

section \<open>process_user_input\<close>

text \<open>
  The loop over the lines in the buffer; \<^verbatim>\<open>cur\<close> is unsigned, so the subtraction wraps. The first argument
  bounds the iterations: a buffer of 8191 bytes and a NUL has no more lines than bytes.
\<close>

fun input_lines ::
  "nat \<Rightarrow> (byte list \<Rightarrow> 's \<Rightarrow> 's res) \<Rightarrow> user_iobuf \<Rightarrow> 's \<Rightarrow> ('s \<times> user_iobuf) res" where
  "input_lines 0 handle_line b s = Inl Out_Of_Fuel"
| "input_lines (Suc fuel) handle_line b s =
     rbind (strchr (ub_buf b) 10) (\<lambda>ret.
     case ret of
       None \<Rightarrow> Inr (s, b)
     | Some k \<Rightarrow>
         let buf = (ub_buf b)[k := 0]
         in rbind (handle_line (takeWhile (\<lambda>x. x \<noteq> 0) buf) s) (\<lambda>s.
            rbind (move_front buf (k + 1) (USERBUF_SIZE - k)) (\<lambda>buf.
            input_lines fuel handle_line (b\<lparr>ub_buf := buf, ub_cur := ub_cur b - of_nat (k + 1)\<rparr>) s)))"

definition process_user_input ::
  "(byte list \<Rightarrow> 's \<Rightarrow> 's res) \<Rightarrow> byte list \<Rightarrow> user_iobuf \<Rightarrow> 's \<Rightarrow> ('s \<times> user_iobuf) res" where
  "process_user_input handle_line input b s =
     (if ub_cur b \<ge> of_nat (USERBUF_SIZE - 1) then Inl Exit_Called
      else
        let got = take (USERBUF_SIZE - unat (ub_cur b)) input;
            buf = blit (ub_buf b) (unat (ub_cur b)) got
        in input_lines (USERBUF_SIZE + 1) handle_line
             (b\<lparr>ub_buf := buf, ub_cur := ub_cur b + of_nat (length got)\<rparr>) s)"

section \<open>Lines come out as they went in\<close>

text \<open>
  A \<open>line_text\<close> has no NUL and no end of line; \<open>holds b w\<close>: the buffer holds \<open>w\<close>, and
  nothing but zeros behind it.
\<close>

definition line_text :: "byte list \<Rightarrow> bool" where
  "line_text w \<longleftrightarrow> 0 \<notin> set w \<and> 10 \<notin> set w"

definition holds :: "user_iobuf \<Rightarrow> byte list \<Rightarrow> bool" where
  "holds b w \<longleftrightarrow> length w < USERBUF_SIZE \<and> ub_buf b = w @ replicate (USERBUF_SIZE + 1 - length w) 0 \<and>
     ub_cur b = of_nat (length w)"

definition terminated :: "byte list list \<Rightarrow> byte list" where
  "terminated ls = concat (map (\<lambda>l. l @ [10]) ls)"

fun handle_lines :: "(byte list \<Rightarrow> 's \<Rightarrow> 's res) \<Rightarrow> byte list list \<Rightarrow> 's \<Rightarrow> 's res" where
  "handle_lines handle_line [] s = Inr s"
| "handle_lines handle_line (l # ls) s = rbind (handle_line l s) (handle_lines handle_line ls)"

lemma terminated_simps [simp]: "terminated [] = []" "terminated (l # ls) = l @ 10 # terminated ls"
  "terminated (ls @ ls') = terminated ls @ terminated ls'"
  by (simp_all add: terminated_def)

lemma handle_lines_append:
  "handle_lines h (ls @ ls') s = rbind (handle_lines h ls s) (handle_lines h ls')"
proof (induction ls arbitrary: s)
  case (Cons l ls)
  show ?case by (cases "h l s") (simp_all add: Cons)
qed simp

lemma length_terminated: "length ls \<le> length (terminated ls)"
  by (induction ls) auto

lemma shifted_buffer:
  assumes "length l + length w < 4096"
  shows "move_front ((l @ 10 # w @ replicate (8192 - length (l @ 10 # w)) 0)[length l := 0])
      (length l + 1) (8191 - length l) = Inr (w @ replicate (8192 - length w) 0)"
proof -
  have z: "(l @ 10 # w @ replicate (8192 - length (l @ 10 # w)) 0)[length l := 0] =
      l @ 0 # w @ replicate (8191 - length l - length w) 0"
    by (simp add: list_update_append)
  have front: "take (8191 - length l) (drop (length l + 1) (l @ 0 # w @ replicate (8191 - length l - length w) 0)) =
      w @ replicate (8191 - length l - length w) 0"
    using assms by simp
  have zeros: "drop (8191 - length l) (l @ 0 # w @ replicate (8191 - length l - length w) 0) =
      replicate (length l + 1) (0 :: byte)"
    using assms by (simp add: drop_Cons')
  have "8191 - length l - length w + (length l + 1) = 8192 - length w" using assms by simp
  then have "replicate (8191 - length l - length w) 0 @ replicate (length l + 1) (0 :: byte) =
      replicate (8192 - length w) 0"
    by (simp only: replicate_add [symmetric])
  moreover have "length (w @ replicate (8191 - length l - length w) (0 :: byte)) = 8191 - length l"
    using assms by simp
  ultimately show ?thesis
    unfolding z using front zeros assms by (simp add: move_front_def blit_0 del: replicate.simps)
qed

lemma input_lines_result:
  assumes "holds b (terminated ls @ w)" "length (terminated ls @ w) \<le> 4096"
    "\<forall>l \<in> set ls. line_text l" "line_text w" "length ls < fuel"
  shows "\<exists>b'. holds b' w \<and> (\<forall>s. input_lines fuel h b s = rbind (handle_lines h ls s) (\<lambda>s'. Inr (s', b')))"
  using assms
proof (induction ls arbitrary: b fuel)
  case Nil
  obtain n where n: "fuel = Suc n" using Nil.prems(5) by (cases fuel) auto
  have "ub_buf b = w @ 0 # replicate (8191 - length w) 0"
  proof -
    have "8192 - length w = Suc (8191 - length w)" using Nil.prems(2) by simp
    then show ?thesis using Nil.prems(1) by (simp add: holds_def layout_simps)
  qed
  then have "strchr (ub_buf b) 10 = Inr None"
    using Nil.prems(4) by (simp add: strchr_None line_text_def)
  then show ?case using Nil.prems(1) n by auto
next
  case (Cons l ls)
  obtain n where n: "fuel = Suc n" "length ls < n" using Cons.prems(5) by (cases fuel) auto
  let ?w = "terminated ls @ w"
  have lt: "0 \<notin> set l" "10 \<notin> set l" using Cons.prems(3) by (simp_all add: line_text_def)
  have buf: "ub_buf b = l @ 10 # ?w @ replicate (8192 - length (l @ 10 # ?w)) 0"
    "ub_cur b = of_nat (length (l @ 10 # ?w))"
    using Cons.prems(1) by (simp_all add: holds_def layout_simps)
  have found: "strchr (ub_buf b) 10 = Inr (Some (length l))"
    unfolding buf(1) by (rule strchr_Some [OF lt(2,1)])
  have line: "takeWhile (\<lambda>x. x \<noteq> 0) ((ub_buf b)[length l := 0]) = l"
    unfolding buf(1) using lt(1) by (simp add: list_update_append takeWhile_append)
  have moved: "move_front ((ub_buf b)[length l := 0]) (length l + 1) (8191 - length l) =
      Inr (?w @ replicate (8192 - length ?w) 0)"
    unfolding buf(1) by (rule shifted_buffer) (use Cons.prems(2) in simp)
  let ?b = "b\<lparr>ub_buf := ?w @ replicate (8192 - length ?w) 0, ub_cur := ub_cur b - of_nat (length l + 1)\<rparr>"
  have "holds ?b ?w"
    using Cons.prems(2) buf(2) by (simp add: holds_def layout_simps)
  then obtain b' where b': "holds b' w"
      "\<forall>s. input_lines n h ?b s = rbind (handle_lines h ls s) (\<lambda>s'. Inr (s', b'))"
    using Cons.IH [of ?b n] Cons.prems(2-4) n(2) by auto
  have "input_lines fuel h b s = rbind (handle_lines h (l # ls) s) (\<lambda>s'. Inr (s', b'))" for s
  proof (cases "h l s")
    case (Inr s1)
    then show ?thesis using n(1) found line moved b'(2) by (simp add: layout_simps Let_def)
  qed (use n(1) found line in \<open>simp add: Let_def\<close>)
  then show ?case using b'(1) by blast
qed

lemma process_user_input_result:
  assumes "holds b w0" "w0 @ input = terminated ls @ w" "length (w0 @ input) \<le> 4096"
    "\<forall>l \<in> set ls. line_text l" "line_text w"
  shows "\<exists>b'. holds b' w \<and>
    (\<forall>s. process_user_input h input b s = rbind (handle_lines h ls s) (\<lambda>s'. Inr (s', b')))"
proof -
  have cur: "unat (ub_cur b) = length w0"
    using assms(1,3) by (simp add: holds_def unat_of_nat take_bit_nat_eq_self)
  then have room: "\<not> ub_cur b \<ge> of_nat (USERBUF_SIZE - 1)"
    using assms(3) by (simp add: word_le_nat_alt layout_simps)
  have got: "take (USERBUF_SIZE - length w0) input = input" using assms(3) by (simp add: layout_simps)
  let ?b = "b\<lparr>ub_buf := blit (ub_buf b) (length w0) input, ub_cur := ub_cur b + of_nat (length input)\<rparr>"
  have "blit (ub_buf b) (length w0) input =
      (w0 @ input) @ replicate (8192 - length (w0 @ input)) 0"
    using assms(1,3) by (simp add: holds_def blit_def layout_simps)
  moreover have "ub_cur ?b = of_nat (length (w0 @ input))"
    using assms(1) by (simp add: holds_def)
  ultimately have "holds ?b (terminated ls @ w)"
    using assms(3) unfolding assms(2) by (simp add: holds_def layout_simps)
  moreover have "length ls < USERBUF_SIZE + 1"
    using assms(2,3) length_terminated [of ls] by (simp add: layout_simps)
  ultimately obtain b' where "holds b' w"
      "\<forall>s. input_lines (USERBUF_SIZE + 1) h ?b s = rbind (handle_lines h ls s) (\<lambda>s'. Inr (s', b'))"
    using input_lines_result [of ?b ls w "USERBUF_SIZE + 1" h] assms(2-5) by auto
  then show ?thesis using room got cur by (auto simp: process_user_input_def Let_def)
qed

text \<open>The input in several reads.\<close>

fun read_pieces ::
  "(byte list \<Rightarrow> 's \<Rightarrow> 's res) \<Rightarrow> byte list list \<Rightarrow> user_iobuf \<Rightarrow> 's \<Rightarrow> ('s \<times> user_iobuf) res" where
  "read_pieces h [] b s = Inr (s, b)"
| "read_pieces h (p # ps) b s = rbind (process_user_input h p b s) (\<lambda>(s, b). read_pieces h ps b s)"

lemma terminated_split:
  assumes "u @ v = terminated ls @ w" "\<forall>l \<in> set (w # ls). line_text l \<and> length l < 2048"
  shows "\<exists>ls1 ls2 w1. ls = ls1 @ ls2 \<and> u = terminated ls1 @ w1 \<and> w1 @ v = terminated ls2 @ w \<and>
    line_text w1 \<and> length w1 < 2048"
  using assms
proof (induction ls arbitrary: u)
  case Nil
  then show ?case by (intro exI [of _ "[]"] exI [of _ u]) (auto simp: line_text_def)
next
  case (Cons l ls)
  show ?case
  proof (cases "length u \<le> length l")
    case True
    then obtain r where l: "l = u @ r"
      using Cons.prems(1) by (auto simp: append_eq_append_conv2)
    have "line_text u \<and> length u < 2048" using Cons.prems(2) by (auto simp: l line_text_def)
    then show ?thesis
      using Cons.prems(1) by (intro exI [of _ "[]"] exI [of _ "l # ls"] exI [of _ u]) simp
  next
    case False
    then obtain r where u: "u = l @ r" "r \<noteq> []"
      using Cons.prems(1) by (auto simp: append_eq_append_conv2)
    then obtain u' where u': "r = 10 # u'" "u' @ v = terminated ls @ w"
      using Cons.prems(1) by (cases r) auto
    obtain ls1 ls2 w1 where "ls = ls1 @ ls2" "u' = terminated ls1 @ w1" "w1 @ v = terminated ls2 @ w"
        "line_text w1" "length w1 < 2048"
      using Cons.IH [OF u'(2)] Cons.prems(2) by auto
    then show ?thesis
      using u(1) u'(1) by (intro exI [of _ "l # ls1"] exI [of _ ls2] exI [of _ w1]) simp
  qed
qed

lemma read_pieces_result:
  assumes "holds b w0" "w0 @ concat pieces = terminated ls @ w" "line_text w0" "length w0 < 2048"
    "\<forall>l \<in> set (w # ls). line_text l \<and> length l < 2048" "\<forall>p \<in> set pieces. length p \<le> 2048"
  shows "\<exists>b'. holds b' w \<and> (\<forall>s. read_pieces h pieces b s = rbind (handle_lines h ls s) (\<lambda>s'. Inr (s', b')))"
  using assms
proof (induction pieces arbitrary: b w0 ls)
  case Nil
  have "ls = []"
  proof (cases ls)
    case (Cons l ls')
    then have "10 \<in> set w0" using Nil.prems(2) by simp
    then show ?thesis using Nil.prems(3) by (simp add: line_text_def)
  qed simp
  then show ?case using Nil.prems(1,2) by auto
next
  case (Cons p ps)
  have "(w0 @ p) @ concat ps = terminated ls @ w" using Cons.prems(2) by simp
  from terminated_split [OF this Cons.prems(5)]
  obtain ls1 ls2 w1 where s: "ls = ls1 @ ls2" "w0 @ p = terminated ls1 @ w1"
      "w1 @ concat ps = terminated ls2 @ w" "line_text w1" "length w1 < 2048"
    by blast
  have "length (w0 @ p) \<le> 4096" using Cons.prems(4,6) by simp
  then obtain b1 where b1: "holds b1 w1"
      "\<forall>s. process_user_input h p b s = rbind (handle_lines h ls1 s) (\<lambda>s'. Inr (s', b1))"
    using process_user_input_result [OF Cons.prems(1) s(2), of h] Cons.prems(5) s(1,4) by auto
  obtain b2 where b2: "holds b2 w"
      "\<forall>s. read_pieces h ps b1 s = rbind (handle_lines h ls2 s) (\<lambda>s'. Inr (s', b2))"
    using Cons.IH [OF b1(1) s(3-5)] Cons.prems(5,6) s(1) by auto
  have "read_pieces h (p # ps) b s = rbind (handle_lines h ls s) (\<lambda>s'. Inr (s', b2))" for s
    using b1(2) b2(2) s(1) by (cases "handle_lines h ls1 s") (simp_all add: handle_lines_append)
  then show ?case using b2(1) by blast
qed

section \<open>The interface to the handler\<close>

text \<open>
  \<open>lines_ok\<close>: every line is acceptable to the handler in the state in which it arrives.
\<close>

fun lines_ok ::
  "(byte list \<Rightarrow> 's \<Rightarrow> 's res) \<Rightarrow> (byte list \<Rightarrow> 's \<Rightarrow> bool) \<Rightarrow> byte list list \<Rightarrow> 's \<Rightarrow> bool" where
  "lines_ok h ok [] s = True"
| "lines_ok h ok (l # ls) s = (ok l s \<and> (case h l s of Inl _ \<Rightarrow> True | Inr s' \<Rightarrow> lines_ok h ok ls s'))"

locale line_handler =
  fixes handle_line :: "byte list \<Rightarrow> 's \<Rightarrow> 's res"
    and inv :: "'s \<Rightarrow> bool"
    and ok :: "byte list \<Rightarrow> 's \<Rightarrow> bool"
  assumes handled: "inv s \<Longrightarrow> ok l s \<Longrightarrow> \<exists>s'. handle_line l s = Inr s' \<and> inv s'"
begin

lemma lines_handled: "inv s \<Longrightarrow> lines_ok handle_line ok ls s \<Longrightarrow> \<exists>s'. handle_lines handle_line ls s = Inr s' \<and> inv s'"
proof (induction ls arbitrary: s)
  case (Cons l ls)
  then obtain s' where s': "handle_line l s = Inr s'" "inv s'" using handled [of s l] by auto
  then show ?case using Cons by simp
qed simp

lemma input_handled:
  assumes "inv s" "lines_ok handle_line ok ls s" "holds b w0" "w0 @ input = terminated ls @ w"
    "length (w0 @ input) \<le> 4096" "\<forall>l \<in> set ls. line_text l" "line_text w"
  shows "\<exists>s' b'. process_user_input handle_line input b s = Inr (s', b') \<and> inv s' \<and> holds b' w"
  using process_user_input_result [OF assms(3-7), of handle_line] lines_handled [OF assms(1,2)] by auto

end

section \<open>Properties\<close>

text \<open>
  C18. Lines reach the handler whole, once and in order, however the input is cut into reads: after the
  reads the handler was called with exactly the lines that were ended, and the buffer holds the start
  of the next one. Reads and lines are shorter than 2048 bytes and free of NULs.
\<close>

theorem lines_survive_any_reads:
  assumes "create_userbuf True True = Some b" and "concat pieces = terminated ls @ w"
    and "\<forall>l \<in> set (w # ls). line_text l \<and> length l < 2048" and "\<forall>p \<in> set pieces. length p \<le> 2048"
  shows "\<exists>b'. holds b' w \<and> (\<forall>s. read_pieces h pieces b s = rbind (handle_lines h ls s) (\<lambda>s'. Inr (s', b')))"
proof -
  have "holds b []" using assms(1) by (auto simp: create_userbuf_def holds_def layout_simps)
  then show ?thesis using read_pieces_result [of b "[]"] assms(2-4) by (simp add: line_text_def)
qed

theorem lines_survive_any_reads_witness:
  "\<exists>b b'. create_userbuf True True = Some b \<and> holds b' [100] \<and>
     read_pieces (\<lambda>l s. Inr (s @ [l])) [[97], [98, 10, 99], [10, 100]] b [] = Inr ([[97, 98], [99]], b')"
proof -
  obtain b where b: "create_userbuf True True = Some b" by (simp add: create_userbuf_def)
  have "concat [[97], [98, 10, 99], [10, 100]] = terminated [[97, 98], [99]] @ [100 :: byte]" by simp
  then show ?thesis
    using lines_survive_any_reads [OF b, of "[[97], [98, 10, 99], [10, 100]]" "[[97, 98], [99]]" "[100]"
        "\<lambda>l s. Inr (s @ [l])"] b
    by (auto simp: line_text_def)
qed

section \<open>The loop ends on every buffer\<close>

text \<open>\<open>ended b\<close>: the memory of a buffer as \<^verbatim>\<open>create_userbuf\<close> makes it, with a NUL in its last byte.\<close>

definition ended :: "byte list \<Rightarrow> bool" where
  "ended buf \<longleftrightarrow> (\<exists>front. buf = front @ [0] \<and> length front = USERBUF_SIZE)"

definition str_len :: "byte list \<Rightarrow> nat" where
  "str_len buf = length (takeWhile (\<lambda>x. x \<noteq> 0) buf)"

lemma str_len_less: "0 \<in> set buf \<Longrightarrow> str_len buf < length buf"
  by (induction buf) (auto simp: str_len_def)

lemma strchr_total: "0 \<in> set buf \<Longrightarrow> c \<noteq> 0 \<Longrightarrow>
    (strchr buf c = Inr None \<and> c \<notin> set (takeWhile (\<lambda>x. x \<noteq> 0) buf)) \<or>
    (\<exists>line rest. buf = line @ c # rest \<and> 0 \<notin> set line \<and> c \<notin> set line)"
proof (induction buf)
  case (Cons b bs)
  show ?case
  proof (cases "b = c \<or> b = 0")
    case True
    then show ?thesis using Cons.prems by (auto intro: exI [of _ "[]"])
  next
    case False
    then have "0 \<in> set bs" using Cons.prems(1) by simp
    then consider "strchr bs c = Inr None" "c \<notin> set (takeWhile (\<lambda>x. x \<noteq> 0) bs)"
      | line rest where "bs = line @ c # rest" "0 \<notin> set line" "c \<notin> set line"
      using Cons.IH Cons.prems(2) by blast
    then show ?thesis
    proof cases
      case 1
      then show ?thesis using False by auto
    next
      case 2
      then have "b # bs = (b # line) @ c # rest \<and> 0 \<notin> set (b # line) \<and> c \<notin> set (b # line)" using False by auto
      then show ?thesis by blast
    qed
  qed
qed simp

lemma moved_ended:
  assumes "ended (line @ 10 # rest)" "0 \<notin> set line"
  shows "\<exists>buf. move_front ((line @ 10 # rest)[length line := 0]) (length line + 1) (USERBUF_SIZE - length line) = Inr buf \<and>
    ended buf \<and> str_len buf < str_len (line @ 10 # rest)"
proof -
  obtain front where f: "line @ 10 # rest = front @ [0]" "length front = USERBUF_SIZE"
    using assms(1) by (auto simp: ended_def)
  obtain rest' where r: "rest = rest' @ [0]"
    using f(1) by (cases rest rule: rev_cases) auto
  have len: "length line + length rest = USERBUF_SIZE"
    using arg_cong [OF f(1), of length] f(2) by simp
  let ?buf = "line @ 0 # rest"
  have b: "(line @ 10 # rest)[length line := 0] = ?buf" by (simp add: list_update_append)
  have front': "take (USERBUF_SIZE - length line) (drop (length line + 1) ?buf) = rest" using len by simp
  have "drop (length rest) ?buf \<noteq> []" "last (drop (length rest) ?buf) = 0"
    using r by (simp_all add: last_drop del: drop_append)
  then obtain t where t: "drop (length rest) ?buf = t @ [0]"
    by (metis append_butlast_last_id)
  have moved: "move_front ?buf (length line + 1) (USERBUF_SIZE - length line) = Inr (rest @ drop (length rest) ?buf)"
    using len front' by (simp add: move_front_def blit_0 del: drop_append)
  have "length (t @ [0]) = length line + 1" unfolding t [symmetric] by simp
  then have "ended (rest @ drop (length rest) ?buf)"
    unfolding ended_def t using len by (intro exI [of _ "rest @ t"]) simp
  moreover have "str_len (rest @ drop (length rest) ?buf) = str_len rest"
    using r takeWhile_append1 [of 0 rest "\<lambda>x. x \<noteq> 0" "drop (length rest) ?buf"]
    by (simp add: str_len_def del: drop_append append_assoc)
  moreover have "str_len (line @ 10 # rest) = length line + 1 + str_len rest"
    using assms(2) by (simp add: str_len_def takeWhile_append)
  ultimately show ?thesis using moved b by simp
qed

lemma input_lines_ends:
  assumes "\<forall>l s. \<exists>s'. h l s = Inr s'" "ended (ub_buf b)" "str_len (ub_buf b) < fuel"
  shows "\<exists>s' b'. input_lines fuel h b s = Inr (s', b') \<and> ended (ub_buf b') \<and>
    10 \<notin> set (takeWhile (\<lambda>x. x \<noteq> 0) (ub_buf b'))"
  using assms(2,3)
proof (induction fuel arbitrary: b s)
  case (Suc fuel)
  have z: "0 \<in> set (ub_buf b)" using Suc.prems(1) by (auto simp: ended_def)
  consider "strchr (ub_buf b) 10 = Inr None" "10 \<notin> set (takeWhile (\<lambda>x. x \<noteq> 0) (ub_buf b))"
    | line rest where "ub_buf b = line @ 10 # rest" "0 \<notin> set line" "10 \<notin> set line"
    using strchr_total [OF z, of 10] by auto
  then show ?case
  proof cases
    case 1
    then show ?thesis using Suc.prems(1) by simp
  next
    case 2
    have found: "strchr (ub_buf b) 10 = Inr (Some (length line))"
      unfolding 2(1) by (rule strchr_Some [OF 2(3,2)])
    obtain buf where m: "move_front ((ub_buf b)[length line := 0]) (length line + 1) (USERBUF_SIZE - length line) = Inr buf"
        "ended buf" "str_len buf < str_len (ub_buf b)"
      using moved_ended [of line rest] Suc.prems(1) 2(1,2) by auto
    obtain s1 where s1: "h (takeWhile (\<lambda>x. x \<noteq> 0) ((ub_buf b)[length line := 0])) s = Inr s1"
      using assms(1) by blast
    have "input_lines (Suc fuel) h b s =
        input_lines fuel h (b\<lparr>ub_buf := buf, ub_cur := ub_cur b - of_nat (length line + 1)\<rparr>) s1"
      using found m(1) s1 by (simp add: Let_def)
    then show ?thesis
      using Suc.IH [of "b\<lparr>ub_buf := buf, ub_cur := ub_cur b - of_nat (length line + 1)\<rparr>" s1] m(2,3) Suc.prems(2)
      by simp
  qed
qed simp

text \<open>
  C19. Reading input always comes to an end: whatever is in the buffer and whatever is read, stale bytes,
  NULs and overlong lines included, the loop over the lines returns and stays inside the buffer, its
  last byte is still NUL, and no complete line is left; at most 8191 rounds are needed.
\<close>

theorem user_input_terminates:
  assumes "\<forall>l s. \<exists>s'. h l s = Inr s'" and "ended (ub_buf b)" and "unat (ub_cur b) < 8190"
  shows "\<exists>s' b'. process_user_input h input b s = Inr (s', b') \<and> ended (ub_buf b') \<and>
    10 \<notin> set (takeWhile (\<lambda>x. x \<noteq> 0) (ub_buf b'))"
proof -
  let ?got = "take (USERBUF_SIZE - unat (ub_cur b)) input" and ?cur = "unat (ub_cur b)"
  let ?b = "b\<lparr>ub_buf := blit (ub_buf b) ?cur ?got, ub_cur := ub_cur b + of_nat (length ?got)\<rparr>"
  obtain front where f: "ub_buf b = front @ [0]" "length front = USERBUF_SIZE"
    using assms(2) by (auto simp: ended_def)
  have fits: "?cur + length ?got \<le> USERBUF_SIZE" using assms(3) by (simp add: layout_simps)
  have "blit (ub_buf b) ?cur ?got = blit front ?cur ?got @ [0]"
    unfolding f(1) using fits f(2) by (simp add: blit_def)
  moreover have "length (blit front ?cur ?got) = USERBUF_SIZE" using fits f(2) by (simp add: length_blit)
  ultimately have e: "ended (ub_buf ?b)" by (simp add: ended_def)
  then have "length (ub_buf ?b) = USERBUF_SIZE + 1" "0 \<in> set (ub_buf ?b)" by (auto simp: ended_def)
  then have "str_len (ub_buf ?b) < USERBUF_SIZE + 1" using str_len_less by metis
  note run = input_lines_ends [OF assms(1) e this, of s]
  have "\<not> ub_cur b \<ge> of_nat (USERBUF_SIZE - 1)"
    using assms(3) by (simp add: word_le_nat_alt layout_simps)
  then show ?thesis using run by (simp add: process_user_input_def Let_def)
qed

theorem user_input_terminates_witness:
  "\<exists>s b'. process_user_input (\<lambda>l n. Inr (n + 1)) [10, 0, 10] \<lparr>ub_buf = replicate 8191 10 @ [0], ub_cur = 8000\<rparr> (0::int) =
     Inr (s, b') \<and> 10 \<notin> set (takeWhile (\<lambda>x. x \<noteq> 0) (ub_buf b'))"
proof -
  let ?b = "\<lparr>ub_buf = replicate 8191 10 @ [0], ub_cur = 8000\<rparr>"
  have "ended (ub_buf ?b)" by (simp add: ended_def layout_simps)
  then show ?thesis using user_input_terminates [of "\<lambda>l n. Inr (n + 1)" ?b "[10, 0, 10]" "0::int"] by auto
qed

end
