(* ===== verification/PeerLoop.thy ===== *)
theory PeerLoop
  imports PeerSafety InputBuffer
begin

text \<open>
  The event loop of \<^verbatim>\<open>peer.c\<close>: \<open>peer_iteration\<close> is one round of the \<^verbatim>\<open>while (1)\<close> of \<^verbatim>\<open>peer_run\<close>, composed
  of the operations of the other theories, and \<open>peer_run\<close> a sequence of rounds. What \<^verbatim>\<open>select\<close> reports
  and what the environment does during a round is an argument.

  The loop is safe: in every state that is reached by rounds whose events the code can deal with, the
  next such round returns. The line buffer is connected to the command handler through the interface
  \<open>line_handler\<close>.
\<close>

section \<open>One round\<close>

text \<open>
  A round: the datagram that arrived (the old contents of the receive buffer, the bytes, the sender), the
  input that can be read, and the environment of each of the four stages; within a stage the clock and
  the files do not change.
\<close>

record event =
  ev_datagram :: "(byte list \<times> byte list \<times> sockaddr_in) option"
  ev_input :: "byte list option"
  ev_io :: "nat \<Rightarrow> io"

definition handle_line :: "io \<Rightarrow> byte list \<Rightarrow> peer_st \<times> sent \<Rightarrow> (peer_st \<times> sent) res" where
  "handle_line io line st =
     rbind (handle_user_input io line (fst st)) (\<lambda>(ps, out). Inr (ps, snd st @ out))"

definition inbound :: "event \<Rightarrow> peer_st \<Rightarrow> (peer_st \<times> sent) res" where
  "inbound ev ps = (case ev_datagram ev of
     None \<Rightarrow> Inr (ps, [])
   | Some (buf, msg, sender) \<Rightarrow> process_inbound_udp (ev_io ev 0) buf msg sender ps)"

definition peer_iteration :: "event \<Rightarrow> peer_st \<times> user_iobuf \<Rightarrow> ((peer_st \<times> user_iobuf) \<times> sent) res" where
  "peer_iteration ev st = (case st of (ps, userbuf) \<Rightarrow>
     rbind (inbound ev ps) (\<lambda>(ps, out1).
     rbind (case ev_input ev of
              None \<Rightarrow> Inr ((ps, []), userbuf)
            | Some input \<Rightarrow> process_user_input (handle_line (ev_io ev 1)) input userbuf (ps, []))
       (\<lambda>((ps, out2), userbuf).
     rbind (repeat_requests (ev_io ev 2) ps) (\<lambda>(ps, out3).
     rbind (check_timeouts (ev_io ev 3) ps) (\<lambda>(ps, out4).
     Inr ((ps, userbuf), out1 @ out2 @ out3 @ out4))))))"

fun peer_run :: "event list \<Rightarrow> peer_st \<times> user_iobuf \<Rightarrow> ((peer_st \<times> user_iobuf) \<times> sent) res" where
  "peer_run [] st = Inr (st, [])"
| "peer_run (ev # evs) st =
     rbind (peer_iteration ev st) (\<lambda>(st, out). rbind (peer_run evs st) (\<lambda>(st, outs). Inr (st, out @ outs)))"

text \<open>The globals as the program starts.\<close>

definition initial_peer :: "bt_config_t \<Rightarrow> peer_st" where
  "initial_peer config = \<lparr>ps_config = config, ps_sender = \<lparr>snd_list = [], wlog = []\<rparr>, ps_recv = [],
     ps_fm = initial_manager, ps_tracker = [], ps_written = []\<rparr>"

section \<open>Commands\<close>

lemma config_same_output: "\<exists>f. (config :: bt_config_t) = config\<lparr>output_file := f\<rparr>"
  by (intro exI [of _ "output_file config"]) simp

lemma world_ok_output [simp]: "world_ok ms (config\<lparr>output_file := out\<rparr>) io = world_ok ms config io"
  by (simp add: world_ok_def)

text \<open>
  \<open>command_ok\<close>: if the line is a GET command its chunk file is there, as \<^verbatim>\<open>make_chunks\<close> prints it, and
  the master chunk file lists its chunks.
\<close>

definition command_ok :: "(nat \<times> byte list) list \<Rightarrow> io \<Rightarrow> byte list \<Rightarrow> peer_st \<times> sent \<Rightarrow> bool" where
  "command_ok ms io line st \<longleftrightarrow> (case scan_get line of (c, out) \<Rightarrow> out \<noteq> [] \<longrightarrow>
     (\<exists>es. io_fs io c = Some (chunk_text es) \<and>
        (\<forall>e \<in> set es. length (snd e) = 20 \<and> snd e \<in> snd ` set ms)))"

lemma master_hash_offset:
  assumes "h \<in> snd ` set ms" shows "master_hash ms (master_offset ms h) \<noteq> None"
proof -
  obtain m where m: "List.find (\<lambda>m. snd m = h) ms = Some m"
    using assms by (cases "List.find (\<lambda>m. snd m = h) ms") (auto simp: find_None_iff)
  then have "m \<in> set ms" "master_offset ms h = int (fst m)"
    by (auto dest: find_Some_in_set simp: master_offset_def)
  then have "List.find (\<lambda>n. int (fst n) = master_offset ms h) ms \<noteq> None"
    using \<open>m \<in> set ms\<close> by (auto simp: find_None_iff simp del: split_paired_All split_paired_Ex)
  then show ?thesis by (simp add: master_hash_def)
qed

lemma requested_ok:
  assumes "\<forall>e \<in> set es. snd e \<in> snd ` set ms"
  shows "manager_ok ms (requested now es ms)"
proof -
  let ?offs = "map (\<lambda>e. master_offset ms (snd e)) es"
  have "manager_ready ?offs (requested now es ms)"
    by (simp add: manager_ready_def manager_offsets_def requested_def)
  moreover have "\<forall>off \<in> set ?offs. master_hash ms off \<noteq> None"
    using assms master_hash_offset by auto
  ultimately show ?thesis unfolding manager_ok_def by blast
qed

lemma world_get_files:
  assumes "world_ok ms config io" "io_fs io c = Some (chunk_text es)" "\<forall>e \<in> set es. length (snd e) = 20"
  shows "get_files io config c es ms"
proof -
  obtain path where "io_fs io (chunk_file config) = Some (master_text path ms)" "path_ok path"
      "\<forall>m \<in> set ms. length (snd m) = 20"
    using world_master [OF assms(1)] by metis
  moreover have "io_slack io \<noteq> []" "length (io_data io) = 524288"
      "\<exists>junk. c_string (io_stk io) = Inr junk \<and> length junk \<le> 1195"
    using assms(1) by (simp_all add: world_ok_def)
  ultimately show ?thesis using assms(2,3) by (auto simp: get_files_def)
qed

lemma user_input_ok:
  assumes "peer_ok ms ps" "world_ok ms (ps_config ps) io" "command_ok ms io line (ps, out0)"
  shows "\<exists>ps' out. handle_user_input io line ps = Inr (ps', out) \<and> peer_ok ms ps' \<and>
    (\<exists>f. ps_config ps' = (ps_config ps)\<lparr>output_file := f\<rparr>)"
proof (cases "snd (scan_get line) = []")
  case True
  then have "handle_user_input io line ps = Inr (ps, [])"
    by (cases "scan_get line") (simp add: handle_user_input_def)
  moreover have "ps_config ps = (ps_config ps)\<lparr>output_file := output_file (ps_config ps)\<rparr>" by simp
  ultimately show ?thesis using assms(1) by blast
next
  case False
  obtain c f where cf: "scan_get line = (c, f)" by fastforce
  then obtain es where es: "io_fs io c = Some (chunk_text es)"
      "\<forall>e \<in> set es. length (snd e) = 20 \<and> snd e \<in> snd ` set ms"
    using assms(3) False by (auto simp: command_ok_def)
  then have "get_files io (ps_config ps) c es ms" using world_get_files [OF assms(2)] by blast
  from process_get_result [OF this, of f]
  obtain ps' out where g: "process_get io c f ps = Inr (ps', out)"
      "ps' = ps\<lparr>ps_config := (ps_config ps)\<lparr>output_file := take 120 f\<rparr>, ps_fm := requested (io_now io) es ms\<rparr>"
    by blast
  have "handle_user_input io line ps = Inr (ps', out)"
    using g(1) cf False by (simp add: handle_user_input_def)
  moreover have "peer_ok ms ps'" using assms(1) requested_ok es(2) by (simp add: g(2) peer_ok_def)
  ultimately show ?thesis using g(2) by auto
qed

definition command_inv :: "(nat \<times> byte list) list \<Rightarrow> io \<Rightarrow> bt_config_t \<Rightarrow> peer_st \<times> sent \<Rightarrow> bool" where
  "command_inv ms io config st \<longleftrightarrow> peer_ok ms (fst st) \<and> world_ok ms (ps_config (fst st)) io \<and>
     (\<exists>f. ps_config (fst st) = config\<lparr>output_file := f\<rparr>)"

interpretation command: line_handler "handle_line io" "command_inv ms io config" "command_ok ms io"
  for io ms config
proof unfold_locales
  fix st l assume inv: "command_inv ms io config st" and ok: "command_ok ms io l st"
  obtain ps out where st: "st = (ps, out)" by fastforce
  obtain ps' out' where h: "handle_user_input io l ps = Inr (ps', out')" "peer_ok ms ps'"
      "\<exists>f. ps_config ps' = (ps_config ps)\<lparr>output_file := f\<rparr>"
    using user_input_ok [of ms ps io l out] inv ok by (auto simp: command_inv_def st)
  then have "command_inv ms io config (ps', out @ out')"
    using inv by (auto simp: command_inv_def st)
  then show "\<exists>st'. handle_line io l st = Inr st' \<and> command_inv ms io config st'"
    using h(1) by (simp add: handle_line_def st)
qed

section \<open>Stalled chunks\<close>

lemma asks_for_all_sent:
  assumes "list_all2 asks_for packets (map (\<lambda>c. [f c]) cs)"
  shows "\<exists>msgs. list_all2 (\<lambda>p m. sendto_bytes p = Inr m) (rev (rev packets)) msgs"
proof -
  have "\<forall>p \<in> set packets. \<exists>m. sendto_bytes p = Inr m"
  proof
    fix p assume "p \<in> set packets"
    then obtain h where "asks_for p [h]"
      using assms by (auto simp: list_all2_conv_all_nth in_set_conv_nth)
    then show "\<exists>m. sendto_bytes p = Inr m" using asks_for_sent [of p "[h]"] by auto
  qed
  then have "\<exists>msgs. list_all2 (\<lambda>p m. sendto_bytes p = Inr m) packets msgs"
    by (induction packets) (auto simp: list_all2_Cons1)
  then show ?thesis by simp
qed

lemma repeat_requests_ok:
  assumes "peer_ok ms ps" "world_ok ms (ps_config ps) io"
  shows "\<exists>ps' out offs. repeat_requests io ps = Inr (ps', out) \<and> peer_ok ms ps' \<and> ps_config ps' = ps_config ps \<and>
    ps_written ps' = ps_written ps \<and> fm_init (ps_fm ps') = fm_init (ps_fm ps) \<and>
    (\<forall>offs. manager_ready offs (ps_fm ps) \<longrightarrow> manager_ready offs (ps_fm ps')) \<and> ps_recv ps' = release_all offs (ps_recv ps)"
proof (cases "fm_init (ps_fm ps)")
  case False
  then show ?thesis
    using assms(1) by (intro exI [of _ ps] exI [of _ "[]"] exI [of _ "{}"]) (simp add: repeat_requests_def re_generateWhohas_def)
next
  case True
  then obtain offs where offs: "manager_ready offs (ps_fm ps)" "\<forall>off \<in> set offs. master_hash ms off \<noteq> None"
    using assms(1) by (auto simp: peer_ok_def manager_ok_def)
  then obtain used ts where fm: "manager_offsets (ps_fm ps) = Inr offs" "fm_already_used (ps_fm ps) = Some used"
      "fm_timer (ps_fm ps) = Some ts" "length ts = length offs"
    by (auto simp: manager_ready_def)
  obtain path where m: "io_fs io (chunk_file (ps_config ps)) = Some (master_text path ms)" "path_ok path"
      "\<forall>m \<in> set ms. length (snd m) = 20"
    using world_master [OF assms(2)] by metis
  obtain junk where j: "c_string (io_stk io) = Inr junk" "length junk \<le> 1195" and slack: "io_slack io \<noteq> []"
    using assms(2) by (auto simp: world_ok_def)
  let ?late = "filter (stalled io (ps_recv ps)) (zip offs ts)"
  let ?ts = "map (\<lambda>c. if stalled io (ps_recv ps) c then io_now io else snd c) (zip offs ts)"
  obtain packets where r: "regenerate_loop io offs 0 (Some ts) ps [] =
      Inr (Some ?ts, ps\<lparr>ps_recv := release_all (fst ` set ?late) (ps_recv ps)\<rparr>, rev packets)"
      "list_all2 asks_for packets (map (\<lambda>c. [the (master_hash ms (fst c))]) ?late)"
    using regenerate_loop_result [OF m slack j offs(2), of ts 0 "ps_recv ps" "[]"] fm(4) by auto
  let ?ps = "ps\<lparr>ps_recv := release_all (fst ` set ?late) (ps_recv ps), ps_fm := (ps_fm ps)\<lparr>fm_timer := Some ?ts\<rparr>\<rparr>"
  have re: "re_generateWhohas io ps = Inr (?ps, rev packets)"
    using True fm r(1) by (simp add: re_generateWhohas_def)
  obtain msgs where msgs: "list_all2 (\<lambda>p m. sendto_bytes p = Inr m) (rev (rev packets)) msgs"
    using asks_for_all_sent [OF r(2)] by blast
  have "manager_ready offs ((ps_fm ps)\<lparr>fm_timer := Some ?ts\<rparr>)"
    using fm by (simp add: manager_ready_def)
  then have "manager_ok ms ((ps_fm ps)\<lparr>fm_timer := Some ?ts\<rparr>)"
    using offs(2) by (auto simp: manager_ok_def)
  then have "peer_ok ms ?ps" using assms(1) by (simp add: peer_ok_def)
  moreover have "\<forall>offs'. manager_ready offs' (ps_fm ps) \<longrightarrow> manager_ready offs' ((ps_fm ps)\<lparr>fm_timer := Some ?ts\<rparr>)"
    using fm by (simp add: manager_ready_def)
  moreover obtain out where "repeat_requests io ps = Inr (?ps, out)"
    using re broadcast_all_result [OF msgs] by (auto simp: repeat_requests_def)
  ultimately show ?thesis
    by (intro exI [of _ ?ps] exI [of _ out] exI [of _ "fst ` set ?late"]) simp
qed

lemma check_timeouts_ok:
  assumes "peer_ok ms ps"
  shows "\<exists>ps' out. check_timeouts io ps = Inr (ps', out) \<and> peer_ok ms ps' \<and> ps_config ps' = ps_config ps"
proof -
  have "tracker_sane (ps_tracker ps)" using assms by (simp add: peer_ok_def)
  note r = check_timeouts_result [OF this, of io] and s = after_timeout_sane [OF this, of "io_now io"]
  show ?thesis using r s assms losses_sessions by (auto simp: peer_ok_def)
qed

section \<open>The loop\<close>

text \<open>
  \<open>loop_ok\<close>: the invariant of the loop. \<open>event_ok\<close>: what the code takes for granted of a round: the files
  are in place, the datagram is one of those it can deal with, the input has no NULs and at most
  4096 bytes of it are waiting, and its commands are acceptable.
\<close>

definition loop_ok :: "(nat \<times> byte list) list \<Rightarrow> peer_st \<times> user_iobuf \<Rightarrow> bool" where
  "loop_ok ms st \<longleftrightarrow> peer_ok ms (fst st) \<and> (\<exists>w. holds (snd st) w \<and> line_text w)"

definition input_ok :: "(nat \<times> byte list) list \<Rightarrow> io \<Rightarrow> byte list \<Rightarrow> peer_st \<times> user_iobuf \<Rightarrow> bool" where
  "input_ok ms io input st \<longleftrightarrow> (\<exists>w0 ls w. holds (snd st) w0 \<and> w0 @ input = terminated ls @ w \<and>
     length (w0 @ input) \<le> 4096 \<and> (\<forall>l \<in> set ls. line_text l) \<and> line_text w \<and>
     lines_ok (handle_line io) (command_ok ms io) ls (fst st, []))"

definition event_ok :: "(nat \<times> byte list) list \<Rightarrow> event \<Rightarrow> peer_st \<times> user_iobuf \<Rightarrow> bool" where
  "event_ok ms ev st \<longleftrightarrow> (\<forall>k. world_ok ms (ps_config (fst st)) (ev_io ev k)) \<and>
     (case ev_datagram ev of None \<Rightarrow> True | Some (buf, msg, sender) \<Rightarrow> arrives ms buf msg sender (fst st)) \<and>
     (case ev_input ev of None \<Rightarrow> True | Some input \<Rightarrow>
        (case inbound ev (fst st) of Inl _ \<Rightarrow> True | Inr (ps, _) \<Rightarrow> input_ok ms (ev_io ev 1) input (ps, snd st)))"

lemma inbound_stage:
  assumes "loop_ok ms (ps, userbuf)" "event_ok ms ev (ps, userbuf)"
  shows "\<exists>ps' out. inbound ev ps = Inr (ps', out) \<and> peer_ok ms ps' \<and> ps_config ps' = ps_config ps"
proof (cases "ev_datagram ev")
  case None
  then show ?thesis using assms(1) by (simp add: inbound_def loop_ok_def)
next
  case (Some d)
  obtain buf msg sender where d: "d = (buf, msg, sender)" by (cases d)
  have "peer_ok ms ps" "world_ok ms (ps_config ps) (ev_io ev 0)" "arrives ms buf msg sender ps"
    using assms Some by (auto simp: loop_ok_def event_ok_def d)
  then show ?thesis using inbound_ok Some by (fastforce simp: inbound_def d)
qed

lemma input_stage:
  assumes "peer_ok ms ps" "world_ok ms (ps_config ps) io" "input_ok ms io input (ps, userbuf)"
  shows "\<exists>ps' out userbuf'. process_user_input (handle_line io) input userbuf (ps, []) = Inr ((ps', out), userbuf') \<and>
    loop_ok ms (ps', userbuf') \<and> (\<exists>f. ps_config ps' = (ps_config ps)\<lparr>output_file := f\<rparr>)"
proof -
  obtain w0 ls w where i: "holds userbuf w0" "w0 @ input = terminated ls @ w" "length (w0 @ input) \<le> 4096"
      "\<forall>l \<in> set ls. line_text l" "line_text w" "lines_ok (handle_line io) (command_ok ms io) ls (ps, [])"
    using assms(3) unfolding input_ok_def fst_conv snd_conv by blast
  have "command_inv ms io (ps_config ps) (ps, [])"
    using assms(1,2) config_same_output by (simp add: command_inv_def)
  from command.input_handled [OF this i(6,1-5)]
  obtain st userbuf' where "process_user_input (handle_line io) input userbuf (ps, []) = Inr (st, userbuf')"
      "command_inv ms io (ps_config ps) st" "holds userbuf' w"
    by blast
  then show ?thesis using i(5) by (cases st) (auto simp: command_inv_def loop_ok_def)
qed

lemma iteration_ok:
  assumes inv: "loop_ok ms st" and ev: "event_ok ms ev st"
  shows "\<exists>st' out. peer_iteration ev st = Inr (st', out) \<and> loop_ok ms st' \<and>
    (\<exists>f. ps_config (fst st') = (ps_config (fst st))\<lparr>output_file := f\<rparr>)"
proof -
  obtain ps userbuf where st: "st = (ps, userbuf)" by fastforce
  obtain ps1 out1 where s1: "inbound ev ps = Inr (ps1, out1)" "peer_ok ms ps1" "ps_config ps1 = ps_config ps"
    using inbound_stage inv ev unfolding st by blast
  have w: "world_ok ms (ps_config ps) (ev_io ev k)" for k using ev by (auto simp: event_ok_def st)
  obtain ps2 out2 userbuf2 where s2: "(case ev_input ev of
        None \<Rightarrow> Inr ((ps1, []), userbuf)
      | Some input \<Rightarrow> process_user_input (handle_line (ev_io ev 1)) input userbuf (ps1, [])) = Inr ((ps2, out2), userbuf2)"
      "loop_ok ms (ps2, userbuf2)" "\<exists>f. ps_config ps2 = (ps_config ps)\<lparr>output_file := f\<rparr>"
  proof (cases "ev_input ev")
    case None
    have "\<exists>f. ps_config ps1 = (ps_config ps)\<lparr>output_file := f\<rparr>"
      using s1(3) config_same_output by simp
    moreover have "loop_ok ms (ps1, userbuf)" using inv s1(2) by (simp add: loop_ok_def st)
    ultimately show ?thesis using that [of ps1 "[]" userbuf] None by simp
  next
    case (Some input)
    have "input_ok ms (ev_io ev 1) input (ps1, userbuf)"
      using ev Some s1(1) by (simp add: event_ok_def st)
    moreover have "world_ok ms (ps_config ps1) (ev_io ev 1)" using w s1(3) by simp
    ultimately obtain ps2 out2 userbuf2 where
        "process_user_input (handle_line (ev_io ev 1)) input userbuf (ps1, []) = Inr ((ps2, out2), userbuf2)"
        "loop_ok ms (ps2, userbuf2)" "\<exists>f. ps_config ps2 = (ps_config ps1)\<lparr>output_file := f\<rparr>"
      using input_stage [OF s1(2)] by blast
    then show ?thesis using that Some s1(3) by simp
  qed
  then have w2: "world_ok ms (ps_config ps2) (ev_io ev k)" for k using w by auto
  obtain ps3 out3 where s3: "repeat_requests (ev_io ev 2) ps2 = Inr (ps3, out3)" "peer_ok ms ps3"
      "ps_config ps3 = ps_config ps2"
  proof -
    have "peer_ok ms ps2" using s2(2) by (simp add: loop_ok_def)
    then show ?thesis using repeat_requests_ok [OF _ w2 [of 2]] that by blast
  qed
  obtain ps4 out4 where s4: "check_timeouts (ev_io ev 3) ps3 = Inr (ps4, out4)" "peer_ok ms ps4"
      "ps_config ps4 = ps_config ps3"
    using check_timeouts_ok [OF s3(2)] by blast
  have "peer_iteration ev st = Inr ((ps4, userbuf2), out1 @ out2 @ out3 @ out4)"
    using s1(1) s2(1) s3(1) s4(1) by (simp add: peer_iteration_def st)
  moreover have "loop_ok ms (ps4, userbuf2)" using s2(2) s4(2) by (simp add: loop_ok_def)
  ultimately show ?thesis using s2(3) s3(3) s4(3) by (auto simp: st)
qed

text \<open>The states that the loop reaches by rounds the code can deal with.\<close>

inductive reaches :: "(nat \<times> byte list) list \<Rightarrow> bt_config_t \<Rightarrow> peer_st \<times> user_iobuf \<Rightarrow> bool"
  for ms config where
  start: "create_userbuf True True = Some userbuf \<Longrightarrow> reaches ms config (initial_peer config, userbuf)"
| round: "reaches ms config st \<Longrightarrow> event_ok ms ev st \<Longrightarrow> peer_iteration ev st = Inr (st', out) \<Longrightarrow>
    reaches ms config st'"

lemma initial_ok: "peer_ok ms (initial_peer config)"
  by (simp add: peer_ok_def initial_peer_def sessions_ok_def get_data_by_socket_def initial_manager_def manager_ok_def)

lemma reaches_ok: "reaches ms config st \<Longrightarrow> loop_ok ms st"
proof (induction rule: reaches.induct)
  case (start userbuf)
  then have "holds userbuf []" by (auto simp: create_userbuf_def holds_def layout_simps)
  then show ?case using initial_ok unfolding loop_ok_def line_text_def by fastforce
next
  case (round st ev st' out)
  then show ?case using iteration_ok by fastforce
qed

text \<open>\<open>events_ok\<close>: every round of the list is acceptable in the state in which it begins.\<close>

fun events_ok :: "(nat \<times> byte list) list \<Rightarrow> event list \<Rightarrow> peer_st \<times> user_iobuf \<Rightarrow> bool" where
  "events_ok ms [] st = True"
| "events_ok ms (ev # evs) st = (event_ok ms ev st \<and>
     (case peer_iteration ev st of Inl _ \<Rightarrow> True | Inr (st', _) \<Rightarrow> events_ok ms evs st'))"

lemma run_reaches:
  "reaches ms config st \<Longrightarrow> events_ok ms evs st \<Longrightarrow> \<exists>st' out. peer_run evs st = Inr (st', out) \<and> reaches ms config st'"
proof (induction evs arbitrary: st)
  case (Cons ev evs)
  have ev: "event_ok ms ev st" using Cons.prems(2) by simp
  obtain st1 out1 where i: "peer_iteration ev st = Inr (st1, out1)"
    using iteration_ok [OF reaches_ok [OF Cons.prems(1)] ev] by blast
  obtain st2 out2 where "peer_run evs st1 = Inr (st2, out2)" "reaches ms config st2"
    using Cons.IH [OF round [OF Cons.prems(1) ev i]] Cons.prems(2) i by auto
  then show ?case using i by simp
qed simp

text \<open>
  The event loop never leaves defined behaviour: from the start of the program on, as long as every
  round's datagram, input and files are of the kind the code can deal with, every round returns, and
  the invariant of the loop holds after it.
\<close>

theorem event_loop_safe:
  assumes "create_userbuf True True = Some userbuf" and "events_ok ms evs (initial_peer config, userbuf)"
  shows "\<exists>st' out. peer_run evs (initial_peer config, userbuf) = Inr (st', out) \<and>
    reaches ms config st' \<and> loop_ok ms st'"
  using run_reaches [OF start [OF assms(1)] assms(2)] reaches_ok by blast

text \<open>A peer that is told \<^verbatim>\<open>GET h o\<close>.\<close>

definition example_event :: event where
  "example_event = \<lparr>ev_datagram = None, ev_input = Some [0x47, 0x45, 0x54, 32, 104, 32, 111, 10],
     ev_io = (\<lambda>_. example_world)\<rparr>"

lemma example_events_ok:
  assumes "create_userbuf True True = Some userbuf" "chunk_file config = [109]" "has_chunk_file config = [104]"
  shows "events_ok [(0, replicate 20 1)] [example_event] (initial_peer config, userbuf)"
proof -
  let ?ms = "[(0, replicate 20 1)] :: (nat \<times> byte list) list"
    and ?line = "[0x47, 0x45, 0x54, 32, 104, 32, 111] :: byte list"
  have h: "holds userbuf []" using assms(1) by (auto simp: create_userbuf_def holds_def layout_simps)
  have "word_ok [104]" "word_ok [111]" by (simp_all add: word_ok_def is_space_def)
  then have "scan_get ?line = ([104], [111])" using scan_get_command [of "[104]" "[111]"] by simp
  moreover have "io_fs example_world [104] = Some (chunk_text ?ms)"
    by (simp add: example_world_def example_io_def)
  ultimately have "command_ok ?ms example_world ?line (initial_peer config, [])"
    by (auto simp: command_ok_def intro!: exI [of _ ?ms])
  then have "lines_ok (handle_line example_world) (command_ok ?ms example_world) [?line] (initial_peer config, [])"
    by (simp split: sum.split)
  then have "input_ok ?ms example_world [0x47, 0x45, 0x54, 32, 104, 32, 111, 10] (initial_peer config, userbuf)"
    using h unfolding input_ok_def
    by (intro exI [of _ "[]"] exI [of _ "[?line]"]) (simp add: line_text_def)
  moreover have "world_ok ?ms config example_world"
    using example_world_ok [of "[111]"] assms(2,3) by (simp add: world_ok_def example_config_def)
  ultimately show ?thesis
    by (simp add: event_ok_def example_event_def inbound_def initial_peer_def split: sum.split)
qed

theorem event_loop_safe_witness:
  "\<exists>userbuf st' out. peer_run [example_event] (initial_peer example_config, userbuf) = Inr (st', out) \<and>
     loop_ok [(0, replicate 20 1)] st'"
proof -
  obtain userbuf where u: "create_userbuf True True = Some userbuf" by (simp add: create_userbuf_def)
  have "chunk_file example_config = [109]" "has_chunk_file example_config = [104]"
    by (simp_all add: example_config_def)
  then show ?thesis using event_loop_safe [OF u example_events_ok [OF u]] by blast
qed

end
