(* ===== verification/Handshake.thy ===== *)
theory Handshake
  imports PeerSafety
begin

text \<open>
  The three datagrams that start the transfer of a chunk, through \<^verbatim>\<open>process_inbound_udp\<close> on both sides: the
  WHOHAS request of the client, the IHAVE offer of the server and the GET of the client. After them the
  two peers are in the states in which the model of a chunk transfer (theory \<open>ChunkTransfer\<close>) begins.
\<close>

section \<open>Offers and GET packets on the wire\<close>

definition offer_pkt :: "byte list list \<Rightarrow> byte list \<Rightarrow> data_packet_t" where
  "offer_pkt hs rest = \<lparr>header = hdr_swap (host_header 1 (20 + 20 * length hs) 0 0),
     data = [of_nat (length hs), 1, 1, 1] @ concat hs @ rest\<rparr>"

text \<open>\<open>offers msg hs\<close>: a peer that receives the datagram \<open>msg\<close> reads an offer of the chunks \<open>hs\<close>.\<close>

definition offers :: "byte list \<Rightarrow> byte list list \<Rightarrow> bool" where
  "offers msg hs \<longleftrightarrow> (\<forall>buf. length buf = 1500 \<longrightarrow>
     packet_type (header (from_wire buf msg)) = 1 \<and> packet_count (from_wire buf msg) = Inr (int (length hs)) \<and>
     (\<forall>i < length hs. packet_hash (from_wire buf msg) i = Inr (hs ! i)))"

lemma drop_behind_four: "drop (4 + k) ([a, b, c, d] @ xs) = drop k xs"
  by (simp add: eval_nat_numeral)

lemma offer_good:
  assumes "\<forall>h \<in> set hs. length h = 20" "length hs < 60" "length rest = 1196 - 20 * length hs"
  shows "good_response (offer_pkt hs rest)"
  using concat_hashes_length [OF assms(1)] assms(2,3) unfolding offer_pkt_def
  by (intro plain_response_good) simp_all

lemma offer_sent:
  assumes hs: "\<forall>h \<in> set hs. length h = 20" "length hs < 60" "length rest = 1196 - 20 * length hs"
  shows "\<exists>msg. to_wire (offer_pkt hs rest) = Inr msg \<and> offers msg hs"
proof -
  let ?n = "20 + 20 * length hs" and ?d = "[of_nat (length hs), 1, 1, 1] @ concat hs @ rest"
  have cl: "length (concat hs) = 20 * length hs" using concat_hashes_length [OF hs(1)] .
  then have d: "length ?d = 1200" using hs(2,3) by simp
  have w: "to_wire (offer_pkt hs rest) = Inr (wire_image (host_header 1 ?n 0 0) ?d)"
    using to_wire_host [of ?n ?d 1 0 0] d hs(2) by (simp add: offer_pkt_def)
  have "offers (wire_image (host_header 1 ?n 0 0) ?d) hs"
    unfolding offers_def
  proof (intro allI impI)
    fix buf :: "byte list" assume buf: "length buf = 1500"
    have "?n - 16 = length ([of_nat (length hs), 1, 1, 1 :: byte] @ concat hs)" using cl by simp
    then have "take (?n - 16) ?d = [of_nat (length hs), 1, 1, 1] @ concat hs"
      by (metis append_assoc append_eq_conv_conj)
    then have f: "from_wire buf (wire_image (host_header 1 ?n 0 0) ?d) =
        \<lparr>header = host_header 1 ?n 0 0, data = [of_nat (length hs), 1, 1, 1] @ concat hs @ drop ?n buf\<rparr>"
      using from_wire_host [of ?n ?d buf 1 0 0] d hs(2) buf by simp
    have "packet_hash \<lparr>header = host_header 1 ?n 0 0, data = [of_nat (length hs), 1, 1, 1] @ concat hs @ drop ?n buf\<rparr> i =
        Inr (hs ! i)" if "i < length hs" for i
    proof -
      let ?rest = "concat hs @ drop ?n buf"
      have "take 20 (drop (4 + 20 * i) ([of_nat (length hs), 1, 1, 1] @ ?rest)) = hs ! i"
        using take_drop_concat [OF hs(1) that, of "drop ?n buf"] unfolding drop_behind_four by (simp add: mult.commute)
      moreover have "4 + 20 * i + 20 \<le> length ([of_nat (length hs), 1, 1, 1 :: byte] @ ?rest)"
        using that cl by simp
      ultimately show ?thesis unfolding packet_hash_def by simp
    qed
    then show "packet_type (header (from_wire buf (wire_image (host_header 1 ?n 0 0) ?d))) = 1 \<and>
        packet_count (from_wire buf (wire_image (host_header 1 ?n 0 0) ?d)) = Inr (int (length hs)) \<and>
        (\<forall>i < length hs. packet_hash (from_wire buf (wire_image (host_header 1 ?n 0 0) ?d)) i = Inr (hs ! i))"
      unfolding f using hs(2) sint_small_byte [of "length hs"]
      by (simp add: packet_count_def in_range_def host_header_def)
  qed
  with w show ?thesis by blast
qed

definition get_msg :: "byte list \<Rightarrow> byte list" where
  "get_msg h = wire_image (host_header 2 36 0 0) (h @ replicate 1180 0)"

lemma get_pkt_sent: "length h = 20 \<Longrightarrow> to_wire (get_pkt h) = Inr (get_msg h)"
  using to_wire_host [of 36 "h @ replicate 1180 0" 2 0 0] by (simp add: get_pkt_def get_msg_def)

lemma get_msg_read:
  assumes "length h = 20" "length buf = 1500"
  shows "packet_type (header (from_wire buf (get_msg h))) = 2" "take 20 (data (from_wire buf (get_msg h))) = h"
  using from_wire_host [of 36 "h @ replicate 1180 0" buf 2 0 0] assms by (simp_all add: get_msg_def host_header_def)

lemma from_wire_swap:
  "from_wire buf msg = pkt_swap (build_packet_from_buf (recvfrom_into buf msg))"
  "packet_type (header (pkt_swap p)) = packet_type (header p)" "data (pkt_swap p) = data p"
  "packet_count (pkt_swap p) = packet_count p" "packet_hash (pkt_swap p) i = packet_hash p i"
  by (simp_all add: from_wire_def pkt_swap_def hdr_swap_def packet_count_def packet_hash_def)

section \<open>The server answers a request\<close>

lemma track_one: "packet_type (header p) \<noteq> 3 \<Longrightarrow> track_all io node sender (rev [p]) trk = trk"
  by (simp add: tracked_def)

text \<open>The chunks of a request that a peer finds in its list.\<close>

definition local_chunks :: "(nat \<times> byte list) list \<Rightarrow> byte list list \<Rightarrow> byte list list" where
  "local_chunks es hs = filter (\<lambda>h. h \<in> set (takeWhile (\<lambda>h. 0 \<notin> set h) (map snd es))) hs"

lemma request_offered:
  assumes ok: "peer_ok ms ps" and w: "world_ok ms (ps_config ps) io" and buf: "length buf = 1500"
    and node: "node_of_addr client (peers (ps_config ps)) = node" "node \<noteq> -1"
    and req: "reads_request req hs" "length hs < 60"
    and es: "io_fs io (has_chunk_file (ps_config ps)) = Some (chunk_text es)" "\<forall>e \<in> set es. length (snd e) = 20"
      "length es \<le> 4" "local_chunks es hs \<noteq> []"
  shows "\<exists>offer. process_inbound_udp io buf req client ps = Inr (ps, [(client, offer)]) \<and>
    offers offer (local_chunks es hs)"
proof -
  let ?p = "build_packet_from_buf (recvfrom_into buf req)"
  have p: "packet_type (header ?p) = 0" "packet_count ?p = Inr (int (length hs))"
      "\<forall>i < length hs. packet_hash ?p i = Inr (hs ! i)"
    using req(1) buf unfolding reads_request_def by (simp_all add: from_wire_swap)
  have hs: "\<forall>h \<in> set hs. length h = 20"
    using p(3) length_packet_hash by (metis in_set_conv_nth)
  obtain junk where junk: "c_string (io_stk io) = Inr junk" "length junk \<le> 1195"
    using w by (auto simp: world_ok_def)
  have io: "io_slack io \<noteq> []" "length (io_local io) = 100" "silent (io_tracker io)"
    using w by (simp_all add: world_ok_def)
  let ?w = "local_chunks es hs"
  obtain rest where h: "handle_packet io ?p node ps = Inr (ps, [offer_pkt ?w rest])"
      "length rest = 1196 - 20 * length ?w"
    using whohas_reply_text [OF p(1,2) req(2) refl p(3) es(1-3) io(1,2) junk local_chunks_def] es(4)
    by (auto simp: offer_pkt_def)
  have wanted: "\<forall>h \<in> set ?w. length h = 20" "length ?w < 60"
    using hs req(2) le_less_trans [OF length_filter_le] by (auto simp: local_chunks_def)
  obtain msg where msg: "to_wire (offer_pkt ?w rest) = Inr msg" "offers msg ?w"
    using offer_sent [OF wanted h(2)] by blast
  have good: "\<forall>p \<in> set [offer_pkt ?w rest]. good_response p" using offer_good [OF wanted h(2)] by simp
  have "packet_type (header (offer_pkt ?w rest)) \<noteq> 3" by (simp add: offer_pkt_def)
  then have "track_all io node client (rev [offer_pkt ?w rest]) (ps_tracker ps) = ps_tracker ps"
    by (rule track_one)
  with inbound_sends [OF node h(1) ok good io(3)] msg show ?thesis by auto
qed

section \<open>The client takes an offer\<close>

lemma offer_taken:
  assumes ok: "peer_ok ms ps" and w: "world_ok ms (ps_config ps) io" and buf: "length buf = 1500"
    and node: "node_of_addr server (peers (ps_config ps)) = node" "node \<noteq> -1"
    and offer: "offers offer hs" "fm_init (ps_fm ps)"
      "\<forall>h \<in> set hs. master_offset ms h = -1 \<or> master_offset ms h \<in> set (offsets_of (ps_fm ps))"
      "List.find (\<lambda>h. master_offset ms h \<noteq> -1 \<and> \<not> busy_with node (master_offset ms h) ps) hs = Some h"
  shows "\<exists>ps'. process_inbound_udp io buf offer server ps = Inr (ps', [(server, get_msg h)]) \<and> length h = 20 \<and>
    ps_recv ps' = fst (init_recv_buffer (io_content io) (master_offset ms h) node (ps_recv ps)) \<and>
    snd (init_recv_buffer (io_content io) (master_offset ms h) node (ps_recv ps)) = 1 \<and>
    peer_ok ms ps' \<and> ps_config ps' = ps_config ps \<and> ps_written ps' = ps_written ps \<and> fm_init (ps_fm ps') \<and>
    (\<forall>offs. manager_ready offs (ps_fm ps) \<longrightarrow> manager_ready offs (ps_fm ps'))"
proof -
  let ?p = "build_packet_from_buf (recvfrom_into buf offer)" and ?off = "master_offset ms h"
  have p: "packet_type (header ?p) = 1" "packet_count ?p = Inr (int (length hs))"
      "\<forall>i < length hs. packet_hash ?p i = Inr (hs ! i)"
    using offer(1) buf unfolding offers_def by (simp_all add: from_wire_swap)
  have hs: "\<forall>h \<in> set hs. length h = 20"
    using p(3) length_packet_hash by (metis in_set_conv_nth)
  obtain nd where nd: "List.find (\<lambda>m. peer_id m = node) (peers (ps_config ps)) = Some nd"
    using node_of_addr_known [of server "peers (ps_config ps)"] node by auto
  obtain path where m: "io_fs io (chunk_file (ps_config ps)) = Some (master_text path ms)" "path_ok path"
      "\<forall>m \<in> set ms. length (snd m) = 20"
    using world_master [OF w] by metis
  obtain offs where offs: "manager_ready offs (ps_fm ps)"
    using ok offer(2) by (auto simp: peer_ok_def manager_ok_def)
  have io: "io_slack io \<noteq> []" "length (io_content io) = 1500" "silent (io_tracker io)"
    using w by (simp_all add: world_ok_def)
  let ?ps = "download_started io ?off nd node ps"
  have "ihave_loop io node (pkt_swap ?p) (length hs) 0 ps [] = Inr (?ps, [get_pkt h])"
    using ihave_loop_result [OF m io(1) nd offs, of hs "pkt_swap ?p" 0] p(3) offer(3,4) manager_readyD [OF offs]
    by (simp add: from_wire_swap)
  then have handled: "handle_packet io ?p node ps = Inr (?ps, [get_pkt h])"
    using p(1,2) by (simp add: handle_packet_def handle_ihave_def Let_def from_wire_swap)
  have h: "h \<in> set hs" "\<not> busy_with node ?off ps" using offer(4) by (auto dest: find_Some_in_set)
  then have h20: "length h = 20" using hs by blast
  then have "good_response (get_pkt h)" unfolding get_pkt_def by (intro plain_response_good) simp_all
  then have good: "\<forall>p \<in> set [get_pkt h]. good_response p" by simp
  obtain trk where "process_inbound_udp io buf offer server ps = Inr (?ps\<lparr>ps_tracker := trk\<rparr>, [(server, get_msg h)])"
      "peer_ok ms (?ps\<lparr>ps_tracker := trk\<rparr>)"
    using inbound_sends [OF node handled download_started_ok [OF ok io(2)] good io(3)] get_pkt_sent [OF h20] by auto
  moreover have "init_recv_buffer (io_content io) ?off node (ps_recv ps) =
      (fresh_buffer (io_content io) ?off node # ps_recv ps, 1)"
    using h(2) by (auto simp: init_recv_buffer_def busy_with_def)
  moreover have "manager_ready offs (ps_fm ?ps)" if "manager_ready offs (ps_fm ps)" for offs
    using that by (auto simp: download_started_def Let_def manager_ready_def)
  ultimately show ?thesis using h20 offer(2) by (simp add: download_started_def Let_def)
qed

text \<open>An offer of chunks that are all being fetched already, or unknown, is passed over.\<close>

lemma offer_passed:
  assumes ok: "peer_ok ms ps" and w: "world_ok ms (ps_config ps) io" and buf: "length buf = 1500"
    and node: "node_of_addr server (peers (ps_config ps)) = node" "node \<noteq> -1"
    and offer: "offers offer hs" "fm_init (ps_fm ps)"
      "\<forall>h \<in> set hs. master_offset ms h = -1 \<or> master_offset ms h \<in> set (offsets_of (ps_fm ps))"
      "List.find (\<lambda>h. master_offset ms h \<noteq> -1 \<and> \<not> busy_with node (master_offset ms h) ps) hs = None"
  shows "process_inbound_udp io buf offer server ps = Inr (ps, [])"
proof -
  let ?p = "build_packet_from_buf (recvfrom_into buf offer)"
  have p: "packet_type (header ?p) = 1" "packet_count ?p = Inr (int (length hs))"
      "\<forall>i < length hs. packet_hash ?p i = Inr (hs ! i)"
    using offer(1) buf unfolding offers_def by (simp_all add: from_wire_swap)
  obtain nd where nd: "List.find (\<lambda>m. peer_id m = node) (peers (ps_config ps)) = Some nd"
    using node_of_addr_known [of server "peers (ps_config ps)"] node by auto
  obtain path where m: "io_fs io (chunk_file (ps_config ps)) = Some (master_text path ms)" "path_ok path"
      "\<forall>m \<in> set ms. length (snd m) = 20"
    using world_master [OF w] by metis
  obtain offs where offs: "manager_ready offs (ps_fm ps)"
    using ok offer(2) by (auto simp: peer_ok_def manager_ok_def)
  have io: "io_slack io \<noteq> []" "silent (io_tracker io)" using w by (simp_all add: world_ok_def)
  have "ihave_loop io node (pkt_swap ?p) (length hs) 0 ps [] = Inr (ps, [])"
    using ihave_loop_result [OF m io(1) nd offs, of hs "pkt_swap ?p" 0] p(3) offer(3,4) manager_readyD [OF offs]
    by (simp add: from_wire_swap)
  then have "handle_packet io ?p node ps = Inr (ps, [])"
    using p(1,2) by (simp add: handle_packet_def handle_ihave_def Let_def from_wire_swap)
  from inbound_sends [OF node this ok _ io(2)] show ?thesis by auto
qed

section \<open>The server starts to send\<close>

lemma first_packet_sent:
  assumes "length F = 524288"
  shows "\<exists>S'. send_data node (init_datalist p c node off (Some F) S) = Inr (S', [data_pkt F 0])"
proof -
  obtain d where "send_session (fresh_session p c node off F) = Inr (d, [data_pkt F 0])"
    using fresh_session_send [OF assms] by blast
  then show ?thesis
    unfolding init_datalist_push by (simp add: send_data_def snd.lookup_push fresh_session_wf)
qed

text \<open>
  \<open>chunk_of io config ms h F\<close>: the master files hold the bytes \<open>F\<close> as the chunk with hash \<open>h\<close>, the first one with it.
\<close>

definition chunk_of ::
  "io \<Rightarrow> bt_config_t \<Rightarrow> (nat \<times> byte list) list \<Rightarrow> byte list \<Rightarrow> byte list \<Rightarrow> bool" where
  "chunk_of io config ms h F \<longleftrightarrow> length F = 524288 \<and> (\<exists>path content i.
     io_fs io (chunk_file config) = Some (master_text path ms) \<and> io_fs io path = Some content \<and>
     List.find (\<lambda>m. snd m = h) ms = Some (i, h) \<and> F = take 524288 (drop (524288 * i) content))"

lemma chunk_of_length: "chunk_of io config ms h F \<Longrightarrow> length F = 524288"
  by (simp add: chunk_of_def)

lemma master_text_path: "master_text p ms = master_text q ms \<longleftrightarrow> p = q"
  by (auto simp: master_text_def)

lemma chunk_of_unique:
  "chunk_of io1 config ms h F \<Longrightarrow> chunk_of io2 config ms h G \<Longrightarrow> io_fs io1 = io_fs io2 \<Longrightarrow> F = G"
  by (auto simp: chunk_of_def master_text_path)

lemma get_answered:
  assumes ok: "peer_ok ms ps" and w: "world_ok ms (ps_config ps) io" and buf: "length buf = 1500"
    and node: "node_of_addr client (peers (ps_config ps)) = node" "node \<noteq> -1"
    and h: "length h = 20" "h \<in> snd ` set ms"
  shows "\<exists>ps' F. process_inbound_udp io buf (get_msg h) client ps = Inr (ps', [(client, data_msg F 0)]) \<and>
    chunk_of io (ps_config ps) ms h F \<and>
    send_data node (init_datalist (io_prev_ack io) (io_count_ack io) node (master_offset ms h) (Some F) (ps_sender ps)) =
      Inr (ps_sender ps', [data_pkt F 0]) \<and>
    peer_ok ms ps' \<and> ps_config ps' = ps_config ps \<and> ps_tracker ps' = track_all io node client [data_pkt F 0] (ps_tracker ps)"
proof -
  let ?p = "build_packet_from_buf (recvfrom_into buf (get_msg h))"
  have p: "packet_type (header ?p) = 2" "take 20 (data ?p) = h" "length (data ?p) = 1484"
    using get_msg_read [OF h(1) buf] data_of_datagram [OF buf] by (simp_all add: from_wire_swap)
  have io: "io_slack io \<noteq> []" "length (io_data io) = 524288" "silent (io_tracker io)"
    using w by (simp_all add: world_ok_def)
  obtain path content where m: "io_fs io (chunk_file (ps_config ps)) = Some (master_text path ms)" "path_ok path"
      "io_fs io path = Some content" "ms \<noteq> []" "\<forall>m \<in> set ms. length (snd m) = 20"
      "\<forall>m \<in> set ms. length (snd m) = 20 \<and> fst m < 4096 \<and> 524288 * (fst m + 1) \<le> length content"
    using world_master [OF w] by metis
  obtain i where i: "get_data_from_hash (io_slack io) (io_index io) (io_data io) (io_fs io)
        (chunk_file (ps_config ps)) h = Inr (Some (take 524288 (drop (524288 * i) content)))"
      "fst (match_spec h ms (io_index io)) = int i" "(i, h) \<in> set ms"
    using data_of_hash_entry [OF m(1-3,6) io(1) m(4) io(2), of "io_index io" h] h(2) by auto
  let ?F = "take 524288 (drop (524288 * i) content)"
  have F: "length ?F = 524288" using m(6) i(3) by fastforce
  then have chunk: "chunk_of io (ps_config ps) ms h ?F"
    using m(1,3) match_spec_first [OF i(2) h(2)] unfolding chunk_of_def by blast
  obtain S' where S': "send_data node (init_datalist (io_prev_ack io) (io_count_ack io) node (master_offset ms h)
      (Some ?F) (ps_sender ps)) = Inr (S', [data_pkt ?F 0])"
    using first_packet_sent [OF F] by blast
  have "get_off_set_from_master_chunkfile (io_slack io) (io_fs io) (chunk_file (ps_config ps)) h =
      Inr (master_offset ms h)"
    using master_offset_text [of "io_fs io", OF m(1,2,5) io(1)] by (simp add: master_offset_def)
  then have handled: "handle_packet io ?p node ps = Inr (ps\<lparr>ps_sender := S'\<rparr>, [data_pkt ?F 0])"
    using p i(1) S' by (simp add: handle_packet_def handle_get_def Let_def from_wire_swap)
  have "sessions_ok (ps_sender ps)" using ok by (simp add: peer_ok_def)
  from get_session_safe [OF this F, of node "io_prev_ack io" "io_count_ack io" "master_offset ms h"]
  have "sessions_ok S'" using S' by simp
  then have ok': "peer_ok ms (ps\<lparr>ps_sender := S'\<rparr>)" using ok by (simp add: peer_ok_def)
  have good: "\<forall>p \<in> set [data_pkt ?F 0]. good_response p" using data_pkt_good [OF F] by simp
  from inbound_sends [OF node handled ok' good io(3)] to_wire_data_pkt [OF F, of 0]
  obtain trk where "process_inbound_udp io buf (get_msg h) client ps =
      Inr (ps\<lparr>ps_sender := S'\<rparr>\<lparr>ps_tracker := trk\<rparr>, [(client, data_msg ?F 0)])"
      "peer_ok ms (ps\<lparr>ps_sender := S'\<rparr>\<lparr>ps_tracker := trk\<rparr>)" "trk = track_all io node client [data_pkt ?F 0] (ps_tracker ps)"
    by auto
  then show ?thesis using chunk S' by (intro exI conjI) (assumption | simp)+
qed

section \<open>The handshake\<close>

text \<open>
  How a download begins: a request that the server can serve, the offer it is answered with and the
  GET that the client sends for it lead both peers, through \<^verbatim>\<open>process_inbound_udp\<close>, into the state in which
  the model of a chunk transfer starts, with the first DATA packet of the chunk from the server's master
  file on its way.
\<close>

theorem handshake_starts_transfer:
  assumes "peer_ok ms S" and "world_ok ms (ps_config S) io1" and "world_ok ms (ps_config S) io3"
    and "peer_ok ms C" and "world_ok ms (ps_config C) io2"
    and "node_of_addr client (peers (ps_config S)) = cnode" and "cnode \<noteq> -1"
    and "node_of_addr server (peers (ps_config C)) = snode" and "snode \<noteq> -1"
    and "length buf1 = 1500" and "length buf2 = 1500" and "length buf3 = 1500"
    and "reads_request req hs" and "length hs < 60"
    and "io_fs io1 (has_chunk_file (ps_config S)) = Some (chunk_text es)"
    and "\<forall>e \<in> set es. length (snd e) = 20" and "length es \<le> 4" and "fm_init (ps_fm C)"
    and "\<forall>h \<in> set (local_chunks es hs). master_offset ms h = -1 \<or> master_offset ms h \<in> set (offsets_of (ps_fm C))"
    and "List.find (\<lambda>h. master_offset ms h \<noteq> -1 \<and> \<not> busy_with snode (master_offset ms h) C) (local_chunks es hs) = Some h"
  shows "\<exists>offer C' S' F st.
    process_inbound_udp io1 buf1 req client S = Inr (S, [(client, offer)]) \<and>
    process_inbound_udp io2 buf2 offer server C = Inr (C', [(server, get_msg h)]) \<and>
    process_inbound_udp io3 buf3 (get_msg h) client S = Inr (S', [(client, data_msg F 0)]) \<and>
    chunk_of io3 (ps_config S) ms h F \<and>
    transfer_sane F (io_content io2) (master_offset ms h) snode (ps_sender S, ps_tracker S) (ps_recv C) \<and>
    transfer_start (io_prev_ack io3) (io_count_ack io3) (io_content io2) cnode snode (master_offset ms h) F
      (ps_sender S, ps_tracker S) (ps_recv C) = Inr st \<and>
    fst (sndr st) = ps_sender S' \<and> rcvr st = ps_recv C' \<and> data_net st = {data_msg F 0}"
proof -
  have "h \<in> set (local_chunks es hs)" "master_offset ms h \<noteq> -1"
    using assms(20) by (auto dest: find_Some_in_set)
  then have ne: "local_chunks es hs \<noteq> []" and known: "h \<in> snd ` set ms"
    by (auto simp: master_offset_def split: option.splits dest: find_Some_in_set)
  obtain offer where o: "process_inbound_udp io1 buf1 req client S = Inr (S, [(client, offer)])"
      "offers offer (local_chunks es hs)"
    using request_offered [OF assms(1,2,10,6,7,13-17) ne] by blast
  obtain C' where c: "process_inbound_udp io2 buf2 offer server C = Inr (C', [(server, get_msg h)])" "length h = 20"
      "ps_recv C' = fst (init_recv_buffer (io_content io2) (master_offset ms h) snode (ps_recv C))"
      "snd (init_recv_buffer (io_content io2) (master_offset ms h) snode (ps_recv C)) = 1"
    using offer_taken [OF assms(4,5,11,8,9) o(2) assms(18-20)] by blast
  obtain S' F where s: "process_inbound_udp io3 buf3 (get_msg h) client S = Inr (S', [(client, data_msg F 0)])"
      "chunk_of io3 (ps_config S) ms h F"
      "send_data cnode (init_datalist (io_prev_ack io3) (io_count_ack io3) cnode (master_offset ms h) (Some F) (ps_sender S)) =
        Inr (ps_sender S', [data_pkt F 0])"
    using get_answered [OF assms(1,3,12,6,7) c(2) known] by blast
  have F: "length F = 524288" using s(2) by (simp add: chunk_of_def)
  let ?st = "\<lparr>sndr = (ps_sender S', ps_tracker S), rcvr = ps_recv C', data_net = {data_msg F 0}, ack_net = {}\<rparr>"
  have "transfer_start (io_prev_ack io3) (io_count_ack io3) (io_content io2) cnode snode (master_offset ms h) F
      (ps_sender S, ps_tracker S) (ps_recv C) = Inr ?st"
    using s(3) c(3) to_wire_data_pkt [OF F, of 0] by (simp add: transfer_start_def)
  moreover have "transfer_sane F (io_content io2) (master_offset ms h) snode (ps_sender S, ps_tracker S) (ps_recv C)"
    using F c(4) assms(1,5) by (simp add: transfer_sane_def world_ok_def peer_ok_def tracker_sane_def)
  ultimately show ?thesis using o(1) c(1) s(1,2) by (intro exI conjI) (assumption | simp)+
qed

lemma one_chunk_ok: "peer_ok [(0, replicate 20 1)] (example_peer [] (one_chunk 0))"
proof -
  have "manager_ready [0] (one_chunk 0)"
    by (simp add: manager_ready_def one_chunk_def manager_offsets_def)
  then have "manager_ok [(0, replicate 20 1)] (one_chunk 0)"
    unfolding manager_ok_def by (auto simp: master_hash_def intro!: exI [of _ "[0]"])
  then show ?thesis using initial_peer_ok by (simp add: peer_ok_def example_peer_def)
qed

theorem handshake_starts_transfer_witness:
  "\<exists>req offer C' S' F. length F = 524288 \<and>
    process_inbound_udp example_world (replicate 1500 0) req (peer_addr (hd (peers example_config)))
      (example_peer [] initial_manager) =
      Inr (example_peer [] initial_manager, [(peer_addr (hd (peers example_config)), offer)]) \<and>
    process_inbound_udp example_world (replicate 1500 0) offer (peer_addr (hd (peers example_config)))
      (example_peer [] (one_chunk 0)) = Inr (C', [(peer_addr (hd (peers example_config)), get_msg (replicate 20 1))]) \<and>
    process_inbound_udp example_world (replicate 1500 0) (get_msg (replicate 20 1)) (peer_addr (hd (peers example_config)))
      (example_peer [] initial_manager) = Inr (S', [(peer_addr (hd (peers example_config)), data_msg F 0)])"
proof -
  let ?h = "replicate 20 1 :: byte list" and ?a = "peer_addr (hd (peers example_config))"
    and ?S = "example_peer [] initial_manager" and ?C = "example_peer [] (one_chunk 0)"
    and ?ms = "[(0, replicate 20 1)] :: (nat \<times> byte list) list"
  have cfg: "ps_config ?S = example_config" "ps_config ?C = example_config" by (simp_all add: example_peer_def)
  have w: "world_ok ?ms example_config example_world"
    using example_world_ok [of "[111]"] by (simp add: example_config_def)
  have n: "node_of_addr ?a (peers example_config) = 7" by (simp add: node_of_addr_def example_config_def)
  obtain p where "asks_for p [?h]"
    using init_packet_asks [of "[0]" "[]" "[?h]" ?h] by (auto simp: c_string_def)
  then obtain req where req: "reads_request req [?h]" using asks_for_sent [of p "[?h]"] by auto
  have has: "io_fs example_world (has_chunk_file example_config) = Some (chunk_text ?ms)"
    by (simp add: example_world_def example_io_def example_config_def)
  have l: "local_chunks ?ms [?h] = [?h]" by (simp add: local_chunks_def)
  have off: "master_offset ?ms ?h = 0" by (simp add: master_offset_def)
  have fm: "fm_init (ps_fm ?C)" "offsets_of (ps_fm ?C) = [0]"
    by (simp_all add: example_peer_def one_chunk_def offsets_of_def manager_offsets_def)
  have "\<not> busy_with 7 0 ?C" by (simp add: busy_with_def example_peer_def)
  then have f: "List.find (\<lambda>h. master_offset ?ms h \<noteq> -1 \<and> \<not> busy_with 7 (master_offset ?ms h) ?C) (local_chunks ?ms [?h]) = Some ?h"
    unfolding l by (simp only: List.find.simps off) simp
  have p: "(7 :: int) \<noteq> -1" "length (replicate 1500 (0 :: byte)) = 1500" "length [?h] < 60"
      "\<forall>e \<in> set ?ms. length (snd e) = 20" "length ?ms \<le> 4"
    by simp_all
  have "\<forall>h \<in> set (local_chunks ?ms [?h]). master_offset ?ms h = -1 \<or> master_offset ?ms h \<in> set (offsets_of (ps_fm ?C))"
    unfolding l fm(2) using off by simp
  from handshake_starts_transfer [of ?ms ?S example_world example_world ?C example_world ?a 7 ?a 7
      "replicate 1500 0" "replicate 1500 0" "replicate 1500 0" req "[?h]" ?ms ?h, unfolded cfg,
      OF initial_peer_ok w w one_chunk_ok w n p(1) n p(1,2,2,2) req p(3) has p(4,5) fm(1) this f]
  obtain offer C' S' F where r: "process_inbound_udp example_world (replicate 1500 0) req ?a ?S = Inr (?S, [(?a, offer)])"
      "process_inbound_udp example_world (replicate 1500 0) offer ?a ?C = Inr (C', [(?a, get_msg ?h)])"
      "process_inbound_udp example_world (replicate 1500 0) (get_msg ?h) ?a ?S = Inr (S', [(?a, data_msg F 0)])"
      "chunk_of example_world example_config ?ms ?h F"
    by (elim exE conjE) (rule that)
  show ?thesis
    by (rule exI [of _ req], rule exI [of _ offer], rule exI [of _ C'], rule exI [of _ S'], rule exI [of _ F])
       (intro conjI r chunk_of_length [OF r(4)])
qed

end
