(* ===== verification/Download.thy ===== *)
theory Download
  imports Handshake
begin

text \<open>
  Two complete peers and the datagrams between them. The server and the client of a chunk take steps of
  the program: \<^verbatim>\<open>process_inbound_udp\<close> on a datagram that is under way, in any order, repeatedly or never,
  and \<^verbatim>\<open>check_timeouts\<close> of the server. From the state after the handshake, for a download of one chunk,
  the only file ever written holds exactly the bytes of the chunk, and there is a run that writes it.
  New commands at the console and the client's repetition of its request for a stalled chunk are no steps of
  this model; \<open>PeerLoop\<close> shows that they are safe.

  The invariant is the one of the interface \<open>chunk_transfer\<close> (theory \<open>ChunkTransfer\<close>), on the senders'
  list, the timers and the buffers of the two peers.
\<close>

section \<open>Server, client and the network between them\<close>

record network =
  nw_server :: peer_st
  nw_client :: peer_st
  nw_data :: "byte list set"
  nw_acks :: "byte list set"

definition sent_to :: "sockaddr_in \<Rightarrow> sent \<Rightarrow> byte list set" where
  "sent_to a out = {m. (a, m) \<in> set out}"

text \<open>
  A DATA packet is delivered only while the download is active: afterwards the code would use memory
  that it has freed.
\<close>

inductive net_step ::
  "(nat \<times> byte list) list \<Rightarrow> sockaddr_in \<Rightarrow> sockaddr_in \<Rightarrow> network \<Rightarrow> network \<Rightarrow> bool"
  for ms server client where
  data_arrives: "world_ok ms (ps_config (nw_client n)) io \<Longrightarrow> length buf = 1500 \<Longrightarrow> m \<in> nw_data n \<Longrightarrow>
    fm_init (ps_fm (nw_client n)) \<Longrightarrow> process_inbound_udp io buf m server (nw_client n) = Inr (C, out) \<Longrightarrow>
    net_step ms server client n (n\<lparr>nw_client := C, nw_acks := nw_acks n \<union> sent_to server out\<rparr>)"
| ack_arrives: "world_ok ms (ps_config (nw_server n)) io \<Longrightarrow> length buf = 1500 \<Longrightarrow> m \<in> nw_acks n \<Longrightarrow>
    process_inbound_udp io buf m client (nw_server n) = Inr (S, out) \<Longrightarrow>
    net_step ms server client n (n\<lparr>nw_server := S, nw_data := nw_data n \<union> sent_to client out\<rparr>)"
| timers_expire: "check_timeouts io (nw_server n) = Inr (S, out) \<Longrightarrow>
    net_step ms server client n (n\<lparr>nw_server := S, nw_data := nw_data n \<union> sent_to client out\<rparr>)"

inductive_cases net_stepE: "net_step ms server client n n'"

abbreviation net_reach where
  "net_reach ms server client \<equiv> (net_step ms server client)\<^sup>*\<^sup>*"

lemma sent_to_map [simp]: "sent_to a (map (Pair a) msgs) = set msgs"
  by (auto simp: sent_to_def)

section \<open>Timers of the server\<close>

text \<open>\<open>timed a net trk\<close>: what the timers would send to \<open>a\<close> is under way already.\<close>

definition resends_in :: "sockaddr_in \<Rightarrow> byte list set \<Rightarrow> packet_tracker_t \<Rightarrow> bool" where
  "resends_in a net t \<longleftrightarrow> tr_seq t = -441 \<or> tr_from t \<noteq> a \<or> (\<exists>m \<in> net. sendto_bytes (tr_packet t) = Inr m)"

definition timed :: "sockaddr_in \<Rightarrow> byte list set \<Rightarrow> packet_tracker_t list \<Rightarrow> bool" where
  "timed a net trk \<longleftrightarrow> (\<forall>t \<in> set trk. resends_in a net t)"

lemma resends_in_frame [simp]: "resends_in a net (t\<lparr>tr_send_time := s\<rparr>) = resends_in a net t"
  by (simp add: resends_in_def)

lemma resends_in_mono: "resends_in a net t \<Longrightarrow> net \<subseteq> net' \<Longrightarrow> resends_in a net' t"
  by (auto simp: resends_in_def)

lemma timed_mono: "timed a net trk \<Longrightarrow> net \<subseteq> net' \<Longrightarrow> set trk' \<subseteq> set trk \<Longrightarrow> timed a net' trk'"
  unfolding timed_def using resends_in_mono by blast

lemma restart_timer_timed: "restart_timer ts q now = Some ts' \<Longrightarrow> timed a net ts \<Longrightarrow> timed a net ts'"
  by (induction ts arbitrary: ts') (auto simp: timed_def split: if_splits)

lemma tracked_timed:
  assumes "timed a net trk" "to_wire p = Inr m" "m \<in> net"
  shows "timed a net (tracked io target from p trk)"
proof -
  let ?new = "(new_tracker p target from (io_now io))\<lparr>tr_packet := seq_ack_swap p\<rparr>"
  have new: "resends_in a net ?new" using assms(2,3) by (auto simp: resends_in_def to_wire_def)
  show ?thesis
  proof (cases "packet_type (header p) = 3 \<and> trk \<noteq> []")
    case False
    then show ?thesis using assms(1) new
      by (auto simp: tracked_def share_packet_def create_timer_def timed_def resends_in_def)
  next
    case True
    show ?thesis
    proof (cases "restart_timer trk (seq_num (header p)) (io_now io)")
      case None
      then show ?thesis using True assms(1) new
        by (simp add: tracked_def share_packet_def create_timer_def timed_def)
    next
      case (Some us)
      then show ?thesis using True assms(1) restart_timer_packets [OF Some] restart_timer_timed [OF Some]
        by (simp add: tracked_def share_packet_def create_timer_def)
    qed
  qed
qed

lemma track_all_timed:
  "timed a net trk \<Longrightarrow> all_to_wire ps = Inr ms \<Longrightarrow> set ms \<subseteq> net \<Longrightarrow>
     timed a net (track_all io target from ps trk)"
  by (induction ps arbitrary: trk ms) (auto simp: res_simps tracked_timed)

lemma after_timeout_timed: "timed a net trk \<Longrightarrow> timed a net (map (after_timeout now) trk)"
  by (auto simp: timed_def resends_in_def after_timeout_def Let_def)

lemma resent_known:
  assumes "list_all2 resends ts outs" "\<forall>t \<in> set ts. tr_seq t \<noteq> -441 \<and> resends_in a net t"
  shows "sent_to a outs \<subseteq> net"
  using assms
  by (induction rule: list_all2_induct) (auto simp: sent_to_def resends_def resends_in_def)

text \<open>An acknowledgement only removes timers.\<close>

lemma unlink_first_subset: "set (fst (unlink_first ts sock q)) \<subseteq> set ts"
  by (induction ts) (auto split: prod.splits if_splits)

lemma remove_subset:
  assumes "remove_from_tracker trk sock q = Inr (trk', r)" shows "set trk' \<subseteq> set trk"
  using assms unlink_first_subset [of "tl trk" sock q]
  by (cases trk) (auto simp: remove_from_tracker_def split: prod.splits if_splits)

lemma ack_loop_subset:
  "ack_loop node d trk i ack = Inr (d', trk', c) \<Longrightarrow> set trk' \<subseteq> set trk"
proof (induction "nat (ack + 1 - i)" arbitrary: d trk i)
  case 0
  then have "\<not> (i \<le> ack \<and> i < int CHUNK_PACKET_NUMBER)" by simp
  with 0 show ?case by (subst (asm) ack_loop.simps) (simp only: if_False, simp)
next
  case (Suc n)
  note IH = Suc.hyps(1) [of "i + 1"]
  have n: "n = nat (ack + 1 - (i + 1))" using Suc.hyps(2) by simp
  show ?case
  proof (cases "i \<le> ack \<and> i < int CHUNK_PACKET_NUMBER")
    case False
    with Suc.prems show ?thesis by (subst (asm) ack_loop.simps) (simp only: if_False, simp)
  next
    case True
    then have "(\<exists>t r d2. remove_from_tracker trk node i = Inr (t, r) \<and> ack_loop node d2 t (i + 1) ack = Inr (d', trk', c)) \<or>
        ack_loop node d trk (i + 1) ack = Inr (d', trk', c) \<or> trk' = trk"
      using Suc.prems
      by (subst (asm) ack_loop.simps) (auto simp: res_simps split: if_splits)
    then show ?thesis using IH [OF n] remove_subset by (metis order_refl order_trans)
  qed
qed

lemma handle_ack_subset:
  assumes "handle_ack node ack trk S = Inr (S', trk', ps)" shows "set trk' \<subseteq> set trk"
proof (cases "session node S")
  case None
  with assms show ?thesis by (simp add: handle_ack_def)
next
  case (Some d)
  show ?thesis
  proof (cases "ack > 512")
    case True
    with Some assms show ?thesis by (simp add: handle_ack_def layout_simps)
  next
    case False
    obtain d1 dup where c: "check_return_ack d ack = (d1, dup)" by fastforce
    show ?thesis
    proof (cases dup)
      case True
      with assms Some False c show ?thesis by (auto simp: handle_ack_def layout_simps res_simps split: if_splits)
    next
      case new: False
      obtain d2 t2 cpl where l: "ack_loop node d1 trk (d_start d1 + 1) ack = Inr (d2, t2, cpl)"
        using assms Some False c new by (auto simp: handle_ack_def layout_simps res_simps)
      then have "trk' = t2"
        using assms Some False c new
        by (auto simp: handle_ack_def layout_simps res_simps split: if_splits prod.splits)
      then show ?thesis using ack_loop_subset [OF l] by simp
    qed
  qed
qed

section \<open>A step of the server\<close>

lemma server_acks:
  assumes ok: "peer_ok ms S" and w: "world_ok ms (ps_config S) io" and buf: "length buf = 1500"
    and node: "node_of_addr client (peers (ps_config S)) = node" "node \<noteq> -1" and a: "1 \<le> a" "a \<le> 1024"
    and net: "timed client net (ps_tracker S)"
  shows "\<exists>S' trk msgs. process_inbound_udp io buf (ack_msg a) client S = Inr (S', map (Pair client) (rev msgs)) \<and>
    peer_ok ms S' \<and> ps_config S' = ps_config S \<and>
    ack_datagram node \<lparr>env_buf = buf, env_beyond = io_beyond io\<rparr> (ack_msg a) (ps_sender S, ps_tracker S) =
      Inr ((ps_sender S', trk), msgs) \<and>
    tracker_ok (ps_tracker S') \<and> timed client (net \<union> set msgs) (ps_tracker S')"
proof -
  let ?p = "build_packet_from_buf (recvfrom_into buf (ack_msg a))"
  have f: "pkt_swap ?p = \<lparr>header = host_header 4 16 0 (word_of_int a), data = drop 16 buf\<rparr>"
    using from_wire_ack_msg [OF buf] by (simp add: from_wire_swap)
  have num: "sint (word_of_int a - 1 :: 32 word) = a - 1"
    using a sint_small [of "a - 1"] by simp
  have t: "packet_type (header ?p) = 4" using f from_wire_swap(2) [of ?p] by (simp add: host_header_def)
  have "acceptable ms S node (pkt_swap ?p)"
    using num a by (simp add: f acceptable_def host_header_def)
  then obtain S' trk' resp where h: "handle_packet io ?p node S = Inr (S\<lparr>ps_sender := S', ps_tracker := trk'\<rparr>, resp)"
      "handle_ack node (sint (ack_num (header (pkt_swap ?p)) - 1)) (ps_tracker S) (ps_sender S) = Inr (S', trk', resp)"
      "peer_ok ms (S\<lparr>ps_sender := S', ps_tracker := trk'\<rparr>)" "\<forall>p \<in> set resp. good_response p"
    using ack_branch [OF ok t] by blast
  have silent: "silent (io_tracker io)" using w by (simp add: world_ok_def)
  obtain trk msgs where s: "process_inbound_udp io buf (ack_msg a) client S =
        Inr (S\<lparr>ps_sender := S', ps_tracker := trk'\<rparr>\<lparr>ps_tracker := trk\<rparr>, map (Pair client) (rev msgs))"
      "peer_ok ms (S\<lparr>ps_sender := S', ps_tracker := trk'\<rparr>\<lparr>ps_tracker := trk\<rparr>)" "all_to_wire resp = Inr msgs"
      "trk = track_all io node client (rev resp) trk'"
    using inbound_sends [OF node h(1,3,4) silent] by auto
  have "ack_datagram node \<lparr>env_buf = buf, env_beyond = io_beyond io\<rparr> (ack_msg a) (ps_sender S, ps_tracker S) =
      Inr ((S', trk'), msgs)"
    using h(2) s(3) f by (simp add: ack_datagram_def from_wire_swap host_header_def)
  moreover have "timed client (net \<union> set msgs) trk"
    unfolding s(4)
  proof (rule track_all_timed)
    show "timed client (net \<union> set msgs) trk'"
      using timed_mono [OF net _ handle_ack_subset [OF h(2)]] by simp
    show "all_to_wire (rev resp) = Inr (rev msgs)" by (rule all_to_wire_rev [OF s(3)])
  qed simp
  moreover have "tracker_ok trk" using s(2) by (simp add: peer_ok_def tracker_sane_def)
  ultimately show ?thesis using s(1,2) by (intro exI conjI) (assumption | simp)+
qed

lemma losses_keep_serving:
  "serving node F (S, trk) \<Longrightarrow> serving node F ((process_packet_loss k ^^ n) S, trk) \<and>
     acked_by node ((process_packet_loss k ^^ n) S, trk) = acked_by node (S, trk)"
proof (induction n)
  case (Suc n)
  then show ?case
    using do_tick_ok [of node F "((process_packet_loss k ^^ n) S, trk)" "Packet_Loss k"] by simp
qed simp

lemma serving_tracker: "serving node F (S, trk) \<Longrightarrow> tracker_ok trk' \<Longrightarrow> serving node F (S, trk')"
  by (simp add: serving_def)

lemma acked_by_tracker: "acked_by node (S, trk') = acked_by node (S, trk)"
  by (simp add: acked_by_def)

lemma timeouts_sane:
  assumes ok: "peer_ok ms S" and net: "timed client net (ps_tracker S)" and t: "check_timeouts io S = Inr (S', out)"
  shows "peer_ok ms S' \<and> ps_config S' = ps_config S \<and> timed client net (ps_tracker S') \<and> sent_to client out \<subseteq> net \<and>
    (\<exists>n. ps_sender S' = (process_packet_loss 0 ^^ n) (ps_sender S)) \<and> tracker_ok (ps_tracker S')"
proof -
  have sane: "tracker_sane (ps_tracker S)" using ok by (simp add: peer_ok_def)
  let ?ex = "expired (io_now io) (ps_tracker S)" and ?trk = "map (after_timeout (io_now io)) (ps_tracker S)"
  let ?lost = "(process_packet_loss 0 ^^ length ?ex) (ps_sender S)"
  have r: "S' = S\<lparr>ps_tracker := ?trk, ps_sender := ?lost\<rparr>" "list_all2 resends ?ex out"
    using check_timeouts_result [OF sane, of io] t by auto
  have trk: "tracker_sane ?trk" by (rule after_timeout_sane [OF sane])
  have sessions: "sessions_ok ?lost" using ok losses_sessions [of "ps_sender S"] by (simp add: peer_ok_def)
  have S': "ps_sender S' = ?lost" "ps_tracker S' = ?trk" "ps_config S' = ps_config S" "ps_recv S' = ps_recv S"
      "ps_fm S' = ps_fm S"
    unfolding r(1) by simp_all
  have "sent_to client out \<subseteq> net"
    using resent_known [OF r(2)] net by (auto simp: expired_def timed_def)
  moreover have "peer_ok ms S'" using ok trk sessions unfolding peer_ok_def S' by blast
  moreover have "tracker_ok ?trk" using trk by (simp add: tracker_sane_def)
  ultimately show ?thesis using after_timeout_timed [OF net] unfolding S' by blast
qed

lemma server_times_out:
  assumes ok: "peer_ok ms S" and s: "serving node F (ps_sender S, ps_tracker S)"
    and net: "timed client net (ps_tracker S)" and t: "check_timeouts io S = Inr (S', out)"
  shows "peer_ok ms S' \<and> ps_config S' = ps_config S \<and> serving node F (ps_sender S', ps_tracker S') \<and>
    acked_by node (ps_sender S', ps_tracker S') = acked_by node (ps_sender S, ps_tracker S) \<and>
    timed client net (ps_tracker S') \<and> sent_to client out \<subseteq> net"
proof -
  note r = timeouts_sane [OF ok net t]
  then obtain n where n: "ps_sender S' = (process_packet_loss 0 ^^ n) (ps_sender S)" by blast
  note losses = losses_keep_serving [OF s, where k = 0 and n = n]
  have "serving node F (ps_sender S', ps_tracker S')"
    using serving_tracker [OF conjunct1 [OF losses]] r unfolding n by blast
  moreover have "acked_by node (ps_sender S', ps_tracker S') = acked_by node (ps_sender S, ps_tracker S)"
    using losses acked_by_tracker [of node "ps_sender S'" "ps_tracker S'" "ps_tracker S"] unfolding n by (simp only:)
  ultimately show ?thesis using r by blast
qed

section \<open>A step of the client\<close>

text \<open>
  The DATA branch around its call of \<^verbatim>\<open>check_file_manager\<close> (on the file manager \<open>fm\<close> and the buffers \<open>l\<close>):
  what the call returns is what the call of \<^verbatim>\<open>process_inbound_udp\<close> leaves.
\<close>

definition after_check ::
  "(nat \<times> byte list) list \<Rightarrow> io \<Rightarrow> byte list \<Rightarrow> byte list \<Rightarrow> sockaddr_in \<Rightarrow> peer_st \<Rightarrow> int \<Rightarrow> file_manager_t
     \<Rightarrow> recv_buffer_t list \<Rightarrow> bool" where
  "after_check ms io buf m server C a fm l \<longleftrightarrow>
     (\<forall>fm' l' written r. check_file_manager True fm l = Inr (fm', l', written, r) \<longrightarrow>
       (\<exists>C'. process_inbound_udp io buf m server C = Inr (C', [(server, ack_msg a)]) \<and>
         peer_ok ms C' \<and> ps_config C' = ps_config C \<and> ps_recv C' = l' \<and> ps_fm C' = fm' \<and>
         ps_written C' = (case written of None \<Rightarrow> ps_written C
           | Some out \<Rightarrow> (output_file (ps_config C), out) # ps_written C)))"

lemma after_checkD:
  assumes "after_check ms io buf m server C a fm l" "check_file_manager True fm l = Inr (fm', l', written, r)"
  obtains C' where "process_inbound_udp io buf m server C = Inr (C', [(server, ack_msg a)])"
    "peer_ok ms C'" "ps_config C' = ps_config C" "ps_recv C' = l'" "ps_fm C' = fm'"
    "ps_written C' = (case written of None \<Rightarrow> ps_written C | Some out \<Rightarrow> (output_file (ps_config C), out) # ps_written C)"
  using assms unfolding after_check_def by blast

lemma data_handled:
  assumes ok: "peer_ok ms C" and w: "world_ok ms (ps_config C) io" and buf: "length buf = 1500"
    and node: "node_of_addr server (peers (ps_config C)) = node" "node \<noteq> -1"
    and fetching: "fetching node off F (ps_recv C)" and k: "k < 512"
    and fm: "manager_ready offs (ps_fm C)" "fm_init (ps_fm C)" "off \<in> set offs"
  shows "\<exists>l a ts. recv_datagram node \<lparr>env_buf = buf, env_beyond = io_beyond io\<rparr> (data_msg F k) (ps_recv C) =
      Inr (l, [ack_msg a]) \<and>
    fetching node off F l \<and> manager_ready offs ((ps_fm C)\<lparr>fm_timer := Some ts\<rparr>) \<and>
    after_check ms io buf (data_msg F k) server C a ((ps_fm C)\<lparr>fm_timer := Some ts\<rparr>) l"
proof -
  let ?p = "build_packet_from_buf (recvfrom_into buf (data_msg F k))"
    and ?e = "\<lparr>env_buf = buf, env_beyond = io_beyond io\<rparr>"
  have F: "length F = 524288" using fetching by (simp add: fetching_def)
  have f: "pkt_swap ?p = \<lparr>header = host_header 3 1040 (word_of_int (int k + 1)) 0, data = chunk_slice F k @ drop 1040 buf\<rparr>"
    using from_wire_data_msg [OF F k buf] by (simp add: from_wire_swap)
  have t: "packet_type (header ?p) = 3" using f from_wire_swap(2) [of ?p] by (simp add: host_header_def)
  have len: "length (data ?p) = 1484" by (rule data_of_datagram [OF buf])
  have io: "readable (io_beyond io)" "io_fopen_ok io" "silent (io_tracker io)" using w by (simp_all add: world_ok_def)
  have e: "env_sane ?e" using buf io(1) by (simp add: env_sane_def)
  obtain b where b: "get_recv_by_socket node (ps_recv C) = Some b" "rb_offset b = off" "recv_wf F b"
    using fetching by (auto simp: fetching_def)
  note off = b(2)
  obtain b' where b': "recv_data (io_beyond io) (pkt_swap ?p) node (ps_recv C) =
        Inr (put_recv b' (ps_recv C), [ack_pkt (rb_expected b')], Some off)"
    using recv_data_ok [OF b(1,3) k carries_data_msg [OF F k buf] io(1)] off by (auto simp: from_wire_swap)
  let ?l = "put_recv b' (ps_recv C)" and ?a = "rb_expected b'"
  have recv: "recv_datagram node ?e (data_msg F k) (ps_recv C) = Inr (?l, [ack_msg ?a])"
    using b' f by (simp add: recv_datagram_def from_wire_swap host_header_def to_wire_ack_pkt)
  have l: "fetching node off F ?l" using recv_datagram_ok [OF fetching e k] recv by auto
  obtain ts where ts: "touch_timer off (io_now io) (ps_fm C) = Inr ((ps_fm C)\<lparr>fm_timer := Some ts\<rparr>)"
      "manager_ready offs ((ps_fm C)\<lparr>fm_timer := Some ts\<rparr>)"
    using touch_timer_ready [OF fm(1,3)] by auto
  let ?fm = "(ps_fm C)\<lparr>fm_timer := Some ts\<rparr>"
  have seq: "sint (word_of_int (int k + 1) :: 32 word) = int k + 1" using k by (intro sint_small) auto
  have accept: "acceptable ms C node (pkt_swap ?p)"
    using fm b(1) off manager_readyD [OF fm(1)] k seq
    by (simp add: f acceptable_def host_header_def payload_len_def)
  have "\<exists>C'. process_inbound_udp io buf (data_msg F k) server C = Inr (C', [(server, ack_msg ?a)]) \<and>
      peer_ok ms C' \<and> ps_config C' = ps_config C \<and> ps_recv C' = l' \<and> ps_fm C' = fm' \<and>
      ps_written C' = (case written of None \<Rightarrow> ps_written C | Some out \<Rightarrow> (output_file (ps_config C), out) # ps_written C)"
    if c: "check_file_manager True ?fm ?l = Inr (fm', l', written, r)" for fm' l' written r
  proof -
    let ?C = "C\<lparr>ps_recv := l', ps_fm := fm', ps_written :=
      (case written of None \<Rightarrow> ps_written C | Some out \<Rightarrow> (output_file (ps_config C), out) # ps_written C)\<rparr>"
    have handled: "handle_packet io ?p node C = Inr (?C, [ack_pkt ?a])"
      using t b' ts(1) c io(2) by (simp add: handle_packet_data handle_data_def)
    obtain C2 ack where "handle_packet io ?p node C = Inr (C2, [ack_pkt ack])" "peer_ok ms C2"
      using data_branch [OF ok w t len accept] by blast
    then have "peer_ok ms ?C" using handled by simp
    moreover have "\<forall>p \<in> set [ack_pkt ?a]. good_response p" using ack_pkt_good by simp
    ultimately obtain trk where "process_inbound_udp io buf (data_msg F k) server C =
          Inr (?C\<lparr>ps_tracker := trk\<rparr>, [(server, ack_msg ?a)])" "peer_ok ms (?C\<lparr>ps_tracker := trk\<rparr>)"
      using inbound_sends [OF node handled _ _ io(3)] to_wire_ack_pkt by auto
    then show ?thesis by (intro exI [of _ "?C\<lparr>ps_tracker := trk\<rparr>"]) simp
  qed
  then have "after_check ms io buf (data_msg F k) server C ?a ?fm ?l" unfolding after_check_def by blast
  with recv l ts(2) show ?thesis by blast
qed

lemma check_single_chunk:
  assumes "manager_ready [off] fm" "fm_init fm" "fetching node off F l" "leads node off l"
  shows "check_file_manager True fm l =
    (if is_buffer_full off l = 1 then Inr (closed_manager fm, release_buffer off l, Some F, 1)
     else Inr (fm, l, None, -1))"
proof -
  have o: "manager_offsets fm = Inr [off]" using assms(1) by (simp add: manager_ready_def)
  have held: "list_all2 (holds_chunk l) [off] [F]" using leads_holds [OF assms(4,3)] by simp
  show ?thesis
  proof (cases "is_buffer_full off l = 1")
    case True
    with check_file_manager_result [OF assms(2) o held]
    obtain l' where c: "check_file_manager True fm l = Inr (closed_manager fm, l', Some F, 1)" by auto
    then have "l' = release_buffer off l"
      using o assms(2) True by (auto simp: check_file_manager_def res_simps)
    with c True show ?thesis by simp
  next
    case False
    with o assms(2) show ?thesis by (simp add: check_file_manager_def)
  qed
qed

lemma client_stores:
  assumes ok: "peer_ok ms C" and w: "world_ok ms (ps_config C) io" and buf: "length buf = 1500"
    and node: "node_of_addr server (peers (ps_config C)) = node" "node \<noteq> -1"
    and fetching: "fetching node off F (ps_recv C)" "leads node off (ps_recv C)" and k: "k < 512"
    and fm: "manager_ready [off] (ps_fm C)" "fm_init (ps_fm C)"
  shows "\<exists>C' a l'. process_inbound_udp io buf (data_msg F k) server C = Inr (C', [(server, ack_msg a)]) \<and>
    peer_ok ms C' \<and> ps_config C' = ps_config C \<and>
    recv_datagram node \<lparr>env_buf = buf, env_beyond = io_beyond io\<rparr> (data_msg F k) (ps_recv C) = Inr (l', [ack_msg a]) \<and>
    (if is_buffer_full off l' = 1
     then ps_written C' = (output_file (ps_config C), F) # ps_written C \<and> \<not> fm_init (ps_fm C')
     else ps_recv C' = l' \<and> ps_written C' = ps_written C \<and> manager_ready [off] (ps_fm C') \<and> fm_init (ps_fm C'))"
proof -
  have off: "off \<in> set [off]" by simp
  obtain l a ts where r: "recv_datagram node \<lparr>env_buf = buf, env_beyond = io_beyond io\<rparr> (data_msg F k) (ps_recv C) =
        Inr (l, [ack_msg a])"
      "fetching node off F l" "manager_ready [off] ((ps_fm C)\<lparr>fm_timer := Some ts\<rparr>)"
      "after_check ms io buf (data_msg F k) server C a ((ps_fm C)\<lparr>fm_timer := Some ts\<rparr>) l"
    using data_handled [OF ok w buf node fetching(1) k fm off] by blast
  have lead: "leads node off l" using fetching(2) leads_keys [OF recv_datagram_keys [OF r(1)]] by blast
  let ?fm = "(ps_fm C)\<lparr>fm_timer := Some ts\<rparr>"
  have closed: "\<not> fm_init (closed_manager fm)" for fm by (simp add: closed_manager_def)
  have checked: "check_file_manager True ?fm l =
      (if is_buffer_full off l = 1 then Inr (closed_manager ?fm, release_buffer off l, Some F, 1)
       else Inr (?fm, l, None, -1))"
    using fm(2) by (intro check_single_chunk [OF r(3) _ r(2) lead]) simp
  show ?thesis
  proof (cases "is_buffer_full off l = 1")
    case True
    from after_checkD [OF r(4) checked [simplified True if_True simp_thms]] obtain C' where
      "process_inbound_udp io buf (data_msg F k) server C = Inr (C', [(server, ack_msg a)])" "peer_ok ms C'"
      "ps_config C' = ps_config C" "ps_fm C' = closed_manager ?fm"
      "ps_written C' = (output_file (ps_config C), F) # ps_written C"
      by auto
    with r(1) True closed show ?thesis by (intro exI [of _ C'] exI [of _ a] exI [of _ l]) simp
  next
    case False
    from after_checkD [OF r(4) checked [simplified False if_False simp_thms]] obtain C' where
      "process_inbound_udp io buf (data_msg F k) server C = Inr (C', [(server, ack_msg a)])" "peer_ok ms C'"
      "ps_config C' = ps_config C" "ps_recv C' = l" "ps_fm C' = ?fm" "ps_written C' = ps_written C"
      by auto
    with r(1,3) fm(2) False show ?thesis by (intro exI [of _ C'] exI [of _ a] exI [of _ l]) simp
  qed
qed

section \<open>The invariant of a download\<close>

text \<open>A download: the two peers as they know each other, the chunk and where it is written to.\<close>

record download =
  dl_master :: "(nat \<times> byte list) list"
  dl_server :: sockaddr_in
  dl_client :: sockaddr_in
  dl_server_id :: int
  dl_client_id :: int
  dl_offset :: int
  dl_chunk :: "byte list"
  dl_output :: "byte list"
  dl_before :: "(byte list \<times> byte list) list"

definition as_transfer :: "network \<Rightarrow> (sender_st \<times> packet_tracker_t list, recv_buffer_t list) sys" where
  "as_transfer n = \<lparr>sndr = (ps_sender (nw_server n), ps_tracker (nw_server n)), rcvr = ps_recv (nw_client n),
     data_net = nw_data n, ack_net = nw_acks n\<rparr>"

abbreviation transfer_inv :: "download \<Rightarrow> (sender_st \<times> packet_tracker_t list, recv_buffer_t list) sys \<Rightarrow> bool" where
  "transfer_inv dl \<equiv> chunk_transfer.sys_inv (data_msg (dl_chunk dl)) ack_msg
     (serving (dl_client_id dl) (dl_chunk dl)) (acked_by (dl_client_id dl))
     (fetching (dl_server_id dl) (dl_offset dl) (dl_chunk dl)) (got_from (dl_server_id dl))"

definition under_way :: "download \<Rightarrow> network \<Rightarrow> bool" where
  "under_way dl n \<longleftrightarrow>
     peer_ok (dl_master dl) (nw_server n) \<and> peer_ok (dl_master dl) (nw_client n) \<and>
     node_of_addr (dl_client dl) (peers (ps_config (nw_server n))) = dl_client_id dl \<and> dl_client_id dl \<noteq> -1 \<and>
     node_of_addr (dl_server dl) (peers (ps_config (nw_client n))) = dl_server_id dl \<and> dl_server_id dl \<noteq> -1 \<and>
     output_file (ps_config (nw_client n)) = dl_output dl \<and> ps_written (nw_client n) = dl_before dl \<and>
     manager_ready [dl_offset dl] (ps_fm (nw_client n)) \<and> fm_init (ps_fm (nw_client n)) \<and>
     timed (dl_client dl) (nw_data n) (ps_tracker (nw_server n)) \<and> transfer_inv dl (as_transfer n) \<and>
     leads (dl_server_id dl) (dl_offset dl) (ps_recv (nw_client n))"

definition finished :: "download \<Rightarrow> network \<Rightarrow> bool" where
  "finished dl n \<longleftrightarrow> ps_written (nw_client n) = (dl_output dl, dl_chunk dl) # dl_before dl \<and>
     \<not> fm_init (ps_fm (nw_client n))"

text \<open>What the invariant of the transfer says of the datagrams and the peers.\<close>

lemma under_wayD:
  assumes "under_way dl n"
  shows "m \<in> nw_data n \<Longrightarrow> \<exists>k < 512. m = data_msg (dl_chunk dl) k"
    and "m \<in> nw_acks n \<Longrightarrow> \<exists>a. m = ack_msg a \<and> 1 \<le> a \<and> a \<le> 1024"
    and "serving (dl_client_id dl) (dl_chunk dl) (ps_sender (nw_server n), ps_tracker (nw_server n))"
    and "fetching (dl_server_id dl) (dl_offset dl) (dl_chunk dl) (ps_recv (nw_client n))"
  using assms
  by (auto simp: under_way_def as_transfer_def ct.sys_inv_def ct.started_def ct.cumulative_def)

lemma transfer_inv_timers:
  assumes "transfer_inv dl s" "sndr s = (S, trk)" "tracker_ok trk'"
  shows "transfer_inv dl (s\<lparr>sndr := (S, trk')\<rparr>)"
  using assms serving_tracker acked_by_tracker [of _ S trk' trk] by (auto simp: ct.sys_inv_def)

lemma data_delivered:
  assumes inv: "under_way dl n" and w: "world_ok (dl_master dl) (ps_config (nw_client n)) io" "length buf = 1500"
    and m: "m \<in> nw_data n"
  shows "\<exists>C a l'. process_inbound_udp io buf m (dl_server dl) (nw_client n) = Inr (C, [(dl_server dl, ack_msg a)]) \<and>
    ps_config C = ps_config (nw_client n) \<and>
    recv_datagram (dl_server_id dl) \<lparr>env_buf = buf, env_beyond = io_beyond io\<rparr> m (ps_recv (nw_client n)) =
      Inr (l', [ack_msg a]) \<and>
    (if is_buffer_full (dl_offset dl) l' = 1
     then finished dl (n\<lparr>nw_client := C, nw_acks := nw_acks n \<union> {ack_msg a}\<rparr>)
     else ps_recv C = l' \<and> under_way dl (n\<lparr>nw_client := C, nw_acks := nw_acks n \<union> {ack_msg a}\<rparr>))"
proof -
  obtain k where k: "k < 512" "m = data_msg (dl_chunk dl) k" using under_wayD(1) [OF inv m] by blast
  let ?e = "\<lparr>env_buf = buf, env_beyond = io_beyond io\<rparr>"
  have c: "peer_ok (dl_master dl) (nw_client n)" "node_of_addr (dl_server dl) (peers (ps_config (nw_client n))) = dl_server_id dl"
      "dl_server_id dl \<noteq> -1" "manager_ready [dl_offset dl] (ps_fm (nw_client n))" "fm_init (ps_fm (nw_client n))"
      "leads (dl_server_id dl) (dl_offset dl) (ps_recv (nw_client n))"
    using inv by (simp_all add: under_way_def)
  obtain C a l' where r: "process_inbound_udp io buf m (dl_server dl) (nw_client n) = Inr (C, [(dl_server dl, ack_msg a)])"
      "peer_ok (dl_master dl) C" "ps_config C = ps_config (nw_client n)"
      "recv_datagram (dl_server_id dl) ?e m (ps_recv (nw_client n)) = Inr (l', [ack_msg a])"
      "if is_buffer_full (dl_offset dl) l' = 1
       then ps_written C = (output_file (ps_config (nw_client n)), dl_chunk dl) # ps_written (nw_client n) \<and> \<not> fm_init (ps_fm C)
       else ps_recv C = l' \<and> ps_written C = ps_written (nw_client n) \<and> manager_ready [dl_offset dl] (ps_fm C) \<and> fm_init (ps_fm C)"
    using client_stores [OF c(1) w c(2,3) under_wayD(4) [OF inv] c(6) k(1) c(4,5)] unfolding k(2) by blast
  let ?n = "n\<lparr>nw_client := C, nw_acks := nw_acks n \<union> {ack_msg a}\<rparr>"
  show ?thesis
  proof (cases "is_buffer_full (dl_offset dl) l' = 1")
    case True
    then have "finished dl ?n" using r(5) inv by (simp add: finished_def under_way_def)
    with r(1,3,4) True show ?thesis by auto
  next
    case False
    have e: "env_sane ?e" using w by (simp add: env_sane_def world_ok_def)
    have "transfer_inv dl (as_transfer n)" "m \<in> data_net (as_transfer n)"
      using inv m by (simp_all add: under_way_def as_transfer_def)
    from ct.data_step_inv [OF this(1) e this(2)] r(4)
    have "transfer_inv dl ((as_transfer n)\<lparr>rcvr := l', ack_net := ack_net (as_transfer n) \<union> set [ack_msg a]\<rparr>)"
      by (auto simp: as_transfer_def)
    moreover have "(as_transfer n)\<lparr>rcvr := l', ack_net := ack_net (as_transfer n) \<union> set [ack_msg a]\<rparr> = as_transfer ?n"
      using False r(5) by (simp add: as_transfer_def)
    moreover have "leads (dl_server_id dl) (dl_offset dl) l'" using c(6) leads_keys [OF recv_datagram_keys [OF r(4)]] by blast
    ultimately have "under_way dl ?n" using False r(2,3,5) inv by (simp add: under_way_def)
    with r(1,3,4,5) False show ?thesis by auto
  qed
qed

lemma ack_delivered:
  assumes inv: "under_way dl n" and w: "world_ok (dl_master dl) (ps_config (nw_server n)) io" "length buf = 1500"
    and m: "m \<in> nw_acks n"
  shows "\<exists>S trk msgs. process_inbound_udp io buf m (dl_client dl) (nw_server n) = Inr (S, map (Pair (dl_client dl)) (rev msgs)) \<and>
    ack_datagram (dl_client_id dl) \<lparr>env_buf = buf, env_beyond = io_beyond io\<rparr> m
      (ps_sender (nw_server n), ps_tracker (nw_server n)) = Inr ((ps_sender S, trk), msgs) \<and> tracker_ok (ps_tracker S) \<and>
    ps_config S = ps_config (nw_server n) \<and> under_way dl (n\<lparr>nw_server := S, nw_data := nw_data n \<union> set msgs\<rparr>)"
proof -
  obtain a where a: "m = ack_msg a" "1 \<le> a" "a \<le> 1024" using under_wayD(2) [OF inv m] by blast
  let ?e = "\<lparr>env_buf = buf, env_beyond = io_beyond io\<rparr>"
  have s: "peer_ok (dl_master dl) (nw_server n)" "node_of_addr (dl_client dl) (peers (ps_config (nw_server n))) = dl_client_id dl"
      "dl_client_id dl \<noteq> -1" "timed (dl_client dl) (nw_data n) (ps_tracker (nw_server n))"
    using inv by (simp_all add: under_way_def)
  obtain S trk msgs where r: "process_inbound_udp io buf m (dl_client dl) (nw_server n) = Inr (S, map (Pair (dl_client dl)) (rev msgs))"
      "peer_ok (dl_master dl) S" "ps_config S = ps_config (nw_server n)"
      "ack_datagram (dl_client_id dl) ?e m (ps_sender (nw_server n), ps_tracker (nw_server n)) = Inr ((ps_sender S, trk), msgs)"
      "tracker_ok (ps_tracker S)" "timed (dl_client dl) (nw_data n \<union> set msgs) (ps_tracker S)"
    using server_acks [OF s(1) w s(2,3) a(2,3) s(4)] unfolding a(1) by blast
  let ?n = "n\<lparr>nw_server := S, nw_data := nw_data n \<union> set msgs\<rparr>"
    and ?s = "(as_transfer n)\<lparr>sndr := (ps_sender S, trk), data_net := data_net (as_transfer n) \<union> set msgs\<rparr>"
  have e: "env_sane ?e" using w by (simp add: env_sane_def world_ok_def)
  have "transfer_inv dl (as_transfer n)" "m \<in> ack_net (as_transfer n)"
    using inv m by (simp_all add: under_way_def as_transfer_def)
  from ct.ack_step_inv [OF this(1) e this(2)] r(4) have "transfer_inv dl ?s" by (auto simp: as_transfer_def)
  from transfer_inv_timers [OF this _ r(5)] have "transfer_inv dl (?s\<lparr>sndr := (ps_sender S, ps_tracker S)\<rparr>)" by simp
  moreover have "?s\<lparr>sndr := (ps_sender S, ps_tracker S)\<rparr> = as_transfer ?n" by (simp add: as_transfer_def)
  ultimately have "under_way dl ?n" using r(2,3,6) inv by (simp add: under_way_def)
  with r(1,3,4,5) show ?thesis by blast
qed

lemma timeouts_handled:
  assumes inv: "under_way dl n" and t: "check_timeouts io (nw_server n) = Inr (S, out)"
  shows "under_way dl (n\<lparr>nw_server := S, nw_data := nw_data n \<union> sent_to (dl_client dl) out\<rparr>)"
proof -
  have ok: "peer_ok (dl_master dl) (nw_server n)" "timed (dl_client dl) (nw_data n) (ps_tracker (nw_server n))"
    using inv by (simp_all add: under_way_def)
  note r = server_times_out [OF ok(1) under_wayD(3) [OF inv] ok(2) t]
  then have "nw_data n \<union> sent_to (dl_client dl) out = nw_data n" by blast
  moreover have "transfer_inv dl (as_transfer (n\<lparr>nw_server := S\<rparr>))"
    using inv r by (simp add: under_way_def as_transfer_def ct.sys_inv_def)
  ultimately show ?thesis using inv r by (simp add: under_way_def)
qed

theorem download_step:
  assumes "under_way dl n" "net_step (dl_master dl) (dl_server dl) (dl_client dl) n n'"
  shows "under_way dl n' \<or> finished dl n'"
  using assms(2)
proof (cases rule: net_step.cases)
  case (data_arrives io buf m C out)
  then show ?thesis using data_delivered [OF assms(1), of io buf m] sent_to_map [of "dl_server dl" "[_]"]
    by (auto split: if_splits)
next
  case (ack_arrives io buf m S out)
  then show ?thesis using ack_delivered [OF assms(1), of io buf m] by auto
next
  case (timers_expire io S out)
  then show ?thesis using timeouts_handled [OF assms(1)] by blast
qed

lemma finished_step:
  "finished dl n \<Longrightarrow> net_step ms server client n n' \<Longrightarrow> finished dl n'"
  by (auto simp: finished_def elim: net_stepE)

theorem download_reach:
  assumes "net_reach (dl_master dl) (dl_server dl) (dl_client dl) n n'" "under_way dl n"
  shows "under_way dl n' \<or> finished dl n'"
  using assms by (induction rule: rtranclp_induct) (auto dest: download_step finished_step)

section \<open>A download can be finished\<close>

text \<open>
  \<open>progressed dl k n\<close>: the client has the first \<open>k\<close> packets and the server is ready for their
  acknowledgement. Deliveries of packet \<open>k\<close> and of its acknowledgement lead to the next such state, the
  last packet finishes the download.
\<close>

abbreviation ready_for :: "download \<Rightarrow> nat \<Rightarrow> (sender_st \<times> packet_tracker_t list, recv_buffer_t list) sys \<Rightarrow> bool" where
  "ready_for dl k s \<equiv> cp.at_packet (dl_chunk dl) (dl_client_id dl) (dl_server_id dl) (dl_offset dl) k s"

definition one_buffer :: "int \<Rightarrow> recv_buffer_t list \<Rightarrow> bool" where
  "one_buffer off l \<longleftrightarrow> length (filter (\<lambda>k. snd k = off) (buffer_keys l)) \<le> 1"

definition progressed :: "download \<Rightarrow> io \<Rightarrow> io \<Rightarrow> nat \<Rightarrow> network \<Rightarrow> bool" where
  "progressed dl sio cio k n \<longleftrightarrow> under_way dl n \<and> ready_for dl k (as_transfer n) \<and>
     one_buffer (dl_offset dl) (ps_recv (nw_client n)) \<and>
     world_ok (dl_master dl) (ps_config (nw_server n)) sio \<and> world_ok (dl_master dl) (ps_config (nw_client n)) cio"

lemma one_buffer_leads:
  assumes "one_buffer off l" "get_recv_by_socket node l = Some b" "rb_offset b = off"
  shows "leads node off l"
  using assms
proof (induction l)
  case (Cons x l)
  show ?case
  proof (cases "rb_socket x = node")
    case True
    then show ?thesis using Cons.prems by (auto simp: leads_def buffer_keys_def get_recv_by_socket_def)
  next
    case False
    then have b: "get_recv_by_socket node l = Some b" using Cons.prems(2) by (simp add: get_recv_by_socket_def)
    then have "b \<in> set l" using find_Some_in_set by (fastforce simp: get_recv_by_socket_def)
    then have x: "rb_offset x \<noteq> off"
      using Cons.prems(1,3) by (auto simp: one_buffer_def buffer_keys_def filter_empty_conv)
    then have "one_buffer off l" using Cons.prems(1) by (simp add: one_buffer_def buffer_keys_def)
    from Cons.IH [OF this b Cons.prems(3)] x show ?thesis by (simp add: leads_def buffer_keys_def)
  qed
qed (simp add: get_recv_by_socket_def)

lemma full_iff_all:
  assumes "fetching node off F l" "one_buffer off l"
  shows "is_buffer_full off l = 1 \<longleftrightarrow> got_from node l = {..<512}"
proof -
  obtain b where b: "get_recv_by_socket node l = Some b" "rb_offset b = off" "recv_wf F b"
    using assms(1) by (auto simp: fetching_def)
  have "is_buffer_full off l = 1 \<longleftrightarrow> rb_total_recv b = 524288"
    using is_buffer_full_keys [OF leads_first [OF one_buffer_leads [OF assms(2) b(1,2)] b(1,2)]] assms(2)
    by (simp add: one_buffer_def)
  then show ?thesis using full_received [OF b(3)] received_full [OF b(3)] b(1) by (auto simp: got_from_def)
qed

lemma ready_sender_tracker: "ready_sender node F k (S, trk) \<Longrightarrow> tracker_ok trk' \<Longrightarrow> ready_sender node F k (S, trk')"
  by (simp add: ready_sender_def)

lemma sent_by_tracker: "sent_by node (S, trk') = sent_by node (S, trk)"
  by (simp add: sent_by_def)

lemma data_moves_on:
  assumes p: "progressed dl sio cio k n" and k: "k < 512"
  shows "\<exists>C a. net_step (dl_master dl) (dl_server dl) (dl_client dl) n
      (n\<lparr>nw_client := C, nw_acks := nw_acks n \<union> {ack_msg a}\<rparr>) \<and> ps_config C = ps_config (nw_client n) \<and>
    (if k = 511 then finished dl (n\<lparr>nw_client := C, nw_acks := nw_acks n \<union> {ack_msg a}\<rparr>)
     else a = int k + 1 \<and> under_way dl (n\<lparr>nw_client := C, nw_acks := nw_acks n \<union> {ack_msg a}\<rparr>) \<and>
       got_from (dl_server_id dl) (ps_recv C) = {..<Suc k} \<and> one_buffer (dl_offset dl) (ps_recv C))"
proof -
  have inv: "under_way dl n" and at: "ready_for dl k (as_transfer n)" and one: "one_buffer (dl_offset dl) (ps_recv (nw_client n))"
    and w: "world_ok (dl_master dl) (ps_config (nw_client n)) cio"
    using p by (simp_all add: progressed_def)
  let ?buf = "replicate 1500 0 :: byte list"
  let ?e = "\<lparr>env_buf = ?buf, env_beyond = io_beyond cio\<rparr>"
  have e: "env_sane ?e" using w by (simp add: env_sane_def world_ok_def)
  obtain r a where r: "data_msg (dl_chunk dl) k \<in> nw_data n"
      "recv_datagram (dl_server_id dl) ?e (data_msg (dl_chunk dl) k) (ps_recv (nw_client n)) = Inr (r, [ack_msg a])"
      "got_from (dl_server_id dl) r = {..<Suc k}" "k < 511 \<longrightarrow> a = int k + 1"
    using cp.data_progress [OF at k e] by (auto simp: as_transfer_def)
  have buf: "length ?buf = 1500" by simp
  obtain C a' l' where d: "process_inbound_udp cio ?buf (data_msg (dl_chunk dl) k) (dl_server dl) (nw_client n) =
        Inr (C, [(dl_server dl, ack_msg a')])" "ps_config C = ps_config (nw_client n)"
      "recv_datagram (dl_server_id dl) ?e (data_msg (dl_chunk dl) k) (ps_recv (nw_client n)) = Inr (l', [ack_msg a'])"
      "if is_buffer_full (dl_offset dl) l' = 1
       then finished dl (n\<lparr>nw_client := C, nw_acks := nw_acks n \<union> {ack_msg a'}\<rparr>)
       else ps_recv C = l' \<and> under_way dl (n\<lparr>nw_client := C, nw_acks := nw_acks n \<union> {ack_msg a'}\<rparr>)"
    using data_delivered [OF inv w buf r(1)] by blast
  have l': "l' = r" and acks: "ack_msg a' = ack_msg a" using d(3) r(2) by simp_all
  have fetch: "fetching (dl_server_id dl) (dl_offset dl) (dl_chunk dl) r"
    using recv_datagram_ok [OF under_wayD(4) [OF inv] e k] r(2) by auto
  have one': "one_buffer (dl_offset dl) r"
    using one recv_datagram_keys [OF r(2)] by (simp add: one_buffer_def)
  have "{..<Suc k} = {..<512 :: nat} \<longleftrightarrow> k = 511" by (auto simp: lessThan_eq_iff)
  then have full: "is_buffer_full (dl_offset dl) r = 1 \<longleftrightarrow> k = 511"
    using full_iff_all [OF fetch one'] by (simp only: r(3))
  have init: "fm_init (ps_fm (nw_client n))" using inv by (simp add: under_way_def)
  have "sent_to (dl_server dl) [(dl_server dl, ack_msg a')] = {ack_msg a'}" by (simp add: sent_to_def)
  with net_step.data_arrives [OF w buf r(1) init d(1), of "dl_client dl"]
  have step: "net_step (dl_master dl) (dl_server dl) (dl_client dl) n
      (n\<lparr>nw_client := C, nw_acks := nw_acks n \<union> {ack_msg a}\<rparr>)"
    by (simp add: acks)
  show ?thesis
    using step d(2,4) r(3,4) k one' full unfolding l' acks
    by (intro exI [of _ C] exI [of _ a]) (cases "k = 511"; simp)
qed

lemma ack_moves_on:
  assumes p: "progressed dl sio cio k n" and k: "k < 511"
    and C: "under_way dl n1" "got_from (dl_server_id dl) (ps_recv C) = {..<Suc k}" "one_buffer (dl_offset dl) (ps_recv C)"
      "ps_config C = ps_config (nw_client n)"
    and n1: "n1 = n\<lparr>nw_client := C, nw_acks := nw_acks n \<union> {ack_msg (int k + 1)}\<rparr>"
  shows "\<exists>n2. net_step (dl_master dl) (dl_server dl) (dl_client dl) n1 n2 \<and> progressed dl sio cio (Suc k) n2"
proof -
  have at: "ready_for dl k (as_transfer n)" and w: "world_ok (dl_master dl) (ps_config (nw_server n1)) sio"
      "world_ok (dl_master dl) (ps_config (nw_client n)) cio"
    using p by (simp_all add: progressed_def n1)
  let ?buf = "replicate 1500 0 :: byte list"
  let ?e = "\<lparr>env_buf = ?buf, env_beyond = io_beyond sio\<rparr>"
  have e: "env_sane ?e" using w by (simp add: env_sane_def world_ok_def)
  have buf: "length ?buf = 1500" and m: "ack_msg (int k + 1) \<in> nw_acks n1" by (simp_all add: n1)
  obtain S trk msgs where s: "process_inbound_udp sio ?buf (ack_msg (int k + 1)) (dl_client dl) (nw_server n1) =
        Inr (S, map (Pair (dl_client dl)) (rev msgs))"
      "ack_datagram (dl_client_id dl) ?e (ack_msg (int k + 1)) (ps_sender (nw_server n1), ps_tracker (nw_server n1)) =
        Inr ((ps_sender S, trk), msgs)" "tracker_ok (ps_tracker S)" "ps_config S = ps_config (nw_server n1)"
      "under_way dl (n1\<lparr>nw_server := S, nw_data := nw_data n1 \<union> set msgs\<rparr>)"
    using ack_delivered [OF C(1) w(1) buf m] by blast
  let ?n2 = "n1\<lparr>nw_server := S, nw_data := nw_data n1 \<union> set msgs\<rparr>"
  have ready: "ready_sender (dl_client_id dl) (dl_chunk dl) k (ps_sender (nw_server n1), ps_tracker (nw_server n1))"
      "\<forall>j \<in> sent_by (dl_client_id dl) (ps_sender (nw_server n1), ps_tracker (nw_server n1)). data_msg (dl_chunk dl) j \<in> nw_data n1"
    using at k by (simp_all add: cp.at_packet_def as_transfer_def n1)
  have nx: "ready_sender (dl_client_id dl) (dl_chunk dl) (Suc k) (ps_sender S, trk)"
      "\<forall>j \<in> sent_by (dl_client_id dl) (ps_sender S, trk). j \<in> sent_by (dl_client_id dl) (ps_sender (nw_server n1), ps_tracker (nw_server n1)) \<or>
         data_msg (dl_chunk dl) j \<in> set msgs"
    using ready_sender_progress [OF ready(1) e k] s(2) by auto
  have "ready_for dl (Suc k) (as_transfer ?n2)"
    using s(5) ready_sender_tracker [OF nx(1) s(3)] nx(2) ready(2) C(2)
      sent_by_tracker [of _ "ps_sender S" "ps_tracker S" trk]
    by (auto simp: cp.at_packet_def as_transfer_def under_way_def n1)
  then have "progressed dl sio cio (Suc k) ?n2"
    using s(4,5) C w by (simp add: progressed_def n1)
  moreover have "net_step (dl_master dl) (dl_server dl) (dl_client dl) n1 ?n2"
    using net_step.ack_arrives [OF w(1) buf m s(1), of "dl_server dl"] by simp
  ultimately show ?thesis by blast
qed

lemma progress_step:
  assumes p: "progressed dl sio cio k n" and k: "k < 511"
  shows "\<exists>n'. net_reach (dl_master dl) (dl_server dl) (dl_client dl) n n' \<and> progressed dl sio cio (Suc k) n'"
proof -
  obtain C a where d: "net_step (dl_master dl) (dl_server dl) (dl_client dl) n
        (n\<lparr>nw_client := C, nw_acks := nw_acks n \<union> {ack_msg a}\<rparr>)" "ps_config C = ps_config (nw_client n)"
      "a = int k + 1" "under_way dl (n\<lparr>nw_client := C, nw_acks := nw_acks n \<union> {ack_msg a}\<rparr>)"
      "got_from (dl_server_id dl) (ps_recv C) = {..<Suc k}" "one_buffer (dl_offset dl) (ps_recv C)"
    using data_moves_on [OF p] k by auto
  obtain n2 where "net_step (dl_master dl) (dl_server dl) (dl_client dl)
        (n\<lparr>nw_client := C, nw_acks := nw_acks n \<union> {ack_msg a}\<rparr>) n2" "progressed dl sio cio (Suc k) n2"
    using ack_moves_on [OF p k d(4,5,6,2)] d(3) by blast
  with d(1) show ?thesis by (meson converse_rtranclp_into_rtranclp r_into_rtranclp)
qed

lemma progress_to:
  assumes "progressed dl sio cio 0 n" "k \<le> 511"
  shows "\<exists>n'. net_reach (dl_master dl) (dl_server dl) (dl_client dl) n n' \<and> progressed dl sio cio k n'"
  using assms(2)
proof (induction k)
  case 0
  then show ?case using assms(1) by blast
next
  case (Suc k)
  then obtain n1 where n1: "net_reach (dl_master dl) (dl_server dl) (dl_client dl) n n1" "progressed dl sio cio k n1" by auto
  obtain n2 where "net_reach (dl_master dl) (dl_server dl) (dl_client dl) n1 n2" "progressed dl sio cio (Suc k) n2"
    using progress_step [OF n1(2)] Suc.prems by auto
  with n1(1) show ?case using rtranclp_trans by metis
qed

theorem download_finishes:
  assumes "progressed dl sio cio 0 n"
  shows "\<exists>n'. net_reach (dl_master dl) (dl_server dl) (dl_client dl) n n' \<and> finished dl n'"
proof -
  obtain n1 where n1: "net_reach (dl_master dl) (dl_server dl) (dl_client dl) n n1" "progressed dl sio cio 511 n1"
    using progress_to [OF assms] by blast
  obtain n2 where "net_step (dl_master dl) (dl_server dl) (dl_client dl) n1 n2" "finished dl n2"
    using data_moves_on [OF n1(2)] by auto
  with n1(1) show ?thesis by (meson rtranclp.rtrancl_into_rtrancl)
qed

section \<open>From the request to the file\<close>

text \<open>
  A meeting: the two peers before, their addresses and the numbers they know each other by, a request
  that is under way, the list of chunks that the server has, the chunk that the client wants, and what
  the three calls of \<^verbatim>\<open>process_inbound_udp\<close> find outside the peers.
\<close>

record meeting =
  mt_master :: "(nat \<times> byte list) list"
  mt_server :: peer_st
  mt_client :: peer_st
  mt_server_addr :: sockaddr_in
  mt_client_addr :: sockaddr_in
  mt_server_id :: int
  mt_client_id :: int
  mt_request :: "byte list"
  mt_hashes :: "byte list list"
  mt_has :: "(nat \<times> byte list) list"
  mt_wanted :: "byte list"
  mt_io1 :: io
  mt_io2 :: io
  mt_io3 :: io

text \<open>The single datagram that a call sent.\<close>

fun only_message :: "sent \<Rightarrow> byte list" where
  "only_message [(a, m)] = m"
| "only_message _ = []"

text \<open>\<open>meet\<close>: the server gets the request, the client the answer, the server the client's answer.\<close>

definition meet :: "byte list \<Rightarrow> meeting \<Rightarrow> network res" where
  "meet buf mt =
     rbind (process_inbound_udp (mt_io1 mt) buf (mt_request mt) (mt_client_addr mt) (mt_server mt)) (\<lambda>(S, offer).
     rbind (process_inbound_udp (mt_io2 mt) buf (only_message offer) (mt_server_addr mt) (mt_client mt)) (\<lambda>(C, answer).
     rbind (process_inbound_udp (mt_io3 mt) buf (only_message answer) (mt_client_addr mt) S) (\<lambda>(S, out).
     Inr \<lparr>nw_server = S, nw_client = C, nw_data = sent_to (mt_client_addr mt) out, nw_acks = {}\<rparr>)))"

text \<open>The peers are sound, know each other and the same chunks, and the server has what the client wants.\<close>

definition peers_meet :: "meeting \<Rightarrow> bool" where
  "peers_meet mt \<longleftrightarrow>
     (let ms = mt_master mt; S = mt_server mt; C = mt_client mt; wanted = local_chunks (mt_has mt) (mt_hashes mt);
          free = (\<lambda>h. master_offset ms h \<noteq> -1 \<and> \<not> busy_with (mt_server_id mt) (master_offset ms h) C) in
      peer_ok ms S \<and> peer_ok ms C \<and> world_ok ms (ps_config S) (mt_io1 mt) \<and> world_ok ms (ps_config C) (mt_io2 mt) \<and>
      world_ok ms (ps_config S) (mt_io3 mt) \<and>
      node_of_addr (mt_client_addr mt) (peers (ps_config S)) = mt_client_id mt \<and> mt_client_id mt \<noteq> -1 \<and>
      node_of_addr (mt_server_addr mt) (peers (ps_config C)) = mt_server_id mt \<and> mt_server_id mt \<noteq> -1 \<and>
      reads_request (mt_request mt) (mt_hashes mt) \<and> length (mt_hashes mt) < 60 \<and>
      io_fs (mt_io1 mt) (has_chunk_file (ps_config S)) = Some (chunk_text (mt_has mt)) \<and>
      (\<forall>e \<in> set (mt_has mt). length (snd e) = 20) \<and> length (mt_has mt) \<le> 4 \<and>
      fm_init (ps_fm C) \<and>
      (\<forall>h \<in> set wanted. master_offset ms h = -1 \<or> master_offset ms h \<in> set (offsets_of (ps_fm C))) \<and>
      List.find free wanted = Some (mt_wanted mt))"

text \<open>The client downloads this chunk only, and the server is not sending to it yet.\<close>

definition one_chunk_wanted :: "meeting \<Rightarrow> bool" where
  "one_chunk_wanted mt \<longleftrightarrow>
     offsets_of (ps_fm (mt_client mt)) = [master_offset (mt_master mt) (mt_wanted mt)] \<and>
     timed (mt_client_addr mt) {} (ps_tracker (mt_server mt))"

definition download_of :: "meeting \<Rightarrow> byte list \<Rightarrow> download" where
  "download_of mt F = \<lparr>dl_master = mt_master mt, dl_server = mt_server_addr mt, dl_client = mt_client_addr mt,
     dl_server_id = mt_server_id mt, dl_client_id = mt_client_id mt,
     dl_offset = master_offset (mt_master mt) (mt_wanted mt), dl_chunk = F,
     dl_output = output_file (ps_config (mt_client mt)), dl_before = ps_written (mt_client mt)\<rparr>"

abbreviation runs :: "meeting \<Rightarrow> network \<Rightarrow> network \<Rightarrow> bool" where
  "runs mt \<equiv> net_reach (mt_master mt) (mt_server_addr mt) (mt_client_addr mt)"

lemma manager_ready_offsets: "manager_ok ms fm \<Longrightarrow> fm_init fm \<Longrightarrow> manager_ready (offsets_of fm) fm"
  unfolding manager_ok_def using manager_readyD by blast

lemma master_offset_known: "master_offset ms h \<noteq> -1 \<Longrightarrow> h \<in> snd ` set ms"
  by (force simp: master_offset_def split: option.splits dest: find_Some_in_set)

text \<open>What a server answers to GET, and that it is ready for the acknowledgements.\<close>

lemma get_serves:
  assumes ok: "peer_ok ms S" and w: "world_ok ms (ps_config S) io" and buf: "length buf = 1500"
    and node: "node_of_addr client (peers (ps_config S)) = node" "node \<noteq> -1"
    and h: "length h = 20" "h \<in> snd ` set ms" and net: "timed client sent (ps_tracker S)"
  shows "\<exists>S' F. process_inbound_udp io buf (get_msg h) client S = Inr (S', [(client, data_msg F 0)]) \<and>
    chunk_of io (ps_config S) ms h F \<and> peer_ok ms S' \<and> ps_config S' = ps_config S \<and>
    timed client (sent \<union> {data_msg F 0}) (ps_tracker S') \<and> serving node F (ps_sender S', ps_tracker S') \<and>
    acked_by node (ps_sender S', ps_tracker S') = {} \<and> sent_by node (ps_sender S', ps_tracker S') = {0} \<and>
    (io_prev_ack io \<noteq> 0 \<longrightarrow> ready_sender node F 0 (ps_sender S', ps_tracker S'))"
proof -
  obtain S' F where g: "process_inbound_udp io buf (get_msg h) client S = Inr (S', [(client, data_msg F 0)])"
      "chunk_of io (ps_config S) ms h F"
      "send_data node (init_datalist (io_prev_ack io) (io_count_ack io) node (master_offset ms h) (Some F) (ps_sender S)) =
        Inr (ps_sender S', [data_pkt F 0])"
      "peer_ok ms S'" "ps_config S' = ps_config S" "ps_tracker S' = track_all io node client [data_pkt F 0] (ps_tracker S)"
    using get_answered [OF ok w buf node h] by blast
  have F: "length F = 524288" by (rule chunk_of_length [OF g(2)])
  have trk: "tracker_ok (ps_tracker S)" "tracker_ok (ps_tracker S')"
    using ok g(4) by (simp_all add: peer_ok_def tracker_sane_def)
  have start: "length (replicate 1500 0 :: byte list) = 1500" "snd (init_recv_buffer (replicate 1500 0) (master_offset ms h) 0 []) = 1"
      "tracker_ok (snd (ps_sender S, ps_tracker S))"
    using trk(1) by (simp_all add: init_recv_buffer_def)
  obtain st where st: "transfer_start (io_prev_ack io) (io_count_ack io) (replicate 1500 0) node 0 (master_offset ms h) F
        (ps_sender S, ps_tracker S) [] = Inr st"
      "serving node F (sndr st)" "acked_by node (sndr st) = {}" "sent_by node (sndr st) = {0}"
      "io_prev_ack io \<noteq> 0 \<longrightarrow> ready_sender node F 0 (sndr st)"
    using transfer_start_result [OF F start, where snode = node and p = "io_prev_ack io" and c = "io_count_ack io"] by blast
  then have sn: "sndr st = (ps_sender S', ps_tracker S)"
    using g(3) to_wire_data_pkt [OF F, of 0] by (auto simp: transfer_start_def)
  have wire: "all_to_wire [data_pkt F 0] = Inr [data_msg F 0]" using to_wire_data_pkt [OF F, of 0] by simp
  have "timed client (sent \<union> {data_msg F 0}) (ps_tracker S')"
    unfolding g(6) by (rule track_all_timed [OF timed_mono [OF net Un_upper1 order_refl] wire]) simp
  moreover have "serving node F (ps_sender S', ps_tracker S')" "acked_by node (ps_sender S', ps_tracker S') = {}"
      "sent_by node (ps_sender S', ps_tracker S') = {0}"
      "io_prev_ack io \<noteq> 0 \<longrightarrow> ready_sender node F 0 (ps_sender S', ps_tracker S')"
    using st(2-5) serving_tracker [OF _ trk(2)] acked_by_tracker sent_by_tracker ready_sender_tracker [OF _ trk(2)]
    unfolding sn by metis+
  ultimately show ?thesis using g(1,2,4,5) by (intro exI conjI) (assumption | simp)+
qed

lemma meeting_starts_download:
  assumes mt: "peers_meet mt" "one_chunk_wanted mt" and buf: "length buf = 1500"
  shows "\<exists>n F. meet buf mt = Inr n \<and> chunk_of (mt_io3 mt) (ps_config (mt_server mt)) (mt_master mt) (mt_wanted mt) F \<and>
    under_way (download_of mt F) n \<and>
    (io_prev_ack (mt_io3 mt) \<noteq> 0 \<longrightarrow> ready_for (download_of mt F) 0 (as_transfer n)) \<and>
    ps_config (nw_server n) = ps_config (mt_server mt) \<and> ps_config (nw_client n) = ps_config (mt_client mt) \<and>
    tl (ps_recv (nw_client n)) = ps_recv (mt_client mt) \<and> ps_recv (nw_client n) \<noteq> []"
proof -
  let ?ms = "mt_master mt" and ?S = "mt_server mt" and ?C = "mt_client mt" and ?h = "mt_wanted mt"
    and ?client = "mt_client_addr mt" and ?server = "mt_server_addr mt" and ?c = "mt_client_id mt" and ?s = "mt_server_id mt"
  let ?wanted = "local_chunks (mt_has mt) (mt_hashes mt)" and ?off = "master_offset ?ms ?h"
  have a: "peer_ok ?ms ?S" "peer_ok ?ms ?C" "world_ok ?ms (ps_config ?S) (mt_io1 mt)" "world_ok ?ms (ps_config ?C) (mt_io2 mt)"
      "world_ok ?ms (ps_config ?S) (mt_io3 mt)" "node_of_addr ?client (peers (ps_config ?S)) = ?c" "?c \<noteq> -1"
      "node_of_addr ?server (peers (ps_config ?C)) = ?s" "?s \<noteq> -1" "reads_request (mt_request mt) (mt_hashes mt)"
      "length (mt_hashes mt) < 60" "io_fs (mt_io1 mt) (has_chunk_file (ps_config ?S)) = Some (chunk_text (mt_has mt))"
      "\<forall>e \<in> set (mt_has mt). length (snd e) = 20" "length (mt_has mt) \<le> 4" "fm_init (ps_fm ?C)"
      "\<forall>h \<in> set ?wanted. master_offset ?ms h = -1 \<or> master_offset ?ms h \<in> set (offsets_of (ps_fm ?C))"
      "List.find (\<lambda>h. master_offset ?ms h \<noteq> -1 \<and> \<not> busy_with ?s (master_offset ?ms h) ?C) ?wanted = Some ?h"
    using mt(1) by (simp_all add: peers_meet_def Let_def)
  have "?h \<in> set ?wanted" "?off \<noteq> -1" using a(17) by (auto dest: find_Some_in_set)
  then have ne: "?wanted \<noteq> []" and known: "?h \<in> snd ` set ?ms"
    using master_offset_known by auto
  obtain offer where o: "process_inbound_udp (mt_io1 mt) buf (mt_request mt) ?client ?S = Inr (?S, [(?client, offer)])"
      "offers offer ?wanted"
    using request_offered [OF a(1,3) buf a(6,7,10-14) ne] by blast
  obtain C where c: "process_inbound_udp (mt_io2 mt) buf offer ?server ?C = Inr (C, [(?server, get_msg ?h)])" "length ?h = 20"
      "ps_recv C = fst (init_recv_buffer (io_content (mt_io2 mt)) ?off ?s (ps_recv ?C))"
      "snd (init_recv_buffer (io_content (mt_io2 mt)) ?off ?s (ps_recv ?C)) = 1"
      "peer_ok ?ms C" "ps_config C = ps_config ?C" "ps_written C = ps_written ?C" "fm_init (ps_fm C)"
      "\<forall>offs. manager_ready offs (ps_fm ?C) \<longrightarrow> manager_ready offs (ps_fm C)"
    using offer_taken [OF a(2,4) buf a(8,9) o(2) a(15-17)] by blast
  have "timed ?client {} (ps_tracker ?S)" using mt(2) by (simp add: one_chunk_wanted_def)
  then obtain S F where s: "process_inbound_udp (mt_io3 mt) buf (get_msg ?h) ?client ?S = Inr (S, [(?client, data_msg F 0)])"
      "chunk_of (mt_io3 mt) (ps_config ?S) ?ms ?h F" "peer_ok ?ms S" "ps_config S = ps_config ?S"
      "timed ?client {data_msg F 0} (ps_tracker S)" "serving ?c F (ps_sender S, ps_tracker S)"
      "acked_by ?c (ps_sender S, ps_tracker S) = {}" "sent_by ?c (ps_sender S, ps_tracker S) = {0}"
      "io_prev_ack (mt_io3 mt) \<noteq> 0 \<longrightarrow> ready_sender ?c F 0 (ps_sender S, ps_tracker S)"
    using get_serves [OF a(1,5) buf a(6,7) c(2) known] by force
  let ?n = "\<lparr>nw_server = S, nw_client = C, nw_data = {data_msg F 0}, nw_acks = {}\<rparr>" and ?dl = "download_of mt F"
  have meet: "meet buf mt = Inr ?n" using o(1) c(1) s(1) by (simp add: meet_def sent_to_def)
  have dl: "dl_chunk ?dl = F" "dl_client_id ?dl = ?c" "dl_server_id ?dl = ?s" "dl_offset ?dl = ?off" "dl_master ?dl = ?ms"
      "dl_client ?dl = ?client" "dl_server ?dl = ?server" "dl_output ?dl = output_file (ps_config ?C)" "dl_before ?dl = ps_written ?C"
    by (simp_all add: download_of_def)
  have F: "length F = 524288" by (rule chunk_of_length [OF s(2)])
  have "length (io_content (mt_io2 mt)) = 1500" using a(4) by (simp add: world_ok_def)
  then have fresh: "fetching ?s ?off F (ps_recv C)" "got_from ?s (ps_recv C) = {}"
    using fresh_fetching [OF F _ c(4)] c(3) by simp_all
  then have inv: "transfer_inv ?dl (as_transfer ?n)"
    using s(6,7) unfolding dl as_transfer_def by (intro start_inv) simp_all
  have "manager_ready [?off] (ps_fm ?C)"
    using manager_ready_offsets [of ?ms "ps_fm ?C"] a(2,15) mt(2) by (simp add: peer_ok_def one_chunk_wanted_def)
  moreover have "leads ?s ?off (ps_recv C)"
    using c(3,4) by (auto simp: leads_def init_recv_buffer_def buffer_keys_def fresh_buffer_def split: if_splits)
  ultimately have "under_way ?dl ?n"
    using s(3-5) c(5-9) a(6-9) inv unfolding under_way_def dl by simp
  moreover have "ready_for ?dl 0 (as_transfer ?n)" if "io_prev_ack (mt_io3 mt) \<noteq> 0"
    using that inv fresh(2) s(8,9) unfolding cp.at_packet_def dl by (simp add: as_transfer_def)
  moreover have "tl (ps_recv C) = ps_recv ?C" "ps_recv C \<noteq> []"
    using c(3,4) by (auto simp: init_recv_buffer_def split: if_splits)
  ultimately show ?thesis using meet s(2,4) c(6) by (intro exI conjI) (assumption | simp)+
qed

lemma meeting_finishes:
  assumes "peers_meet mt" and "one_chunk_wanted mt" and "length buf = 1500"
    and "io_prev_ack (mt_io3 mt) \<noteq> 0"
    and "\<forall>b \<in> set (ps_recv (mt_client mt)). rb_offset b \<noteq> master_offset (mt_master mt) (mt_wanted mt)"
  shows "\<exists>n0 n F. meet buf mt = Inr n0 \<and> runs mt n0 n \<and>
    chunk_of (mt_io3 mt) (ps_config (mt_server mt)) (mt_master mt) (mt_wanted mt) F \<and>
    ps_written (nw_client n) = (output_file (ps_config (mt_client mt)), F) # ps_written (mt_client mt)"
proof -
  obtain n0 F where n0: "meet buf mt = Inr n0"
      "chunk_of (mt_io3 mt) (ps_config (mt_server mt)) (mt_master mt) (mt_wanted mt) F"
      "under_way (download_of mt F) n0" "ready_for (download_of mt F) 0 (as_transfer n0)"
      "ps_config (nw_server n0) = ps_config (mt_server mt)" "ps_config (nw_client n0) = ps_config (mt_client mt)"
      "tl (ps_recv (nw_client n0)) = ps_recv (mt_client mt)" "ps_recv (nw_client n0) \<noteq> []"
    using meeting_starts_download [OF assms(1-3)] assms(4) by blast
  let ?dl = "download_of mt F"
  have dl: "dl_master ?dl = mt_master mt" "dl_server ?dl = mt_server_addr mt" "dl_client ?dl = mt_client_addr mt"
      "dl_offset ?dl = master_offset (mt_master mt) (mt_wanted mt)"
    by (simp_all add: download_of_def)
  have "one_buffer (dl_offset ?dl) (ps_recv (nw_client n0))"
    using n0(7,8) assms(5) unfolding dl
    by (cases "ps_recv (nw_client n0)") (auto simp: one_buffer_def buffer_keys_def filter_empty_conv)
  moreover have "world_ok (mt_master mt) (ps_config (mt_server mt)) (mt_io1 mt)"
      "world_ok (mt_master mt) (ps_config (mt_client mt)) (mt_io2 mt)"
    using assms(1) by (simp_all add: peers_meet_def Let_def)
  ultimately have "progressed ?dl (mt_io1 mt) (mt_io2 mt) 0 n0"
    using n0(3-6) unfolding progressed_def dl by simp
  from download_finishes [OF this] obtain n where "runs mt n0 n" "finished ?dl n" unfolding dl by blast
  then show ?thesis using n0(1,2) by (auto simp: finished_def download_of_def)
qed

section \<open>Properties of a download\<close>

text \<open>
  End to end, over the complete \<^verbatim>\<open>process_inbound_udp\<close> of both peers: after request, offer and GET,
  whatever of the DATA and ACK datagrams is lost, repeated or reordered and whenever the timers of the
  server expire, the client has either written nothing yet, and then every datagram under way
  can be delivered to it without a fault, or it has written its output file once, and the file holds the bytes
  of the wanted chunk in the server's master file.
\<close>

theorem download_delivers_chunk:
  assumes "peers_meet mt" and "one_chunk_wanted mt" and "length buf = 1500"
  shows "\<exists>n0 F. meet buf mt = Inr n0 \<and>
    chunk_of (mt_io3 mt) (ps_config (mt_server mt)) (mt_master mt) (mt_wanted mt) F \<and>
    (\<forall>n. runs mt n0 n \<longrightarrow>
      fm_init (ps_fm (nw_client n)) \<and> ps_written (nw_client n) = ps_written (mt_client mt) \<and>
      (\<forall>m \<in> nw_data n. \<forall>io buf. world_ok (mt_master mt) (ps_config (nw_client n)) io \<and> length buf = 1500 \<longrightarrow>
         (\<exists>r. process_inbound_udp io buf m (mt_server_addr mt) (nw_client n) = Inr r)) \<or>
      \<not> fm_init (ps_fm (nw_client n)) \<and>
      ps_written (nw_client n) = (output_file (ps_config (mt_client mt)), F) # ps_written (mt_client mt))"
proof -
  obtain n0 F where n0: "meet buf mt = Inr n0"
      "chunk_of (mt_io3 mt) (ps_config (mt_server mt)) (mt_master mt) (mt_wanted mt) F"
      "under_way (download_of mt F) n0"
    using meeting_starts_download [OF assms] by blast
  have dl: "dl_master (download_of mt F) = mt_master mt" "dl_server (download_of mt F) = mt_server_addr mt"
      "dl_client (download_of mt F) = mt_client_addr mt"
    by (simp_all add: download_of_def)
  have "fm_init (ps_fm (nw_client n)) \<and> ps_written (nw_client n) = ps_written (mt_client mt) \<and>
      (\<forall>m \<in> nw_data n. \<forall>io buf. world_ok (mt_master mt) (ps_config (nw_client n)) io \<and> length buf = 1500 \<longrightarrow>
         (\<exists>r. process_inbound_udp io buf m (mt_server_addr mt) (nw_client n) = Inr r)) \<or>
      \<not> fm_init (ps_fm (nw_client n)) \<and>
      ps_written (nw_client n) = (output_file (ps_config (mt_client mt)), F) # ps_written (mt_client mt)"
    if "runs mt n0 n" for n
  proof -
    note r = that
    consider "under_way (download_of mt F) n" | "finished (download_of mt F) n"
      using download_reach [of "download_of mt F" n0 n] r n0(3) unfolding dl by blast
    then show ?thesis
    proof cases
      case 1
      have "\<exists>r. process_inbound_udp io buf m (mt_server_addr mt) (nw_client n) = Inr r"
        if "m \<in> nw_data n" "world_ok (mt_master mt) (ps_config (nw_client n)) io" "length buf = 1500" for m io buf
        using data_delivered [OF 1, unfolded dl, OF that(2,3,1)] by (elim exE conjE) (rule exI)
      moreover have "fm_init (ps_fm (nw_client n))" "ps_written (nw_client n) = ps_written (mt_client mt)"
        using 1 by (simp_all add: under_way_def download_of_def)
      ultimately show ?thesis by simp
    next
      case 2
      then show ?thesis by (simp add: finished_def download_of_def)
    qed
  qed
  with n0(1,2) show ?thesis by blast
qed

text \<open>
  The download gets through: when no older buffer of the chunk exists and the uninitialised \<^verbatim>\<open>prev_ack\<close>
  of the session is not 0, there is a run of the two peers in which the client writes the file.
\<close>

theorem download_can_finish:
  assumes "peers_meet mt" and "one_chunk_wanted mt" and "length buf = 1500"
    and "io_prev_ack (mt_io3 mt) \<noteq> 0"
    and "\<forall>b \<in> set (ps_recv (mt_client mt)). rb_offset b \<noteq> master_offset (mt_master mt) (mt_wanted mt)"
  shows "\<exists>n0 n F. meet buf mt = Inr n0 \<and> runs mt n0 n \<and>
    chunk_of (mt_io3 mt) (ps_config (mt_server mt)) (mt_master mt) (mt_wanted mt) F \<and>
    ps_written (nw_client n) = (output_file (ps_config (mt_client mt)), F) # ps_written (mt_client mt)"
  using meeting_finishes [OF assms] .

text \<open>A meeting of two peers with one chunk between them.\<close>

definition example_meeting :: "byte list \<Rightarrow> meeting" where
  "example_meeting req = (let a = peer_addr (hd (peers example_config)); w = example_world in
     \<lparr>mt_master = [(0, replicate 20 1)], mt_server = example_peer [] initial_manager,
      mt_client = example_peer [] (one_chunk 0), mt_server_addr = a, mt_client_addr = a,
      mt_server_id = 7, mt_client_id = 7, mt_request = req, mt_hashes = [replicate 20 1],
      mt_has = [(0, replicate 20 1)], mt_wanted = replicate 20 1, mt_io1 = w, mt_io2 = w, mt_io3 = w\<rparr>)"

lemma example_meeting_sel:
  "mt_master (example_meeting req) = [(0, replicate 20 1)]"
  "mt_server (example_meeting req) = example_peer [] initial_manager"
  "mt_client (example_meeting req) = example_peer [] (one_chunk 0)"
  "mt_server_addr (example_meeting req) = peer_addr (hd (peers example_config))"
  "mt_client_addr (example_meeting req) = peer_addr (hd (peers example_config))"
  "mt_server_id (example_meeting req) = 7" "mt_client_id (example_meeting req) = 7"
  "mt_request (example_meeting req) = req" "mt_hashes (example_meeting req) = [replicate 20 1]"
  "mt_has (example_meeting req) = [(0, replicate 20 1)]" "mt_wanted (example_meeting req) = replicate 20 1"
  "mt_io1 (example_meeting req) = example_world"
  "mt_io2 (example_meeting req) = example_world"
  "mt_io3 (example_meeting req) = example_world"
  by (simp_all add: example_meeting_def Let_def)

lemma example_meeting_ok:
  assumes req: "reads_request req [replicate 20 1]"
  shows "peers_meet (example_meeting req)" "one_chunk_wanted (example_meeting req)"
proof -
  let ?h = "replicate 20 1 :: byte list" and ?C = "example_peer [] (one_chunk 0)"
    and ?ms = "[(0, replicate 20 1)] :: (nat \<times> byte list) list" and ?w = "example_world"
  have cfg: "ps_config (example_peer [] initial_manager) = example_config" "ps_config ?C = example_config"
    by (simp_all add: example_peer_def)
  have w: "world_ok ?ms example_config ?w"
    using example_world_ok [of "[111]"] by (simp add: example_config_def)
  have n: "node_of_addr (peer_addr (hd (peers example_config))) (peers example_config) = 7"
    by (simp add: node_of_addr_def example_config_def)
  have has: "io_fs ?w (has_chunk_file example_config) = Some (chunk_text ?ms)"
    by (simp add: example_world_def example_io_def example_config_def)
  have l: "local_chunks ?ms [?h] = [?h]" by (simp add: local_chunks_def)
  have off: "master_offset ?ms ?h = 0" by (simp add: master_offset_def)
  have fm: "fm_init (ps_fm ?C)" "offsets_of (ps_fm ?C) = [0]"
    by (simp_all add: example_peer_def one_chunk_def offsets_of_def manager_offsets_def)
  have "\<not> busy_with 7 0 ?C" by (simp add: busy_with_def example_peer_def)
  then have f: "List.find (\<lambda>h. master_offset ?ms h \<noteq> -1 \<and> \<not> busy_with 7 (master_offset ?ms h) ?C) (local_chunks ?ms [?h]) = Some ?h"
    unfolding l by (simp only: List.find.simps off) simp
  show "one_chunk_wanted (example_meeting req)"
    unfolding one_chunk_wanted_def example_meeting_sel fm(2) off by (simp add: timed_def example_peer_def)
  have all: "\<forall>h \<in> set (local_chunks ?ms [?h]). master_offset ?ms h = -1 \<or> master_offset ?ms h \<in> set (offsets_of (ps_fm ?C))"
    unfolding l fm(2) using off by simp
  show "peers_meet (example_meeting req)"
    unfolding peers_meet_def Let_def example_meeting_sel cfg
    by (intro conjI initial_peer_ok one_chunk_ok w n req has fm(1) f all) simp_all
qed

lemma example_request: "length h = 20 \<Longrightarrow> \<exists>req. reads_request req [h]"
proof -
  assume h: "length h = 20"
  obtain p where "asks_for p [h]"
    using init_packet_asks [of "[0]" "[]" "[h]" h] h by (auto simp: c_string_def)
  then show ?thesis using asks_for_sent [of p "[h]"] by auto
qed

theorem download_delivers_chunk_witness:
  "\<exists>req n0 F. meet (replicate 1500 0) (example_meeting req) = Inr n0 \<and> length F = 524288 \<and>
     (\<forall>n. runs (example_meeting req) n0 n \<longrightarrow> ps_written (nw_client n) \<in> {[], [(output_file example_config, F)]})"
proof -
  obtain req where "reads_request req [replicate 20 1]" using example_request [of "replicate 20 1"] by auto
  note ok = example_meeting_ok [OF this]
  have w: "ps_written (mt_client (example_meeting req)) = []"
      "ps_config (mt_client (example_meeting req)) = example_config"
    by (simp_all add: example_meeting_sel example_peer_def)
  from download_delivers_chunk [OF ok length_replicate, of 0, unfolded w]
  show ?thesis
    by (elim exE conjE, intro exI conjI) (assumption, erule chunk_of_length, auto)
qed

theorem download_can_finish_witness:
  "\<exists>req n0 n F. meet (replicate 1500 0) (example_meeting req) = Inr n0 \<and> runs (example_meeting req) n0 n \<and>
     length F = 524288 \<and> ps_written (nw_client n) = [(output_file example_config, F)]"
proof -
  obtain req where "reads_request req [replicate 20 1]" using example_request [of "replicate 20 1"] by auto
  note ok = example_meeting_ok [OF this]
  have w: "ps_written (mt_client (example_meeting req)) = []"
      "ps_config (mt_client (example_meeting req)) = example_config"
    by (simp_all add: example_meeting_sel example_peer_def)
  have p: "io_prev_ack (mt_io3 (example_meeting req)) \<noteq> 0"
    by (simp add: example_meeting_sel example_world_def example_io_def)
  have b: "\<forall>b \<in> set (ps_recv (mt_client (example_meeting req))).
      rb_offset b \<noteq> master_offset (mt_master (example_meeting req)) (mt_wanted (example_meeting req))"
    by (simp add: example_meeting_sel example_peer_def)
  from download_can_finish [OF ok length_replicate p b, of 0, unfolded w]
  obtain n0 n F where r: "meet (replicate 1500 0) (example_meeting req) = Inr n0" "runs (example_meeting req) n0 n"
      "chunk_of (mt_io3 (example_meeting req)) (ps_config (mt_server (example_meeting req)))
         (mt_master (example_meeting req)) (mt_wanted (example_meeting req)) F"
      "ps_written (nw_client n) = [(output_file example_config, F)]"
    by (elim exE conjE) (rule that)
  show ?thesis
    by (rule exI [of _ req], rule exI [of _ n0], rule exI [of _ n], rule exI [of _ F])
       (intro conjI r(1,2,4) chunk_of_length [OF r(3)])
qed

end
