(* ===== verification/Swarm.thy ===== *)
theory Swarm
  imports Download PeerLoop
begin

text \<open>
  A download from several servers at once: the client and, for every server, the datagrams between the two.
  Requests, offers, GET, DATA and ACK of the different servers are processed in any order, and each of them again
  and again, a chunk may be fetched from several servers, and the only file ever written is the concatenation
  of chunks that the servers hold, as long as the client takes no second offer from the same server. What happens
  otherwise is the last part: DATA packets do not say which chunk they belong to, so that a late packet of one
  chunk is stored as a packet of the next chunk from the same server.
\<close>

section \<open>Buffers of several transfers\<close>

text \<open>\<open>release_buffer\<close> changes none of what a transfer looks at.\<close>

definition same_data :: "recv_buffer_t list \<Rightarrow> recv_buffer_t list \<Rightarrow> bool" where
  "same_data l l' \<longleftrightarrow> (\<forall>node off F. fetching node off F l \<longrightarrow> fetching node off F l') \<and>
     (\<forall>node. got_from node l' = got_from node l) \<and> buffer_keys l' = buffer_keys l \<and>
     (\<forall>off. is_buffer_full off l' = is_buffer_full off l) \<and> (\<forall>off F. holds_chunk l off F \<longrightarrow> holds_chunk l' off F)"

lemma same_data_trans: "same_data l l' \<Longrightarrow> same_data l' l'' \<Longrightarrow> same_data l l''"
  by (simp add: same_data_def)

lemma find_map_same:
  "(\<And>x. P (f x) = P x) \<Longrightarrow> List.find P (map f l) = map_option f (List.find P l)"
  by (induction l) auto

lemma recv_wf_busy [simp]: "recv_wf F (b\<lparr>rb_busy := v\<rparr>) = recv_wf F b" "received (b\<lparr>rb_busy := v\<rparr>) = received b"
  by (simp_all add: recv_wf_def received_def)

lemma release_all_full [simp]: "is_buffer_full off (release_all offs l) = is_buffer_full off l"
proof -
  have "is_buffer_full_loop off (release_all offs l) r = is_buffer_full_loop off l r" for r
    by (induction l arbitrary: r) (simp_all add: release_all_def)
  then show ?thesis by (simp add: is_buffer_full_def)
qed

lemma release_all_same_data: "same_data l (release_all offs l)"
proof -
  let ?f = "\<lambda>b. if rb_offset b \<in> offs then b\<lparr>rb_busy := False\<rparr> else b"
  have r: "release_all offs l = map ?f l" by (simp add: release_all_def)
  have f: "get_recv_by_socket node (map ?f l) = map_option ?f (get_recv_by_socket node l)" for node
    unfolding get_recv_by_socket_def by (rule find_map_same) simp
  have g: "List.find (\<lambda>b. rb_offset b = o2) (map ?f l) = map_option ?f (List.find (\<lambda>b. rb_offset b = o2) l)" for o2
    by (rule find_map_same) simp
  have wf: "recv_wf F (?f b) = recv_wf F b" "received (?f b) = received b" for F b by simp_all
  have "fetching node o2 F (release_all offs l)" if fl: "fetching node o2 F l" for node o2 F
  proof -
    obtain b where b: "length F = 524288" "get_recv_by_socket node l = Some b" "rb_offset b = o2" "recv_wf F b"
      using fl unfolding fetching_def by blast
    then have "get_recv_by_socket node (map ?f l) = Some (?f b)" by (simp only: f option.map)
    moreover have "rb_offset (?f b) = o2" "recv_wf F (?f b)" using b(3,4) wf by simp_all
    ultimately show ?thesis using b(1) unfolding fetching_def r by blast
  qed
  moreover have "holds_chunk (release_all offs l) o2 F" if h: "holds_chunk l o2 F" for o2 F
  proof -
    obtain b where "length F = 524288" "List.find (\<lambda>b. rb_offset b = o2) l = Some b" "recv_wf F b"
      using h unfolding holds_chunk_def by blast
    then have "length F = 524288 \<and> List.find (\<lambda>b. rb_offset b = o2) (map ?f l) = Some (?f b) \<and> recv_wf F (?f b)"
      by (simp only: g wf option.map)
    then show ?thesis unfolding holds_chunk_def r by blast
  qed
  moreover have "got_from node (release_all offs l) = got_from node l" for node
    unfolding got_from_def r f by (cases "get_recv_by_socket node l") (simp_all add: wf)
  moreover have "buffer_keys (release_all offs l) = buffer_keys l"
    by (auto simp: buffer_keys_def release_all_def)
  ultimately show ?thesis by (simp add: same_data_def)
qed

lemma release_same_data: "same_data l (release_buffer off l)"
  using release_all_same_data [of l "{off}"] by (simp add: release_all_def release_buffer_def)

lemma release_full_same_data: "release_full offs l = (l', r) \<Longrightarrow> same_data l l'"
proof (induction offs arbitrary: l)
  case Nil
  then show ?case by (simp add: same_data_def)
next
  case (Cons off offs)
  show ?case
  proof (cases "is_buffer_full off l = 1")
    case True
    with Cons have "same_data (release_buffer off l) l'" by simp
    then show ?thesis by (rule same_data_trans [OF release_same_data])
  qed (use Cons.prems in \<open>simp add: same_data_def\<close>)
qed

lemma check_keeps_data:
  assumes "check_file_manager ok fm l = Inr (fm', l', None, r)" "fm_init fm"
  shows "fm' = fm \<and> same_data l l'"
proof -
  obtain offs where o: "manager_offsets fm = Inr offs"
    using assms by (auto simp: check_file_manager_def res_simps)
  obtain l1 b where r: "release_full offs l = (l1, b)" by fastforce
  with assms o have "fm' = fm \<and> l' = l1"
    by (cases b) (auto simp: check_file_manager_def res_simps split: if_splits)
  with release_full_same_data [OF r] show ?thesis by simp
qed

text \<open>A transfer does not touch the buffers of the others.\<close>

lemma fetching_buffer:
  assumes "fetching node off F l"
  obtains b where "get_recv_by_socket node l = Some b" "b \<in> set l" "recv_wf F b" "rb_socket b = node" "rb_offset b = off"
  using assms rcv.lookup_key [of node l] find_Some_in_set by (fastforce simp: fetching_def get_recv_by_socket_def)

lemma fetching_same_node: "fetching node o1 F l \<Longrightarrow> fetching node o2 G l \<Longrightarrow> o1 = o2"
  by (auto simp: fetching_def)

lemma push_other_buffer:
  assumes "fetching n1 o1 F l" "rb_socket b \<noteq> n1"
  shows "fetching n1 o1 F (b # l) \<and> got_from n1 (b # l) = got_from n1 l"
  using assms by (simp add: fetching_def got_from_def get_recv_by_socket_def)

lemma recv_datagram_other:
  assumes f2: "fetching n2 o2 G l" "k < 512" and e: "env_sane e"
    and r: "recv_datagram n2 e (data_msg G k) l = Inr (l', ms)"
    and f1: "fetching n1 o1 F l" "n1 \<noteq> n2"
  shows "fetching n1 o1 F l' \<and> got_from n1 l' = got_from n1 l"
proof -
  obtain b where b: "get_recv_by_socket n2 l = Some b" "recv_wf G b" "rb_socket b = n2"
    using fetching_buffer [OF f2(1)] by blast
  have len: "length G = 524288" "length (env_buf e) = 1500" "readable (env_beyond e)"
    using f2(1) e by (simp_all add: fetching_def env_sane_def)
  obtain b' where b': "recv_data (env_beyond e) (from_wire (env_buf e) (data_msg G k)) n2 l =
        Inr (put_recv b' l, [ack_pkt (rb_expected b')], Some (rb_offset b))"
      "recv_effect G k b b'"
    using recv_data_ok [OF b(1,2) f2(2) carries_data_msg [OF len(1) f2(2) len(2)] len(3)] by blast
  have l': "l' = put_recv b' l"
    using r b'(1) from_wire_data_msg [OF len(1) f2(2) len(2)]
    by (auto simp: recv_datagram_def to_wire_ack_pkt host_header_def Let_def)
  have "rb_socket b' = n2" using b'(2) b(3) by (simp add: recv_effect_def)
  then have "get_recv_by_socket n1 l' = get_recv_by_socket n1 l" using f1(2) unfolding l' by (simp add: rcv.store_other)
  with f1(1) show ?thesis by (simp add: fetching_def got_from_def)
qed

section \<open>A DATA packet among several chunks\<close>

lemma check_incomplete:
  assumes "manager_ready offs fm" "fm_init fm" "\<not> (\<forall>off \<in> set offs. is_buffer_full off l = 1)"
  shows "\<exists>l'. check_file_manager True fm l = Inr (fm, l', None, -1) \<and> same_data l l'"
proof -
  obtain l' b where r: "release_full offs l = (l', b)" by fastforce
  then have "release_full offs l = (l', False)" using release_full_result [OF r] assms(3) by simp
  with assms(1,2) release_full_same_data [OF r] show ?thesis
    by (simp add: check_file_manager_def manager_ready_def)
qed

lemma check_complete:
  assumes "manager_ready offs fm" "fm_init fm" "\<forall>off \<in> set offs. is_buffer_full off l = 1"
    and "\<forall>off \<in> set offs. \<exists>F. holds_chunk l off F \<and> P off F"
  shows "\<exists>l' Fs. check_file_manager True fm l = Inr (closed_manager fm, l', Some (concat Fs), 1) \<and> list_all2 P offs Fs"
proof -
  obtain f where f: "\<forall>off \<in> set offs. holds_chunk l off (f off) \<and> P off (f off)"
    using bchoice [OF assms(4)] by blast
  then have "list_all2 (holds_chunk l) offs (map f offs)" "list_all2 P offs (map f offs)"
    by (simp_all add: list_all2_map2 list_all2_same)
  with check_file_manager_result [OF assms(2) _ this(1)] assms(1,3) show ?thesis
    by (auto simp: manager_ready_def)
qed

lemma client_stores_one:
  assumes ok: "peer_ok ms C" and w: "world_ok ms (ps_config C) io" and buf: "length buf = 1500"
    and node: "node_of_addr server (peers (ps_config C)) = node" "node \<noteq> -1"
    and fetching: "fetching node off F (ps_recv C)" and k: "k < 512"
    and fm: "manager_ready offs (ps_fm C)" "fm_init (ps_fm C)" "off \<in> set offs"
    and held: "\<And>l ms. recv_datagram node \<lparr>env_buf = buf, env_beyond = io_beyond io\<rparr> (data_msg F k) (ps_recv C) = Inr (l, ms) \<Longrightarrow>
      \<forall>off \<in> set offs. is_buffer_full off l = 1 \<Longrightarrow> \<forall>off \<in> set offs. \<exists>F. holds_chunk l off F \<and> P off F"
  shows "\<exists>C' a l. process_inbound_udp io buf (data_msg F k) server C = Inr (C', [(server, ack_msg a)]) \<and>
    peer_ok ms C' \<and> ps_config C' = ps_config C \<and>
    recv_datagram node \<lparr>env_buf = buf, env_beyond = io_beyond io\<rparr> (data_msg F k) (ps_recv C) = Inr (l, [ack_msg a]) \<and>
    (if \<forall>off \<in> set offs. is_buffer_full off l = 1
     then \<not> fm_init (ps_fm C') \<and>
       (\<exists>Fs. ps_written C' = (output_file (ps_config C), concat Fs) # ps_written C \<and> list_all2 P offs Fs)
     else same_data l (ps_recv C') \<and> ps_written C' = ps_written C \<and> manager_ready offs (ps_fm C') \<and> fm_init (ps_fm C'))"
proof -
  obtain l a ts where r: "recv_datagram node \<lparr>env_buf = buf, env_beyond = io_beyond io\<rparr> (data_msg F k) (ps_recv C) =
        Inr (l, [ack_msg a])"
      "fetching node off F l" "manager_ready offs ((ps_fm C)\<lparr>fm_timer := Some ts\<rparr>)"
      "after_check ms io buf (data_msg F k) server C a ((ps_fm C)\<lparr>fm_timer := Some ts\<rparr>) l"
    using data_handled [OF ok w buf node fetching k fm] by blast
  let ?fm = "(ps_fm C)\<lparr>fm_timer := Some ts\<rparr>"
  have init: "fm_init ?fm" using fm(2) by simp
  have closed: "\<not> fm_init (closed_manager fm)" for fm by (simp add: closed_manager_def)
  show ?thesis
  proof (cases "\<forall>off \<in> set offs. is_buffer_full off l = 1")
    case True
    obtain l' Fs where c: "check_file_manager True ?fm l = Inr (closed_manager ?fm, l', Some (concat Fs), 1)" "list_all2 P offs Fs"
      using check_complete [OF r(3) init True held [OF r(1) True]] by blast
    from after_checkD [OF r(4) c(1)] obtain C' where
      "process_inbound_udp io buf (data_msg F k) server C = Inr (C', [(server, ack_msg a)])" "peer_ok ms C'"
      "ps_config C' = ps_config C" "ps_fm C' = closed_manager ?fm"
      "ps_written C' = (output_file (ps_config C), concat Fs) # ps_written C"
      by auto
    with r(1) True closed c(2) show ?thesis by (intro exI [of _ C'] exI [of _ a] exI [of _ l]) auto
  next
    case False
    obtain l' where c: "check_file_manager True ?fm l = Inr (?fm, l', None, -1)" "same_data l l'"
      using check_incomplete [OF r(3) init False] by blast
    from after_checkD [OF r(4) c(1)] obtain C' where
      "process_inbound_udp io buf (data_msg F k) server C = Inr (C', [(server, ack_msg a)])" "peer_ok ms C'"
      "ps_config C' = ps_config C" "ps_recv C' = l'" "ps_fm C' = ?fm" "ps_written C' = ps_written C"
      by auto
    with r(1,3) init False c(2) show ?thesis by (intro exI [of _ C'] exI [of _ a] exI [of _ l]) auto
  qed
qed


section \<open>The servers and the network\<close>

text \<open>
  A link: a server with its files, its address, the numbers under which the two peers know each other, the
  offers that it has sent, how far the handshake is (a GET that was sent stays under way), and the DATA and ACK
  datagrams between the two.
\<close>

datatype phase = Idle | Asked "byte list" | Sending "byte list"

record link =
  lk_addr :: sockaddr_in
  lk_id :: int
  lk_client_id :: int
  lk_server :: peer_st
  lk_files :: files
  lk_offers :: "byte list set"
  lk_phase :: phase
  lk_data :: "byte list set"
  lk_acks :: "byte list set"

record swarm =
  sw_client :: peer_st
  sw_links :: "link list"

text \<open>A request that the server can answer with an offer.\<close>

definition can_serve ::
  "(nat \<times> byte list) list \<Rightarrow> io \<Rightarrow> bt_config_t \<Rightarrow> byte list list \<Rightarrow> (nat \<times> byte list) list \<Rightarrow> bool" where
  "can_serve ms io config hs es \<longleftrightarrow> world_ok ms config io \<and> length hs < 60 \<and>
     io_fs io (has_chunk_file config) = Some (chunk_text es) \<and> (\<forall>e \<in> set es. length (snd e) = 20) \<and>
     length es \<le> 4 \<and> local_chunks es hs \<noteq> []"

text \<open>
  The steps: a request for chunks of the list reaches a server, for the first time or again; an offer
  reaches the client, which answers with GET, or passes it over; GET reaches the server, for the first time or
  again; DATA reaches the client, ACK a server; timers expire; the client asks again for stalled chunks,
  releasing their buffers. Datagrams that were sent stay in the network: each may arrive many times, late or never.

  One restriction: the client takes an offer only from a server that it never asked before (the condition on
  \<open>lk_id l\<close>). The chunk may be one that is being fetched from another server, or was. The code has no such
  restriction; without it \<open>late_packet_corrupts_file\<close> applies.
\<close>

inductive swarm_step ::
  "(nat \<times> byte list) list \<Rightarrow> sockaddr_in \<Rightarrow> int list \<Rightarrow> swarm \<Rightarrow> swarm \<Rightarrow> bool"
  for ms client offs where
  request_served: "i < length (sw_links s) \<Longrightarrow> l = sw_links s ! i \<Longrightarrow>
    can_serve ms io (ps_config (lk_server l)) hs es \<Longrightarrow> io_fs io = lk_files l \<Longrightarrow> length buf = 1500 \<Longrightarrow> reads_request req hs \<Longrightarrow>
    \<forall>h \<in> set hs. master_offset ms h = -1 \<or> master_offset ms h \<in> set offs \<Longrightarrow>
    process_inbound_udp io buf req client (lk_server l) = Inr (S, out) \<Longrightarrow>
    swarm_step ms client offs s
      (s\<lparr>sw_links := (sw_links s)[i := l\<lparr>lk_server := S, lk_offers := lk_offers l \<union> sent_to client out\<rparr>]\<rparr>)"
| offer_arrives: "i < length (sw_links s) \<Longrightarrow> l = sw_links s ! i \<Longrightarrow> m \<in> lk_offers l \<Longrightarrow> lk_phase l = Idle \<Longrightarrow>
    world_ok ms (ps_config (sw_client s)) io \<Longrightarrow> length buf = 1500 \<Longrightarrow> fm_init (ps_fm (sw_client s)) \<Longrightarrow>
    offers m hs \<Longrightarrow>
    List.find (\<lambda>h. master_offset ms h \<noteq> -1 \<and> \<not> busy_with (lk_id l) (master_offset ms h) (sw_client s)) hs = Some h \<Longrightarrow>
    lk_id l \<notin> fst ` set (buffer_keys (ps_recv (sw_client s))) \<Longrightarrow>
    process_inbound_udp io buf m (lk_addr l) (sw_client s) = Inr (C, out) \<Longrightarrow>
    swarm_step ms client offs s
      (s\<lparr>sw_client := C, sw_links := (sw_links s)[i := l\<lparr>lk_phase := Asked (only_message out)\<rparr>]\<rparr>)"
| offer_passed_over: "i < length (sw_links s) \<Longrightarrow> l = sw_links s ! i \<Longrightarrow> m \<in> lk_offers l \<Longrightarrow>
    world_ok ms (ps_config (sw_client s)) io \<Longrightarrow> length buf = 1500 \<Longrightarrow> fm_init (ps_fm (sw_client s)) \<Longrightarrow>
    offers m hs \<Longrightarrow>
    List.find (\<lambda>h. master_offset ms h \<noteq> -1 \<and> \<not> busy_with (lk_id l) (master_offset ms h) (sw_client s)) hs = None \<Longrightarrow>
    process_inbound_udp io buf m (lk_addr l) (sw_client s) = Inr (C, out) \<Longrightarrow>
    swarm_step ms client offs s (s\<lparr>sw_client := C\<rparr>)"
| get_arrives: "i < length (sw_links s) \<Longrightarrow> l = sw_links s ! i \<Longrightarrow> lk_phase l = Asked m \<or> lk_phase l = Sending m \<Longrightarrow>
    world_ok ms (ps_config (lk_server l)) io \<Longrightarrow> io_fs io = lk_files l \<Longrightarrow> length buf = 1500 \<Longrightarrow>
    process_inbound_udp io buf m client (lk_server l) = Inr (S, out) \<Longrightarrow>
    swarm_step ms client offs s
      (s\<lparr>sw_links := (sw_links s)[i := l\<lparr>lk_server := S, lk_phase := Sending m, lk_data := lk_data l \<union> sent_to client out\<rparr>]\<rparr>)"
| data_reaches: "i < length (sw_links s) \<Longrightarrow> l = sw_links s ! i \<Longrightarrow> m \<in> lk_data l \<Longrightarrow>
    world_ok ms (ps_config (sw_client s)) io \<Longrightarrow> length buf = 1500 \<Longrightarrow> fm_init (ps_fm (sw_client s)) \<Longrightarrow>
    process_inbound_udp io buf m (lk_addr l) (sw_client s) = Inr (C, out) \<Longrightarrow>
    swarm_step ms client offs s
      (s\<lparr>sw_client := C, sw_links := (sw_links s)[i := l\<lparr>lk_acks := lk_acks l \<union> sent_to (lk_addr l) out\<rparr>]\<rparr>)"
| ack_reaches: "i < length (sw_links s) \<Longrightarrow> l = sw_links s ! i \<Longrightarrow> m \<in> lk_acks l \<Longrightarrow>
    world_ok ms (ps_config (lk_server l)) io \<Longrightarrow> length buf = 1500 \<Longrightarrow>
    process_inbound_udp io buf m client (lk_server l) = Inr (S, out) \<Longrightarrow>
    swarm_step ms client offs s
      (s\<lparr>sw_links := (sw_links s)[i := l\<lparr>lk_server := S, lk_data := lk_data l \<union> sent_to client out\<rparr>]\<rparr>)"
| timers_run_out: "i < length (sw_links s) \<Longrightarrow> l = sw_links s ! i \<Longrightarrow>
    check_timeouts io (lk_server l) = Inr (S, out) \<Longrightarrow>
    swarm_step ms client offs s
      (s\<lparr>sw_links := (sw_links s)[i := l\<lparr>lk_server := S, lk_data := lk_data l \<union> sent_to client out\<rparr>]\<rparr>)"
| client_timers_run_out: "check_timeouts io (sw_client s) = Inr (C, out) \<Longrightarrow>
    swarm_step ms client offs s (s\<lparr>sw_client := C\<rparr>)"
| requests_repeated: "world_ok ms (ps_config (sw_client s)) io \<Longrightarrow> repeat_requests io (sw_client s) = Inr (C, out) \<Longrightarrow>
    swarm_step ms client offs s (s\<lparr>sw_client := C\<rparr>)"

inductive_cases swarm_stepE: "swarm_step ms client offs s s'"

abbreviation swarm_reach where
  "swarm_reach ms client offs \<equiv> (swarm_step ms client offs)\<^sup>*\<^sup>*"

text \<open>
  \<open>on_server ms srvs off F\<close>: among the servers, given by their configurations and files, there is one whose master
  data file has the bytes \<open>F\<close> at the place of the chunk with number \<open>off\<close>.
\<close>

definition on_server :: "(nat \<times> byte list) list \<Rightarrow> (bt_config_t \<times> files) set \<Rightarrow> int \<Rightarrow> byte list \<Rightarrow> bool" where
  "on_server ms srvs off F \<longleftrightarrow>
     (\<exists>(config, fs) \<in> srvs. \<exists>io h. io_fs io = fs \<and> master_offset ms h = off \<and> chunk_of io config ms h F)"

section \<open>The invariant\<close>

text \<open>
  \<open>has_chunk ms l h F\<close>: the server of the link has the bytes \<open>F\<close> as the chunk with hash \<open>h\<close>.
\<close>

definition has_chunk :: "(nat \<times> byte list) list \<Rightarrow> link \<Rightarrow> byte list \<Rightarrow> byte list \<Rightarrow> bool" where
  "has_chunk ms l h F \<longleftrightarrow> (\<exists>io. io_fs io = lk_files l \<and> chunk_of io (ps_config (lk_server l)) ms h F)"

lemma has_chunk_unique:
  "has_chunk ms l h F \<Longrightarrow> chunk_of io (ps_config (lk_server l)) ms h G \<Longrightarrow> io_fs io = lk_files l \<Longrightarrow> G = F"
  using chunk_of_unique by (fastforce simp: has_chunk_def)

text \<open>What holds of a link, by the phase of its handshake, when the client has the buffers \<open>bufs\<close>.\<close>

abbreviation link_transfer :: "link \<Rightarrow> recv_buffer_t list \<Rightarrow> (sender_st \<times> packet_tracker_t list, recv_buffer_t list) sys" where
  "link_transfer l bufs \<equiv> \<lparr>sndr = (ps_sender (lk_server l), ps_tracker (lk_server l)), rcvr = bufs,
     data_net = lk_data l, ack_net = lk_acks l\<rparr>"

fun phase_ok :: "(nat \<times> byte list) list \<Rightarrow> int list \<Rightarrow> link \<Rightarrow> recv_buffer_t list \<Rightarrow> phase \<Rightarrow> bool" where
  "phase_ok ms offs l bufs Idle \<longleftrightarrow> lk_data l = {} \<and> lk_acks l = {}"
| "phase_ok ms offs l bufs (Asked m) \<longleftrightarrow> lk_data l = {} \<and> lk_acks l = {} \<and>
     (\<exists>h. m = get_msg h \<and> length h = 20 \<and> h \<in> snd ` set ms \<and> master_offset ms h \<in> set offs \<and>
        got_from (lk_id l) bufs = {} \<and>
        (\<forall>F. length F = 524288 \<longrightarrow> fetching (lk_id l) (master_offset ms h) F bufs))"
| "phase_ok ms offs l bufs (Sending m) \<longleftrightarrow>
     (\<exists>h F. m = get_msg h \<and> length h = 20 \<and> h \<in> snd ` set ms \<and> master_offset ms h \<in> set offs \<and> has_chunk ms l h F \<and>
        ct.sys_inv F (lk_client_id l) (lk_id l) (master_offset ms h) (link_transfer l bufs))"

definition link_ok ::
  "(nat \<times> byte list) list \<Rightarrow> sockaddr_in \<Rightarrow> (bt_config_t \<times> files) set \<Rightarrow> int list \<Rightarrow> bt_peer_t list \<Rightarrow> link \<Rightarrow> recv_buffer_t list \<Rightarrow> bool" where
  "link_ok ms client srvs offs known l bufs \<longleftrightarrow>
     peer_ok ms (lk_server l) \<and> (ps_config (lk_server l), lk_files l) \<in> srvs \<and>
     node_of_addr client (peers (ps_config (lk_server l))) = lk_client_id l \<and> lk_client_id l \<noteq> -1 \<and>
     node_of_addr (lk_addr l) known = lk_id l \<and> lk_id l \<noteq> -1 \<and>
     (\<forall>m \<in> lk_offers l. \<forall>hs. offers m hs \<longrightarrow> (\<forall>h \<in> set hs. master_offset ms h = -1 \<or> master_offset ms h \<in> set offs)) \<and>
     timed client (lk_data l) (ps_tracker (lk_server l)) \<and> phase_ok ms offs l bufs (lk_phase l)"

text \<open>What a sending server transfers is a chunk of the list that it has.\<close>

lemma sending_transfer:
  assumes "link_ok ms client srvs offs known l bufs" "lk_phase l = Sending m"
  obtains h off F where "m = get_msg h" "length h = 20" "h \<in> snd ` set ms" "master_offset ms h = off" "off \<in> set offs"
    "has_chunk ms l h F" "on_server ms srvs off F" "ct.sys_inv F (lk_client_id l) (lk_id l) off (link_transfer l bufs)"
    "fetching (lk_id l) off F bufs"
proof -
  obtain h F where h: "m = get_msg h" "length h = 20" "h \<in> snd ` set ms" "master_offset ms h \<in> set offs" "has_chunk ms l h F"
      "ct.sys_inv F (lk_client_id l) (lk_id l) (master_offset ms h) (link_transfer l bufs)"
      "(ps_config (lk_server l), lk_files l) \<in> srvs"
    using assms by (auto simp: link_ok_def)
  have "on_server ms srvs (master_offset ms h) F" using h(5,7) unfolding on_server_def has_chunk_def by blast
  then show thesis using h that by (simp add: ct.sys_inv_def)
qed

fun active :: "phase \<Rightarrow> bool" where
  "active Idle = False" | "active (Asked m) = True" | "active (Sending m) = True"

definition links_ok ::
  "(nat \<times> byte list) list \<Rightarrow> sockaddr_in \<Rightarrow> (bt_config_t \<times> files) set \<Rightarrow> int list \<Rightarrow> bt_peer_t list \<Rightarrow> link list
     \<Rightarrow> recv_buffer_t list \<Rightarrow> bool" where
  "links_ok ms client srvs offs known ls bufs \<longleftrightarrow> distinct (map lk_id ls) \<and>
     (\<forall>j < length ls. link_ok ms client srvs offs known (ls ! j) bufs) \<and>
     (\<forall>k \<in> set (buffer_keys bufs). snd k \<in> set offs \<longrightarrow>
        (\<exists>j < length ls. active (lk_phase (ls ! j)) \<and> lk_id (ls ! j) = fst k \<and> (\<exists>F. fetching (fst k) (snd k) F bufs)))"

definition swarm_ok ::
  "(nat \<times> byte list) list \<Rightarrow> sockaddr_in \<Rightarrow> (bt_config_t \<times> files) set \<Rightarrow> int list \<Rightarrow> byte list \<Rightarrow> (byte list \<times> byte list) list
     \<Rightarrow> swarm \<Rightarrow> bool" where
  "swarm_ok ms client srvs offs out before s \<longleftrightarrow>
     peer_ok ms (sw_client s) \<and> fm_init (ps_fm (sw_client s)) \<and> manager_ready offs (ps_fm (sw_client s)) \<and>
     output_file (ps_config (sw_client s)) = out \<and> ps_written (sw_client s) = before \<and>
     links_ok ms client srvs offs (peers (ps_config (sw_client s))) (sw_links s) (ps_recv (sw_client s))"

lemma swarm_ok_C:
  assumes "swarm_ok ms client srvs offs out before s"
  shows "peer_ok ms (sw_client s)" "fm_init (ps_fm (sw_client s))" "manager_ready offs (ps_fm (sw_client s))"
    "links_ok ms client srvs offs (peers (ps_config (sw_client s))) (sw_links s) (ps_recv (sw_client s))"
  using assms by (simp_all add: swarm_ok_def)

definition swarm_done ::
  "(nat \<times> byte list) list \<Rightarrow> (bt_config_t \<times> files) set \<Rightarrow> int list \<Rightarrow> byte list \<Rightarrow> (byte list \<times> byte list) list \<Rightarrow> swarm \<Rightarrow> bool" where
  "swarm_done ms srvs offs out before s \<longleftrightarrow> \<not> fm_init (ps_fm (sw_client s)) \<and>
     (\<exists>Fs. ps_written (sw_client s) = (out, concat Fs) # before \<and> list_all2 (on_server ms srvs) offs Fs)"

definition keeps_transfer :: "int \<Rightarrow> recv_buffer_t list \<Rightarrow> recv_buffer_t list \<Rightarrow> bool" where
  "keeps_transfer node bufs bufs' \<longleftrightarrow> (\<forall>off F. fetching node off F bufs \<longrightarrow>
     fetching node off F bufs' \<and> got_from node bufs' = got_from node bufs)"

lemma sys_inv_frame:
  assumes "ct.sys_inv F cnode node off s" "keeps_transfer node (rcvr s) bufs"
  shows "ct.sys_inv F cnode node off (s\<lparr>rcvr := bufs\<rparr>)"
proof -
  have "fetching node off F (rcvr s)" using assms(1) by (simp add: ct.sys_inv_def)
  then have "fetching node off F bufs" "got_from node bufs = got_from node (rcvr s)"
    using assms(2) by (simp_all add: keeps_transfer_def)
  with assms(1) show ?thesis by (simp add: ct.sys_inv_def ct.started_def ct.cumulative_def)
qed

lemma phase_ok_frame:
  assumes "phase_ok ms offs l bufs p" "keeps_transfer (lk_id l) bufs bufs'"
  shows "phase_ok ms offs l bufs' p"
proof (cases p)
  case (Asked m)
  obtain h where h: "m = get_msg h" "length h = 20" "h \<in> snd ` set ms" "master_offset ms h \<in> set offs"
      "got_from (lk_id l) bufs = {}" "\<forall>F. length F = 524288 \<longrightarrow> fetching (lk_id l) (master_offset ms h) F bufs"
    using assms(1) Asked by auto
  then have f: "\<forall>F. length F = 524288 \<longrightarrow> fetching (lk_id l) (master_offset ms h) F bufs'"
    using assms(2) unfolding keeps_transfer_def by blast
  have "fetching (lk_id l) (master_offset ms h) (replicate 524288 0) bufs" using h(6) by simp
  then have "got_from (lk_id l) bufs' = {}" using assms(2) h(5) unfolding keeps_transfer_def by blast
  with assms(1) Asked h(1-4) f show ?thesis by auto
next
  case (Sending m)
  with assms(1) obtain h F where h: "m = get_msg h" "length h = 20" "h \<in> snd ` set ms" "master_offset ms h \<in> set offs"
      "has_chunk ms l h F" "ct.sys_inv F (lk_client_id l) (lk_id l) (master_offset ms h) (link_transfer l bufs)"
    by auto
  have "ct.sys_inv F (lk_client_id l) (lk_id l) (master_offset ms h) (link_transfer l bufs')"
    using sys_inv_frame [OF h(6), of bufs'] assms(2) by simp
  with h(1-5) Sending show ?thesis by auto
qed (use assms in simp_all)

lemma link_ok_frame:
  "link_ok ms client srvs offs known l bufs \<Longrightarrow> keeps_transfer (lk_id l) bufs bufs' \<Longrightarrow>
     link_ok ms client srvs offs known l bufs'"
  using phase_ok_frame by (auto simp: link_ok_def)

lemma keeps_transfer_refl [simp]: "keeps_transfer node bufs bufs"
  by (simp add: keeps_transfer_def)

lemma same_data_keeps: "same_data bufs bufs' \<Longrightarrow> keeps_transfer node bufs bufs'"
  by (simp add: same_data_def keeps_transfer_def)

lemma distinct_ids:
  "distinct (map lk_id ls) \<Longrightarrow> i < length ls \<Longrightarrow> j < length ls \<Longrightarrow> i \<noteq> j \<Longrightarrow> lk_id (ls ! i) \<noteq> lk_id (ls ! j)"
  by (metis distinct_conv_nth length_map nth_map)

text \<open>A step of one link keeps the links well-formed when it keeps that one so and the other transfers.\<close>

lemma links_ok_step:
  assumes ok: "links_ok ms client srvs offs known ls bufs" and i: "i < length ls"
    and l: "lk_id l = lk_id (ls ! i)" "link_ok ms client srvs offs known l bufs'"
    and others: "\<And>node. node \<noteq> lk_id l \<Longrightarrow> keeps_transfer node bufs bufs'"
    and keys: "\<And>k. k \<in> set (buffer_keys bufs') \<Longrightarrow> snd k \<in> set offs \<Longrightarrow> k \<notin> set (buffer_keys bufs) \<or> fst k = lk_id l \<Longrightarrow>
      active (lk_phase l) \<and> fst k = lk_id l \<and> (\<exists>F. fetching (fst k) (snd k) F bufs')"
  shows "links_ok ms client srvs offs known (ls[i := l]) bufs'"
proof -
  let ?ls = "ls[i := l]"
  have d: "distinct (map lk_id ls)" using ok by (simp add: links_ok_def)
  have ids: "map lk_id ?ls = map lk_id ls" using l(1) i by (simp add: map_update list_update_same_conv)
  have "link_ok ms client srvs offs known (?ls ! j) bufs'" if j: "j < length ls" for j
  proof (cases "j = i")
    case True
    with l(2) i show ?thesis by simp
  next
    case False
    then have "lk_id (ls ! j) \<noteq> lk_id l" using distinct_ids [OF d i j] l(1) by simp
    from link_ok_frame [OF _ others [OF this]] ok j False show ?thesis by (simp add: links_ok_def)
  qed
  moreover have "\<exists>j < length ?ls. active (lk_phase (?ls ! j)) \<and> lk_id (?ls ! j) = fst k \<and> (\<exists>F. fetching (fst k) (snd k) F bufs')"
    if k: "k \<in> set (buffer_keys bufs')" "snd k \<in> set offs" for k
  proof (cases "k \<notin> set (buffer_keys bufs) \<or> fst k = lk_id l")
    case True
    then have "active (lk_phase l)" "lk_id l = fst k" "\<exists>F. fetching (fst k) (snd k) F bufs'"
      using keys [OF k True] by simp_all metis
    with i show ?thesis by (intro exI [of _ i]) simp
  next
    case False
    then obtain j F where j: "j < length ls" "active (lk_phase (ls ! j))" "lk_id (ls ! j) = fst k"
        "fetching (fst k) (snd k) F bufs"
      using ok k(2) unfolding links_ok_def by blast
    have "fetching (fst k) (snd k) F bufs'" using others [of "fst k"] False j(4) by (simp add: keeps_transfer_def)
    moreover have "j \<noteq> i" using False j(3) l(1) by auto
    ultimately show ?thesis using j by (intro exI [of _ j]) auto
  qed
  ultimately show ?thesis using ids d unfolding links_ok_def by simp
qed

text \<open>Steps of a server leave the buffers alone.\<close>

lemma links_ok_server:
  assumes ok: "links_ok ms client srvs offs known ls bufs" and i: "i < length ls"
    and l: "lk_id l = lk_id (ls ! i)" "active (lk_phase (ls ! i)) \<Longrightarrow> active (lk_phase l)" "link_ok ms client srvs offs known l bufs"
  shows "links_ok ms client srvs offs known (ls[i := l]) bufs"
proof (rule links_ok_step [OF ok i l(1,3) keeps_transfer_refl])
  fix k assume k: "k \<in> set (buffer_keys bufs)" "snd k \<in> set offs" "k \<notin> set (buffer_keys bufs) \<or> fst k = lk_id l"
  then obtain j F where j: "j < length ls" "active (lk_phase (ls ! j))" "lk_id (ls ! j) = fst k" "fetching (fst k) (snd k) F bufs"
    using ok unfolding links_ok_def by blast
  have "j = i" using distinct_ids [of ls i j] ok i j(1,3) k(1,3) l(1) unfolding links_ok_def by metis
  then show "active (lk_phase l) \<and> fst k = lk_id l \<and> (\<exists>F. fetching (fst k) (snd k) F bufs)"
    using l(2) j k(1,3) by blast
qed

lemma links_ok_same_data:
  "links_ok ms client srvs offs known ls bufs \<Longrightarrow> same_data bufs bufs' \<Longrightarrow> links_ok ms client srvs offs known ls bufs'"
  using link_ok_frame [OF _ same_data_keeps] unfolding links_ok_def same_data_def by metis

section \<open>Complete chunks\<close>

lemma idle_not_full:
  assumes "\<forall>F. length F = 524288 \<longrightarrow> fetching node off F bufs" "got_from node bufs = {}"
  shows "is_buffer_full off bufs \<noteq> 1"
proof
  assume full: "is_buffer_full off bufs = 1"
  have "length (replicate 524288 0 :: byte list) = 524288" by simp
  with assms(1) have f: "fetching node off (replicate 524288 0) bufs" by blast
  obtain b where b: "get_recv_by_socket node bufs = Some b" "b \<in> set bufs" "recv_wf (replicate 524288 0) b" "rb_offset b = off"
    using fetching_buffer [OF f] by blast
  have "rb_total_recv b = 524288" using full b(2,4) unfolding is_buffer_full_iff by blast
  then have "{..<512 :: nat} = {}" using full_received [OF b(3)] assms(2) b(1) by (simp add: got_from_def)
  moreover have "(0 :: nat) \<in> {..<512}" by simp
  ultimately show False by blast
qed

text \<open>The first buffer of a complete chunk, which is the one that is written, is that of a sending server.\<close>

lemma first_leads:
  "List.find (\<lambda>b. rb_offset b = off) l = Some b \<Longrightarrow> leads (rb_socket b) off l"
  by (induction l) (auto simp: leads_def buffer_keys_def split: if_splits)

lemma all_held:
  assumes ok: "links_ok ms client srvs offs known ls bufs"
    and off: "off \<in> set offs" "is_buffer_full off bufs = 1"
  shows "\<exists>F. holds_chunk bufs off F \<and> on_server ms srvs off F"
proof -
  have "\<exists>b \<in> set bufs. rb_offset b = off" using off(2) unfolding is_buffer_full_iff by blast
  then obtain b where b: "List.find (\<lambda>b. rb_offset b = off) bufs = Some b"
    by (cases "List.find (\<lambda>b. rb_offset b = off) bufs") (auto simp: find_None_iff)
  then have "b \<in> set bufs" "rb_offset b = off" using find_Some_in_set by force+
  then have "(rb_socket b, off) \<in> set (buffer_keys bufs)" by (auto simp: buffer_keys_def)
  with ok off(1) obtain j G where j: "j < length ls" "active (lk_phase (ls ! j))" "lk_id (ls ! j) = rb_socket b"
      "fetching (lk_id (ls ! j)) off G bufs"
    unfolding links_ok_def by fastforce
  have lok: "link_ok ms client srvs offs known (ls ! j) bufs" using ok j(1) by (simp add: links_ok_def)
  show ?thesis
  proof (cases "lk_phase (ls ! j)")
    case (Asked m)
    with lok obtain h where h: "got_from (lk_id (ls ! j)) bufs = {}"
        "\<forall>F. length F = 524288 \<longrightarrow> fetching (lk_id (ls ! j)) (master_offset ms h) F bufs"
      by (auto simp: link_ok_def)
    have "length G = 524288" using j(4) by (simp add: fetching_def)
    with h(2) have "master_offset ms h = off" using fetching_same_node [OF _ j(4)] by blast
    with idle_not_full [OF h(2,1)] off(2) show ?thesis by blast
  next
    case (Sending m)
    obtain o2 F where F: "on_server ms srvs o2 F" "fetching (lk_id (ls ! j)) o2 F bufs"
      using sending_transfer [OF lok Sending] by blast
    then have "o2 = off" using fetching_same_node [OF _ j(4)] by blast
    with F leads_holds [OF first_leads [OF b]] j(3) show ?thesis by auto
  qed (use j(2) in simp)
qed

section \<open>The steps of the handshake\<close>

lemma offers_unique:
  assumes "offers m hs" "offers m hs'" shows "hs = hs'"
proof -
  have b: "length (replicate 1500 (0 :: byte)) = 1500" by simp
  have r: "packet_count (from_wire (replicate 1500 0) m) = Inr (int (length hs))"
      "packet_count (from_wire (replicate 1500 0) m) = Inr (int (length hs'))"
      "\<forall>i < length hs. packet_hash (from_wire (replicate 1500 0) m) i = Inr (hs ! i)"
      "\<forall>i < length hs'. packet_hash (from_wire (replicate 1500 0) m) i = Inr (hs' ! i)"
    using assms b unfolding offers_def by blast+
  then have l: "length hs = length hs'" by simp
  show ?thesis
  proof (rule nth_equalityI [OF l])
    fix i assume i: "i < length hs"
    with l r(3,4) have "(Inr (hs ! i) :: byte list res) = Inr (hs' ! i)" by metis
    then show "hs ! i = hs' ! i" by simp
  qed
qed

lemma request_step:
  assumes l: "link_ok ms client srvs offs known l bufs"
    and r: "can_serve ms io (ps_config (lk_server l)) hs es" "length buf = 1500" "reads_request req hs"
      "\<forall>h \<in> set hs. master_offset ms h = -1 \<or> master_offset ms h \<in> set offs"
    and p: "process_inbound_udp io buf req client (lk_server l) = Inr (S, out)"
  shows "link_ok ms client srvs offs known (l\<lparr>lk_server := S, lk_offers := lk_offers l \<union> sent_to client out\<rparr>) bufs"
proof -
  have s: "peer_ok ms (lk_server l)" "node_of_addr client (peers (ps_config (lk_server l))) = lk_client_id l" "lk_client_id l \<noteq> -1"
    using l by (simp_all add: link_ok_def)
  have c: "world_ok ms (ps_config (lk_server l)) io" "length hs < 60"
      "io_fs io (has_chunk_file (ps_config (lk_server l))) = Some (chunk_text es)" "\<forall>e \<in> set es. length (snd e) = 20"
      "length es \<le> 4" "local_chunks es hs \<noteq> []"
    using r(1) by (simp_all add: can_serve_def)
  obtain offer where o: "process_inbound_udp io buf req client (lk_server l) = Inr (lk_server l, [(client, offer)])"
      "offers offer (local_chunks es hs)"
    using request_offered [OF s(1) c(1) r(2) s(2,3) r(3) c(2-6)] by blast
  have "\<forall>hs'. offers offer hs' \<longrightarrow> (\<forall>h \<in> set hs'. master_offset ms h = -1 \<or> master_offset ms h \<in> set offs)"
  proof (intro allI impI ballI)
    fix hs' h assume "offers offer hs'" "h \<in> set hs'"
    then have "h \<in> set (local_chunks es hs)" using offers_unique [OF o(2)] by simp
    then have "h \<in> set hs" by (simp add: local_chunks_def)
    with r(4) show "master_offset ms h = -1 \<or> master_offset ms h \<in> set offs" by blast
  qed
  moreover have "S = lk_server l" "sent_to client out = {offer}" using o(1) p by (simp_all add: sent_to_def)
  moreover have "phase_ok ms offs (l\<lparr>lk_offers := ofs\<rparr>) bufs (lk_phase l)" for ofs
    using l by (cases "lk_phase l") (auto simp: link_ok_def has_chunk_def)
  ultimately show ?thesis using l by (auto simp: link_ok_def)
qed

text \<open>GET starts the transfer; a repeated GET starts it again, with the same bytes.\<close>

lemma get_step:
  assumes l: "link_ok ms client srvs offs known l bufs" "lk_phase l = Asked m \<or> lk_phase l = Sending m"
    and w: "world_ok ms (ps_config (lk_server l)) io" "length buf = 1500" and fs: "io_fs io = lk_files l"
    and p: "process_inbound_udp io buf m client (lk_server l) = Inr (S, out)"
  shows "link_ok ms client srvs offs known
    (l\<lparr>lk_server := S, lk_phase := Sending m, lk_data := lk_data l \<union> sent_to client out\<rparr>) bufs"
proof -
  let ?node = "lk_client_id l"
  have s: "peer_ok ms (lk_server l)" "node_of_addr client (peers (ps_config (lk_server l))) = ?node" "?node \<noteq> -1"
      "timed client (lk_data l) (ps_tracker (lk_server l))"
    using l(1) by (auto simp: link_ok_def)
  have "phase_ok ms offs l bufs (lk_phase l)" using l(1) by (simp add: link_ok_def)
  with l(2) have "\<exists>h. m = get_msg h \<and> length h = 20 \<and> h \<in> snd ` set ms \<and> master_offset ms h \<in> set offs"
    by (elim disjE) (simp, blast)+
  then obtain h where h: "m = get_msg h" "length h = 20" "h \<in> snd ` set ms" "master_offset ms h \<in> set offs" by blast
  obtain S' F where g: "process_inbound_udp io buf (get_msg h) client (lk_server l) = Inr (S', [(client, data_msg F 0)])"
      "chunk_of io (ps_config (lk_server l)) ms h F" "peer_ok ms S'" "ps_config S' = ps_config (lk_server l)"
      "timed client (lk_data l \<union> {data_msg F 0}) (ps_tracker S')" "serving ?node F (ps_sender S', ps_tracker S')"
      "acked_by ?node (ps_sender S', ps_tracker S') = {}"
    using get_serves [OF s(1) w s(2,3) h(2,3) s(4)] by blast
  have S: "S = S'" "sent_to client out = {data_msg F 0}" using p g(1) unfolding h(1) by (auto simp: sent_to_def)
  have has: "has_chunk ms l h F" using fs g(2) unfolding has_chunk_def by blast
  have "fetching (lk_id l) (master_offset ms h) F bufs \<and>
      (\<forall>n \<in> lk_data l. ct.started F (lk_id l) bufs n) \<and> (\<forall>n \<in> lk_acks l. ct.cumulative (lk_id l) bufs n)"
    using l(2)
  proof
    assume "lk_phase l = Asked m"
    with l(1) obtain h' where h': "m = get_msg h'" "length h' = 20"
        "\<forall>F. length F = 524288 \<longrightarrow> fetching (lk_id l) (master_offset ms h') F bufs" "lk_data l = {}" "lk_acks l = {}"
      by (auto simp: link_ok_def)
    have "h' = h" using get_msg_read(2) [of h "replicate 1500 0"] get_msg_read(2) [of h' "replicate 1500 0"] h(1,2) h'(1,2) by simp
    then show ?thesis using h'(3-5) chunk_of_length [OF g(2)] by simp
  next
    assume "lk_phase l = Sending m"
    then obtain h' off' F' where h': "m = get_msg h'" "length h' = 20" "master_offset ms h' = off'" "has_chunk ms l h' F'"
        "ct.sys_inv F' (lk_client_id l) (lk_id l) off' (link_transfer l bufs)"
      using sending_transfer [OF l(1)] by metis
    have "h' = h" using get_msg_read(2) [of h "replicate 1500 0"] get_msg_read(2) [of h' "replicate 1500 0"] h(1,2) h'(1,2) by simp
    moreover have "F = F'" using has_chunk_unique [OF h'(4) _ fs] g(2) \<open>h' = h\<close> by blast
    ultimately show ?thesis using h'(3,5) by (simp add: ct.sys_inv_def)
  qed
  moreover have "ct.started F (lk_id l) bufs (data_msg F 0)" unfolding ct.started_def by (intro exI [of _ 0]) simp
  ultimately have "ct.sys_inv F ?node (lk_id l) (master_offset ms h)
      \<lparr>sndr = (ps_sender S', ps_tracker S'), rcvr = bufs, data_net = lk_data l \<union> {data_msg F 0}, ack_net = lk_acks l\<rparr>"
    using g(6,7) by (simp add: ct.sys_inv_def)
  then have "phase_ok ms offs (l\<lparr>lk_server := S', lk_phase := Sending m, lk_data := lk_data l \<union> {data_msg F 0}\<rparr>) bufs (Sending m)"
    using h has g(4) by (auto simp: has_chunk_def)
  with l(1) g(3-5) show ?thesis unfolding S link_ok_def by simp
qed

lemma buffer_opened:
  assumes ok: "links_ok ms client srvs offs known ls bufs" "i < length ls" "l = ls ! i" "lk_phase l = Idle"
    and off: "off = master_offset ms h" "off \<in> set offs" "h \<in> snd ` set ms" "length h = 20"
    and fresh: "lk_id l \<notin> fst ` set (buffer_keys bufs)" and u: "length uninit = 1500"
    and bufs: "bufs' = fresh_buffer uninit off (lk_id l) # bufs" "init_recv_buffer uninit off (lk_id l) bufs = (bufs', 1)"
  shows "links_ok ms client srvs offs known (ls[i := l\<lparr>lk_phase := Asked (get_msg h)\<rparr>]) bufs'"
proof (rule links_ok_step [OF ok(1,2)])
  let ?l = "l\<lparr>lk_phase := Asked (get_msg h)\<rparr>"
  have lok: "link_ok ms client srvs offs known l bufs" using ok by (simp add: links_ok_def)
  have fetch: "fetching (lk_id l) off F bufs'" "got_from (lk_id l) bufs' = {}" if "length F = 524288" for F
    using fresh_fetching [OF that u, of off "lk_id l" bufs] bufs(2) by simp_all
  have keys: "rb_socket (fresh_buffer uninit off (lk_id l)) = lk_id l" "rb_offset (fresh_buffer uninit off (lk_id l)) = off"
    by (simp_all add: fresh_buffer_def)
  obtain F :: "byte list" where F: "length F = 524288" by (rule that [of "replicate 524288 0"]) simp
  show "lk_id ?l = lk_id (ls ! i)" using ok(3) by simp
  show "link_ok ms client srvs offs known ?l bufs'"
    using lok ok(4) off fetch(1) fetch(2) [OF F] by (auto simp: link_ok_def)
  show "keeps_transfer node bufs bufs'" if n: "node \<noteq> lk_id ?l" for node
    unfolding keeps_transfer_def
  proof (intro allI impI)
    fix o2 G assume f: "fetching node o2 G bufs"
    from push_other_buffer [OF f, of "fresh_buffer uninit off (lk_id l)"] n keys
    show "fetching node o2 G bufs' \<and> got_from node bufs' = got_from node bufs"
      unfolding bufs(1) by simp
  qed
  fix k assume k: "k \<in> set (buffer_keys bufs')" "k \<notin> set (buffer_keys bufs) \<or> fst k = lk_id ?l"
  then have "k \<notin> set (buffer_keys bufs)" using fresh by force
  with k(1) have "k = (lk_id l, off)" unfolding bufs(1) by (simp add: buffer_keys_def keys)
  with fetch(1) [OF F] show "active (lk_phase ?l) \<and> fst k = lk_id ?l \<and> (\<exists>F. fetching (fst k) (snd k) F bufs')"
    by auto
qed

lemma offer_step:
  assumes C: "peer_ok ms C" "fm_init (ps_fm C)" "manager_ready offs (ps_fm C)"
    and ok: "links_ok ms client srvs offs (peers (ps_config C)) ls (ps_recv C)" "i < length ls" "l = ls ! i"
    and p: "m \<in> lk_offers l" "lk_phase l = Idle" "world_ok ms (ps_config C) io" "length buf = 1500" "offers m hs"
      "List.find (\<lambda>h. master_offset ms h \<noteq> -1 \<and> \<not> busy_with (lk_id l) (master_offset ms h) C) hs = Some h"
      "lk_id l \<notin> fst ` set (buffer_keys (ps_recv C))"
      "process_inbound_udp io buf m (lk_addr l) C = Inr (C', out)"
  shows "peer_ok ms C' \<and> fm_init (ps_fm C') \<and> manager_ready offs (ps_fm C') \<and> ps_config C' = ps_config C \<and>
    ps_written C' = ps_written C \<and> (\<exists>uninit. ps_recv C' = fresh_buffer uninit (master_offset ms h) (lk_id l) # ps_recv C) \<and> master_offset ms h \<in> set offs \<and>
    links_ok ms client srvs offs (peers (ps_config C)) (ls[i := l\<lparr>lk_phase := Asked (only_message out)\<rparr>]) (ps_recv C')"
proof -
  let ?off = "master_offset ms h" and ?l = "l\<lparr>lk_phase := Asked (only_message out)\<rparr>"
  have lok: "link_ok ms client srvs offs (peers (ps_config C)) l (ps_recv C)" using ok by (simp add: links_ok_def)
  then have l: "node_of_addr (lk_addr l) (peers (ps_config C)) = lk_id l" "lk_id l \<noteq> -1"
      "\<forall>h \<in> set hs. master_offset ms h = -1 \<or> master_offset ms h \<in> set offs"
    using p(1,5) by (auto simp: link_ok_def)
  then have known: "\<forall>h \<in> set hs. master_offset ms h = -1 \<or> master_offset ms h \<in> set (offsets_of (ps_fm C))"
    using manager_readyD [OF C(3)] by simp
  have h: "h \<in> set hs" "?off \<noteq> -1" using find_Some_in_set [OF p(6)] by simp_all
  then have off: "?off \<in> set offs" "h \<in> snd ` set ms" using l(3) master_offset_known by auto
  obtain C1 where c: "process_inbound_udp io buf m (lk_addr l) C = Inr (C1, [(lk_addr l, get_msg h)])" "length h = 20"
      "ps_recv C1 = fst (init_recv_buffer (io_content io) ?off (lk_id l) (ps_recv C))"
      "snd (init_recv_buffer (io_content io) ?off (lk_id l) (ps_recv C)) = 1"
      "peer_ok ms C1" "ps_config C1 = ps_config C" "ps_written C1 = ps_written C" "fm_init (ps_fm C1)"
      "\<forall>offs. manager_ready offs (ps_fm C) \<longrightarrow> manager_ready offs (ps_fm C1)"
    using offer_taken [OF C(1) p(3,4) l(1,2) p(5) C(2) known p(6)] by blast
  have C': "C' = C1" "only_message out = get_msg h" using c(1) p(8) by auto
  have content: "length (io_content io) = 1500" using p(3) by (simp add: world_ok_def)
  have bufs: "ps_recv C1 = fresh_buffer (io_content io) ?off (lk_id l) # ps_recv C"
    using c(3,4) by (auto simp: init_recv_buffer_def split: if_splits)
  have "init_recv_buffer (io_content io) ?off (lk_id l) (ps_recv C) = (ps_recv C1, 1)"
    using c(3,4) by (simp add: prod_eq_iff)
  from buffer_opened [OF ok p(2) refl off c(2) p(7) content bufs this]
  have "links_ok ms client srvs offs (peers (ps_config C)) (ls[i := ?l]) (ps_recv C1)" unfolding C'(2) .
  with c(5-9) C(3) bufs off(1) show ?thesis unfolding C'(1) by blast
qed

lemma offer_passed_step:
  assumes C: "peer_ok ms C" "fm_init (ps_fm C)" "manager_ready offs (ps_fm C)"
    and l: "link_ok ms client srvs offs (peers (ps_config C)) l (ps_recv C)"
    and p: "m \<in> lk_offers l" "world_ok ms (ps_config C) io" "length buf = 1500" "offers m hs"
      "List.find (\<lambda>h. master_offset ms h \<noteq> -1 \<and> \<not> busy_with (lk_id l) (master_offset ms h) C) hs = None"
      "process_inbound_udp io buf m (lk_addr l) C = Inr (C', out)"
  shows "C' = C \<and> out = []"
proof -
  have a: "node_of_addr (lk_addr l) (peers (ps_config C)) = lk_id l" "lk_id l \<noteq> -1"
      "\<forall>h \<in> set hs. master_offset ms h = -1 \<or> master_offset ms h \<in> set (offsets_of (ps_fm C))"
    using l p(1,4) manager_readyD [OF C(3)] by (auto simp: link_ok_def)
  from offer_passed [OF C(1) p(2,3) a(1,2) p(4) C(2) a(3) p(5)] p(6) show ?thesis by simp
qed

section \<open>The steps of the transfers\<close>

lemma ack_step:
  assumes l: "link_ok ms client srvs offs known l bufs" and m: "m \<in> lk_acks l"
    and w: "world_ok ms (ps_config (lk_server l)) io" "length buf = 1500"
    and p: "process_inbound_udp io buf m client (lk_server l) = Inr (S, out)"
  shows "link_ok ms client srvs offs known (l\<lparr>lk_server := S, lk_data := lk_data l \<union> sent_to client out\<rparr>) bufs"
proof -
  obtain g where ph: "lk_phase l = Sending g" using l m by (cases "lk_phase l") (auto simp: link_ok_def)
  obtain h off F where f: "g = get_msg h" "length h = 20" "h \<in> snd ` set ms" "master_offset ms h = off" "off \<in> set offs"
      "has_chunk ms l h F" "ct.sys_inv F (lk_client_id l) (lk_id l) off (link_transfer l bufs)"
    using sending_transfer [OF l ph] by metis
  have s: "peer_ok ms (lk_server l)" "node_of_addr client (peers (ps_config (lk_server l))) = lk_client_id l" "lk_client_id l \<noteq> -1"
      "timed client (lk_data l) (ps_tracker (lk_server l))"
    using l by (simp_all add: link_ok_def)
  obtain a where a: "m = ack_msg a" "1 \<le> a" "a \<le> 1024"
    using f(7) m by (auto simp: ct.sys_inv_def ct.cumulative_def)
  let ?e = "\<lparr>env_buf = buf, env_beyond = io_beyond io\<rparr>"
  obtain S' trk msgs where r: "process_inbound_udp io buf m client (lk_server l) = Inr (S', map (Pair client) (rev msgs))"
      "peer_ok ms S'" "ps_config S' = ps_config (lk_server l)"
      "ack_datagram (lk_client_id l) ?e m (ps_sender (lk_server l), ps_tracker (lk_server l)) = Inr ((ps_sender S', trk), msgs)"
      "tracker_ok (ps_tracker S')" "timed client (lk_data l \<union> set msgs) (ps_tracker S')"
    using server_acks [OF s(1) w s(2,3) a(2,3) s(4)] unfolding a(1) by blast
  have S: "S = S'" "sent_to client out = set msgs" using p r(1) by auto
  have e: "env_sane ?e" using w by (simp add: env_sane_def world_ok_def)
  have "m \<in> ack_net (link_transfer l bufs)" using m by simp
  from ct.ack_step_inv [OF f(7) e this] r(4)
  have "ct.sys_inv F (lk_client_id l) (lk_id l) off
      \<lparr>sndr = (ps_sender S', trk), rcvr = bufs, data_net = lk_data l \<union> set msgs, ack_net = lk_acks l\<rparr>"
    by auto
  then have "ct.sys_inv F (lk_client_id l) (lk_id l) off
      \<lparr>sndr = (ps_sender S', ps_tracker S'), rcvr = bufs, data_net = lk_data l \<union> set msgs, ack_net = lk_acks l\<rparr>"
    using serving_tracker [OF _ r(5)] acked_by_tracker [of _ "ps_sender S'" "ps_tracker S'" trk] by (auto simp: ct.sys_inv_def)
  with f(1-6) r(3) have "phase_ok ms offs (l\<lparr>lk_server := S', lk_data := lk_data l \<union> set msgs\<rparr>) bufs (Sending g)"
    by (auto simp: has_chunk_def)
  with l ph r(2,3,6) show ?thesis unfolding S by (simp add: link_ok_def)
qed

lemma timeout_step:
  assumes l: "link_ok ms client srvs offs known l bufs" and t: "check_timeouts io (lk_server l) = Inr (S, out)"
  shows "link_ok ms client srvs offs known (l\<lparr>lk_server := S, lk_data := lk_data l \<union> sent_to client out\<rparr>) bufs"
proof -
  have s: "peer_ok ms (lk_server l)" "timed client (lk_data l) (ps_tracker (lk_server l))"
    using l by (simp_all add: link_ok_def)
  note r = timeouts_sane [OF s t]
  then have net: "lk_data l \<union> sent_to client out = lk_data l" by blast
  have "phase_ok ms offs (l\<lparr>lk_server := S\<rparr>) bufs (lk_phase l)"
  proof (cases "lk_phase l")
    case (Sending g)
    obtain h off F where f: "g = get_msg h" "length h = 20" "h \<in> snd ` set ms" "master_offset ms h = off" "off \<in> set offs"
        "has_chunk ms l h F" "ct.sys_inv F (lk_client_id l) (lk_id l) off (link_transfer l bufs)"
      using sending_transfer [OF l Sending] by metis
    have "serving (lk_client_id l) F (ps_sender (lk_server l), ps_tracker (lk_server l))"
      using f(7) by (simp add: ct.sys_inv_def)
    with f(7) server_times_out [OF s(1) _ s(2) t]
    have "ct.sys_inv F (lk_client_id l) (lk_id l) off (link_transfer (l\<lparr>lk_server := S\<rparr>) bufs)"
      by (simp add: ct.sys_inv_def)
    with f r Sending show ?thesis by (auto simp: has_chunk_def)
  qed (use l in \<open>auto simp: link_ok_def\<close>)
  with l r show ?thesis unfolding net by (simp add: link_ok_def)
qed


lemma sending_data:
  assumes "link_ok ms client srvs offs known l bufs" "m \<in> lk_data l"
  obtains off F k where "off \<in> set offs" "on_server ms srvs off F" "k < 512" "m = data_msg F k"
    "ct.sys_inv F (lk_client_id l) (lk_id l) off (link_transfer l bufs)" "fetching (lk_id l) off F bufs"
proof -
  obtain g where ph: "lk_phase l = Sending g" using assms by (cases "lk_phase l") (auto simp: link_ok_def)
  obtain off F where f: "off \<in> set offs" "on_server ms srvs off F"
      "ct.sys_inv F (lk_client_id l) (lk_id l) off (link_transfer l bufs)" "fetching (lk_id l) off F bufs"
    using sending_transfer [OF assms(1) ph] by metis
  have "\<exists>k < 512. m = data_msg F k" using f(3) assms(2) unfolding ct.sys_inv_def ct.started_def by auto
  with f that show thesis by blast
qed

lemma data_stored:
  assumes ok: "links_ok ms client srvs offs known ls bufs" "i < length ls" "l = ls ! i"
    and f: "k < 512" "data_msg F k \<in> lk_data l" "fetching (lk_id l) off F bufs"
    and e: "env_sane e" and r: "recv_datagram (lk_id l) e (data_msg F k) bufs = Inr (bufs', msgs)"
  shows "links_ok ms client srvs offs known (ls[i := l\<lparr>lk_acks := lk_acks l \<union> set msgs\<rparr>]) bufs'"
proof (rule links_ok_step [OF ok(1,2)])
  let ?l = "l\<lparr>lk_acks := lk_acks l \<union> set msgs\<rparr>"
  have lok: "link_ok ms client srvs offs known l bufs" using ok by (simp add: links_ok_def)
  then obtain g where ph: "lk_phase l = Sending g" using f(2) by (cases "lk_phase l") (auto simp: link_ok_def)
  obtain h off' F' where h: "g = get_msg h" "length h = 20" "h \<in> snd ` set ms" "master_offset ms h = off'" "off' \<in> set offs"
      "has_chunk ms l h F'" "ct.sys_inv F' (lk_client_id l) (lk_id l) off' (link_transfer l bufs)" "fetching (lk_id l) off' F' bufs"
    using sending_transfer [OF lok ph] by metis
  have "data_msg F k \<in> data_net (link_transfer l bufs)" using f(2) by simp
  from ct.data_step_inv [OF h(7) e this] r
  have "ct.sys_inv F' (lk_client_id l) (lk_id l) off' (link_transfer ?l bufs')" by auto
  then have "phase_ok ms offs ?l bufs' (lk_phase ?l)" using h(1-6) ph by (auto simp: has_chunk_def)
  then show "link_ok ms client srvs offs known ?l bufs'" using lok by (simp add: link_ok_def)
  show "lk_id ?l = lk_id (ls ! i)" using ok(3) by simp
  show "keeps_transfer node bufs bufs'" if "node \<noteq> lk_id ?l" for node
    using recv_datagram_other [OF f(3,1) e r] that by (simp add: keeps_transfer_def)
  fix k' assume k': "k' \<in> set (buffer_keys bufs')" "snd k' \<in> set offs"
    "k' \<notin> set (buffer_keys bufs) \<or> fst k' = lk_id ?l"
  then have old: "k' \<in> set (buffer_keys bufs)" "fst k' = lk_id l" using recv_datagram_keys [OF r] by simp_all
  then obtain G where "fetching (lk_id l) (snd k') G bufs" using ok(1) k'(2) unfolding links_ok_def by metis
  then have "snd k' = off" using fetching_same_node [OF _ f(3)] by blast
  moreover have "fetching (lk_id l) off F bufs'" using recv_datagram_ok [OF f(3) e f(1)] r by auto
  ultimately show "active (lk_phase ?l) \<and> fst k' = lk_id ?l \<and> (\<exists>F. fetching (fst k') (snd k') F bufs')"
    using old(2) ph by auto
qed

lemma data_step:
  assumes C: "peer_ok ms C" "fm_init (ps_fm C)" "manager_ready offs (ps_fm C)"
    and ok: "links_ok ms client srvs offs (peers (ps_config C)) ls (ps_recv C)" "i < length ls" "l = ls ! i"
    and m: "m \<in> lk_data l" and w: "world_ok ms (ps_config C) io" "length buf = 1500"
  shows "\<exists>C' a bufs. process_inbound_udp io buf m (lk_addr l) C = Inr (C', [(lk_addr l, ack_msg a)]) \<and> ps_config C' = ps_config C \<and>
    recv_datagram (lk_id l) \<lparr>env_buf = buf, env_beyond = io_beyond io\<rparr> m (ps_recv C) = Inr (bufs, [ack_msg a]) \<and>
    ((\<forall>off \<in> set offs. is_buffer_full off bufs = 1) \<and> \<not> fm_init (ps_fm C') \<and>
       (\<exists>Fs. ps_written C' = (output_file (ps_config C), concat Fs) # ps_written C \<and> list_all2 (on_server ms srvs) offs Fs) \<or>
     \<not> (\<forall>off \<in> set offs. is_buffer_full off bufs = 1) \<and> same_data bufs (ps_recv C') \<and>
     peer_ok ms C' \<and> fm_init (ps_fm C') \<and> manager_ready offs (ps_fm C') \<and> ps_written C' = ps_written C \<and>
     links_ok ms client srvs offs (peers (ps_config C)) (ls[i := l\<lparr>lk_acks := lk_acks l \<union> {ack_msg a}\<rparr>]) (ps_recv C'))"
proof -
  let ?e = "\<lparr>env_buf = buf, env_beyond = io_beyond io\<rparr>" and ?known = "peers (ps_config C)"
  have e: "env_sane ?e" using w by (simp add: env_sane_def world_ok_def)
  have lok: "link_ok ms client srvs offs ?known l (ps_recv C)" using ok by (simp add: links_ok_def)
  then have node: "node_of_addr (lk_addr l) ?known = lk_id l" "lk_id l \<noteq> -1" by (simp_all add: link_ok_def)
  obtain off F k where f: "off \<in> set offs" "on_server ms srvs off F" "k < 512" "m = data_msg F k"
      "ct.sys_inv F (lk_client_id l) (lk_id l) off (link_transfer l (ps_recv C))" "fetching (lk_id l) off F (ps_recv C)"
    using sending_data [OF lok m] by blast
  have "data_msg F k \<in> lk_data l" using m f(4) by simp
  note stored = data_stored [OF ok f(3) this f(6) e]
  have held: "\<forall>off \<in> set offs. \<exists>F. holds_chunk bufs off F \<and> on_server ms srvs off F"
    if "recv_datagram (lk_id l) ?e (data_msg F k) (ps_recv C) = Inr (bufs, msgs)" "\<forall>off \<in> set offs. is_buffer_full off bufs = 1"
    for bufs msgs
    using all_held [OF stored [OF that(1)]] that(2) by blast
  obtain C' a bufs where r: "process_inbound_udp io buf (data_msg F k) (lk_addr l) C = Inr (C', [(lk_addr l, ack_msg a)])"
      "peer_ok ms C'" "ps_config C' = ps_config C"
      "recv_datagram (lk_id l) ?e (data_msg F k) (ps_recv C) = Inr (bufs, [ack_msg a])"
      "if \<forall>off \<in> set offs. is_buffer_full off bufs = 1
       then \<not> fm_init (ps_fm C') \<and>
         (\<exists>Fs. ps_written C' = (output_file (ps_config C), concat Fs) # ps_written C \<and> list_all2 (on_server ms srvs) offs Fs)
       else same_data bufs (ps_recv C') \<and> ps_written C' = ps_written C \<and> manager_ready offs (ps_fm C') \<and> fm_init (ps_fm C')"
    using client_stores_one [OF C(1) w node f(6,3) C(3,2) f(1), of "on_server ms srvs"] held by blast
  have "links_ok ms client srvs offs ?known (ls[i := l\<lparr>lk_acks := lk_acks l \<union> {ack_msg a}\<rparr>]) bufs"
    using stored [OF r(4)] by simp
  note kept = links_ok_same_data [OF this]
  show ?thesis
  proof (cases "\<forall>off \<in> set offs. is_buffer_full off bufs = 1")
    case True
    with r(1,3,4,5) show ?thesis unfolding f(4) by auto
  next
    case False
    then have d: "same_data bufs (ps_recv C')" "ps_written C' = ps_written C" "manager_ready offs (ps_fm C')" "fm_init (ps_fm C')"
      using r(5) by (simp_all only: if_False)
    show ?thesis
      unfolding f(4) using False r(1-4) d kept [OF d(1)]
      by (intro exI [of _ C'] exI [of _ a] exI [of _ bufs]) simp
  qed
qed

section \<open>Reachable states\<close>

text \<open>What the client does on its own leaves the transfers as they are.\<close>

lemma check_timeouts_frame:
  "check_timeouts io ps = Inr (ps', out) \<Longrightarrow> ps_recv ps' = ps_recv ps \<and> ps_fm ps' = ps_fm ps \<and> ps_config ps' = ps_config ps \<and>
     ps_written ps' = ps_written ps"
  by (auto simp: check_timeouts_def res_simps)

lemma repeat_requests_closed:
  "repeat_requests io ps = Inr (ps', out) \<Longrightarrow> \<not> fm_init (ps_fm ps) \<Longrightarrow> ps' = ps"
  by (simp add: repeat_requests_def re_generateWhohas_def)

lemma swarm_done_step:
  assumes "swarm_step ms client offs s s'" "swarm_done ms srvs offs out before s"
  shows "swarm_done ms srvs offs out before s'"
  using assms by (cases rule: swarm_step.cases)
    (auto simp: swarm_done_def dest!: check_timeouts_frame dest: repeat_requests_closed)

lemma swarm_ok_client:
  assumes "swarm_ok ms client srvs offs out before s" and "peer_ok ms C" "fm_init (ps_fm C)" "manager_ready offs (ps_fm C)"
    and "ps_config C = ps_config (sw_client s)" "ps_written C = ps_written (sw_client s)" "same_data (ps_recv (sw_client s)) (ps_recv C)"
  shows "swarm_ok ms client srvs offs out before (s\<lparr>sw_client := C\<rparr>)"
  using assms links_ok_same_data [OF _ assms(7)] by (simp add: swarm_ok_def)

theorem swarm_ok_step:
  assumes ok: "swarm_ok ms client srvs offs file_name before s" and step: "swarm_step ms client offs s s'"
  shows "swarm_ok ms client srvs offs file_name before s' \<or> swarm_done ms srvs offs file_name before s'"
proof -
  have C: "peer_ok ms (sw_client s)" "fm_init (ps_fm (sw_client s))" "manager_ready offs (ps_fm (sw_client s))"
      "links_ok ms client srvs offs (peers (ps_config (sw_client s))) (sw_links s) (ps_recv (sw_client s))"
    using ok by (simp_all add: swarm_ok_def)
  have server: "swarm_ok ms client srvs offs file_name before (s\<lparr>sw_links := (sw_links s)[i := l]\<rparr>)"
    if "i < length (sw_links s)" "lk_id l = lk_id (sw_links s ! i)" "active (lk_phase (sw_links s ! i)) \<Longrightarrow> active (lk_phase l)"
      "link_ok ms client srvs offs (peers (ps_config (sw_client s))) l (ps_recv (sw_client s))" for i l
    using links_ok_server [OF C(4) that] ok by (simp add: swarm_ok_def)
  have lok: "link_ok ms client srvs offs (peers (ps_config (sw_client s))) (sw_links s ! i) (ps_recv (sw_client s))"
    if "i < length (sw_links s)" for i
    using C(4) that by (simp add: links_ok_def)
  from step show ?thesis
  proof (cases rule: swarm_step.cases)
    case (request_served i l io hs es buf req S out)
    note rs = request_served
    have "link_ok ms client srvs offs (peers (ps_config (sw_client s)))
        (l\<lparr>lk_server := S, lk_offers := lk_offers l \<union> sent_to client out\<rparr>) (ps_recv (sw_client s))"
      using lok [OF rs(2)] rs(3) by (intro request_step [OF _ rs(4,6-9)]) simp
    with server [OF rs(2)] rs(1,3) show ?thesis by simp
  next
    case (offer_arrives i l m io buf hs h C' out)
    note oa = offer_arrives
    from offer_step [OF C oa(2-7,9-12)] ok have "swarm_ok ms client srvs offs file_name before s'"
      unfolding oa(1) swarm_ok_def by simp
    then show ?thesis ..
  next
    case (offer_passed_over i l m io buf hs C' out)
    note op = offer_passed_over
    have "C' = sw_client s" using offer_passed_step [OF C(1-3) lok [OF op(2)] _ op(5,6,8)] op(3,4,9,10) by blast
    then show ?thesis using ok op(1) by simp
  next
    case (get_arrives i l m io buf S out)
    note ga = get_arrives
    have "link_ok ms client srvs offs (peers (ps_config (sw_client s)))
        (l\<lparr>lk_server := S, lk_phase := Sending m, lk_data := lk_data l \<union> sent_to client out\<rparr>) (ps_recv (sw_client s))"
      using lok [OF ga(2)] ga(3) by (intro get_step [OF _ ga(4,5,7,6,8)]) simp
    with server [OF ga(2)] ga(1,3) show ?thesis by simp
  next
    case (data_reaches i l m io buf C' out)
    note dr = data_reaches
    obtain C1 a where r: "process_inbound_udp io buf m (lk_addr l) (sw_client s) = Inr (C1, [(lk_addr l, ack_msg a)])"
        "ps_config C1 = ps_config (sw_client s)"
        "\<not> fm_init (ps_fm C1) \<and> (\<exists>Fs. ps_written C1 =
             (output_file (ps_config (sw_client s)), concat Fs) # ps_written (sw_client s) \<and> list_all2 (on_server ms srvs) offs Fs) \<or>
         peer_ok ms C1 \<and> fm_init (ps_fm C1) \<and> manager_ready offs (ps_fm C1) \<and> ps_written C1 = ps_written (sw_client s) \<and>
         links_ok ms client srvs offs (peers (ps_config (sw_client s)))
           ((sw_links s)[i := l\<lparr>lk_acks := lk_acks l \<union> {ack_msg a}\<rparr>]) (ps_recv C1)"
      using data_step [OF C dr(2-6)] by blast
    have "C' = C1" "sent_to (lk_addr l) out = {ack_msg a}" using dr(8) r(1) by (auto simp: sent_to_def)
    then have s': "s' = s\<lparr>sw_client := C1, sw_links := (sw_links s)[i := l\<lparr>lk_acks := lk_acks l \<union> {ack_msg a}\<rparr>]\<rparr>"
      using dr(1) by simp
    have f: "output_file (ps_config (sw_client s)) = file_name" "ps_written (sw_client s) = before"
      using ok by (simp_all add: swarm_ok_def)
    show ?thesis
      using r(3) unfolding f s' swarm_ok_def swarm_done_def by (rule disjE) (simp_all add: r(2) f)
  next
    case (ack_reaches i l m io buf S out)
    then show ?thesis using server [of i "l\<lparr>lk_server := S, lk_data := lk_data l \<union> sent_to client out\<rparr>"] ack_step [OF lok] by auto
  next
    case (timers_run_out i l io S out)
    then show ?thesis using server [of i "l\<lparr>lk_server := S, lk_data := lk_data l \<union> sent_to client out\<rparr>"]
      timeout_step [OF lok] by auto
  next
    case (client_timers_run_out io C' out)
    have "peer_ok ms C'" using check_timeouts_ok [OF C(1), of io] client_timers_run_out(2) by auto
    moreover note check_timeouts_frame [OF client_timers_run_out(2)]
    ultimately have "swarm_ok ms client srvs offs file_name before (s\<lparr>sw_client := C'\<rparr>)"
      using C(2,3) by (intro swarm_ok_client [OF ok]) (simp_all add: same_data_def)
    then show ?thesis using client_timers_run_out(1) by simp
  next
    case (requests_repeated io C' out)
    have "peer_ok ms C'" "ps_config C' = ps_config (sw_client s)" "ps_written C' = ps_written (sw_client s)" "fm_init (ps_fm C')"
        "manager_ready offs (ps_fm C')" "same_data (ps_recv (sw_client s)) (ps_recv C')"
      using repeat_requests_ok [OF C(1) requests_repeated(2)] requests_repeated(3) C(2,3) release_all_same_data by auto
    then show ?thesis using swarm_ok_client [OF ok] requests_repeated(1) by simp
  qed
qed

theorem swarm_reach_ok:
  assumes "swarm_reach ms client offs s s'" "swarm_ok ms client srvs offs file_name before s"
  shows "swarm_ok ms client srvs offs file_name before s' \<or> swarm_done ms srvs offs file_name before s'"
  using assms by (induction rule: rtranclp_induct) (auto dest: swarm_ok_step swarm_done_step)

section \<open>The file that several servers deliver\<close>

definition swarm_ready :: "(nat \<times> byte list) list \<Rightarrow> sockaddr_in \<Rightarrow> int list \<Rightarrow> swarm \<Rightarrow> bool" where
  "swarm_ready ms client offs s \<longleftrightarrow>
     peer_ok ms (sw_client s) \<and> fm_init (ps_fm (sw_client s)) \<and> offsets_of (ps_fm (sw_client s)) = offs \<and>
     set offs \<inter> snd ` set (buffer_keys (ps_recv (sw_client s))) = {} \<and> distinct (map lk_id (sw_links s)) \<and>
     (\<forall>l \<in> set (sw_links s). lk_phase l = Idle \<and> lk_offers l = {} \<and> lk_data l = {} \<and> lk_acks l = {} \<and> peer_ok ms (lk_server l) \<and>
        node_of_addr client (peers (ps_config (lk_server l))) = lk_client_id l \<and> lk_client_id l \<noteq> -1 \<and>
        node_of_addr (lk_addr l) (peers (ps_config (sw_client s))) = lk_id l \<and> lk_id l \<noteq> -1 \<and>
        timed client {} (ps_tracker (lk_server l)))"

definition servers_of :: "swarm \<Rightarrow> (bt_config_t \<times> files) set" where
  "servers_of s = (\<lambda>l. (ps_config (lk_server l), lk_files l)) ` set (sw_links s)"

lemma swarm_ready_ok:
  assumes "swarm_ready ms client offs s"
  shows "swarm_ok ms client (servers_of s) offs (output_file (ps_config (sw_client s))) (ps_written (sw_client s)) s"
proof -
  have "manager_ready offs (ps_fm (sw_client s))"
    using assms manager_ready_offsets [of ms "ps_fm (sw_client s)"] by (auto simp: swarm_ready_def peer_ok_def)
  moreover have "link_ok ms client (servers_of s) offs (peers (ps_config (sw_client s))) l (ps_recv (sw_client s))"
    if "l \<in> set (sw_links s)" for l
    using assms that by (simp add: swarm_ready_def link_ok_def servers_of_def)
  then have "links_ok ms client (servers_of s) offs (peers (ps_config (sw_client s))) (sw_links s) (ps_recv (sw_client s))"
    using assms unfolding links_ok_def swarm_ready_def by (simp add: disjoint_iff) (metis image_eqI)
  ultimately show ?thesis using assms by (simp add: swarm_ok_def swarm_ready_def)
qed

lemma swarm_ok_datagrams:
  assumes ok: "swarm_ok ms client srvs offs file_name before s" and l: "l \<in> set (sw_links s)" and buf: "length buf = 1500"
  shows "m \<in> lk_data l \<Longrightarrow> world_ok ms (ps_config (sw_client s)) io \<Longrightarrow>
      \<exists>r. process_inbound_udp io buf m (lk_addr l) (sw_client s) = Inr r"
    and "m \<in> lk_acks l \<Longrightarrow> world_ok ms (ps_config (lk_server l)) io \<Longrightarrow>
      \<exists>r. process_inbound_udp io buf m client (lk_server l) = Inr r"
proof -
  have C: "peer_ok ms (sw_client s)" "fm_init (ps_fm (sw_client s))" "manager_ready offs (ps_fm (sw_client s))"
      "links_ok ms client srvs offs (peers (ps_config (sw_client s))) (sw_links s) (ps_recv (sw_client s))"
    using ok by (simp_all add: swarm_ok_def)
  obtain i where i: "i < length (sw_links s)" "l = sw_links s ! i" using l by (auto simp: in_set_conv_nth)
  show "\<exists>r. process_inbound_udp io buf m (lk_addr l) (sw_client s) = Inr r"
    if "m \<in> lk_data l" "world_ok ms (ps_config (sw_client s)) io"
    using data_step [OF C i that buf] by blast
  have lok: "link_ok ms client srvs offs (peers (ps_config (sw_client s))) l (ps_recv (sw_client s))"
    using C(4) i by (simp add: links_ok_def)
  show "\<exists>r. process_inbound_udp io buf m client (lk_server l) = Inr r"
    if m: "m \<in> lk_acks l" and w: "world_ok ms (ps_config (lk_server l)) io"
  proof -
    have "\<exists>a. m = ack_msg a \<and> 1 \<le> a \<and> a \<le> 1024"
      using lok m by (cases "lk_phase l") (auto simp: link_ok_def ct.sys_inv_def ct.cumulative_def)
    then obtain a where a: "m = ack_msg a" "1 \<le> a" "a \<le> 1024" by blast
    have "peer_ok ms (lk_server l)" "node_of_addr client (peers (ps_config (lk_server l))) = lk_client_id l" "lk_client_id l \<noteq> -1"
        "timed client (lk_data l) (ps_tracker (lk_server l))"
      using lok by (simp_all add: link_ok_def)
    from server_acks [OF this(1) w buf this(2,3) a(2,3) this(4)] show ?thesis unfolding a(1) by blast
  qed
qed

text \<open>
  C1. A download from any number of servers, over the complete \<^verbatim>\<open>process_inbound_udp\<close> of all peers. Requests,
  offers, GET, DATA and ACK of the servers may be processed in any order, each of them again and again or never,
  timers may expire at any time, the client may ask again for stalled chunks, and a chunk may be fetched from
  several servers. The condition is that the client takes at most one offer from each server, so that no server
  sends it two chunks; \<open>late_packet_corrupts_file\<close> is what happens otherwise. Then either the client has written
  nothing and every DATA and ACK datagram under way is processed without a fault, or it has written its output
  file once: the concatenation, in the order of the chunk file, of chunks that servers have in their master files
  at these positions.
\<close>

theorem swarm_delivers:
  assumes "swarm_ready ms client offs s0" and "swarm_reach ms client offs s0 s"
  shows "fm_init (ps_fm (sw_client s)) \<and> ps_written (sw_client s) = ps_written (sw_client s0) \<and>
    (\<forall>l \<in> set (sw_links s). \<forall>buf io. length buf = 1500 \<longrightarrow>
       (\<forall>m \<in> lk_data l. world_ok ms (ps_config (sw_client s)) io \<longrightarrow>
          (\<exists>r. process_inbound_udp io buf m (lk_addr l) (sw_client s) = Inr r)) \<and>
       (\<forall>m \<in> lk_acks l. world_ok ms (ps_config (lk_server l)) io \<longrightarrow>
          (\<exists>r. process_inbound_udp io buf m client (lk_server l) = Inr r))) \<or>
    \<not> fm_init (ps_fm (sw_client s)) \<and>
    (\<exists>Fs. ps_written (sw_client s) = (output_file (ps_config (sw_client s0)), concat Fs) # ps_written (sw_client s0) \<and>
       list_all2 (on_server ms (servers_of s0)) offs Fs)"
proof -
  consider (ok) "swarm_ok ms client (servers_of s0) offs (output_file (ps_config (sw_client s0))) (ps_written (sw_client s0)) s"
    | (fin) "swarm_done ms (servers_of s0) offs (output_file (ps_config (sw_client s0))) (ps_written (sw_client s0)) s"
    using swarm_reach_ok [OF assms(2) swarm_ready_ok [OF assms(1)]] by blast
  then show ?thesis
  proof cases
    case ok
    then have "fm_init (ps_fm (sw_client s))" "ps_written (sw_client s) = ps_written (sw_client s0)"
      by (simp_all add: swarm_ok_def)
    with swarm_ok_datagrams [OF ok] show ?thesis by blast
  next
    case fin
    then show ?thesis by (simp add: swarm_done_def)
  qed
qed

section \<open>A download from one server is such a run\<close>

definition one_server :: "meeting \<Rightarrow> byte list set \<Rightarrow> phase \<Rightarrow> network \<Rightarrow> swarm" where
  "one_server mt os p n = \<lparr>sw_client = nw_client n, sw_links = [\<lparr>lk_addr = mt_server_addr mt, lk_id = mt_server_id mt,
     lk_client_id = mt_client_id mt, lk_server = nw_server n, lk_files = io_fs (mt_io3 mt), lk_offers = os, lk_phase = p, lk_data = nw_data n, lk_acks = nw_acks n\<rparr>]\<rparr>"

definition before_meeting :: "meeting \<Rightarrow> network" where
  "before_meeting mt = \<lparr>nw_server = mt_server mt, nw_client = mt_client mt, nw_data = {}, nw_acks = {}\<rparr>"

lemma net_step_swarm:
  assumes "net_step ms (mt_server_addr mt) client n n'"
  shows "swarm_step ms client offs (one_server mt os p n) (one_server mt os p n')"
  using assms
proof (cases rule: net_step.cases)
  case (data_arrives io buf m C out)
  with swarm_step.data_reaches [of 0 "one_server mt os p n" _ m ms io buf C out client offs] show ?thesis
    by (simp add: one_server_def)
next
  case (ack_arrives io buf m S out)
  with swarm_step.ack_reaches [of 0 "one_server mt os p n" _ m ms io buf client S out offs] show ?thesis
    by (simp add: one_server_def)
next
  case (timers_expire io S out)
  with swarm_step.timers_run_out [of 0 "one_server mt os p n" _ io S out ms client offs] show ?thesis
    by (simp add: one_server_def)
qed

interpretation net_swarm: simulation "net_step ms (mt_server_addr mt) client" "swarm_step ms client offs"
    "\<lambda>n s. s = one_server mt os p n" for ms mt client offs os p
  by unfold_locales (auto intro: net_step_swarm)

lemma net_reach_swarm:
  "net_reach ms (mt_server_addr mt) client n n' \<Longrightarrow> swarm_reach ms client offs (one_server mt os p n) (one_server mt os p n')"
  using net_swarm.run [of ms mt client n n'] by blast


lemma meeting_in_swarm:
  assumes mt: "peers_meet mt" "io_fs (mt_io1 mt) = io_fs (mt_io3 mt)" and buf: "length buf = 1500" and n: "meet buf mt = Inr n"
    and hashes: "\<forall>h \<in> set (mt_hashes mt). master_offset (mt_master mt) h = -1 \<or> master_offset (mt_master mt) h \<in> set offs"
    and fresh: "mt_server_id mt \<notin> fst ` set (buffer_keys (ps_recv (mt_client mt)))"
  shows "\<exists>offer get. swarm_reach (mt_master mt) (mt_client_addr mt) offs
    (one_server mt {} Idle (before_meeting mt)) (one_server mt {offer} (Sending get) n)"
proof -
  let ?ms = "mt_master mt" and ?S = "mt_server mt" and ?C = "mt_client mt" and ?client = "mt_client_addr mt"
    and ?wanted = "local_chunks (mt_has mt) (mt_hashes mt)"
  have a: "peer_ok ?ms ?S" "world_ok ?ms (ps_config ?S) (mt_io1 mt)" "world_ok ?ms (ps_config ?C) (mt_io2 mt)"
      "world_ok ?ms (ps_config ?S) (mt_io3 mt)" "node_of_addr ?client (peers (ps_config ?S)) = mt_client_id mt" "mt_client_id mt \<noteq> -1"
      "reads_request (mt_request mt) (mt_hashes mt)"
      "length (mt_hashes mt) < 60" "io_fs (mt_io1 mt) (has_chunk_file (ps_config ?S)) = Some (chunk_text (mt_has mt))"
      "\<forall>e \<in> set (mt_has mt). length (snd e) = 20" "length (mt_has mt) \<le> 4" "fm_init (ps_fm ?C)"
      "List.find (\<lambda>h. master_offset ?ms h \<noteq> -1 \<and> \<not> busy_with (mt_server_id mt) (master_offset ?ms h) ?C) ?wanted = Some (mt_wanted mt)"
    using mt(1) by (simp_all add: peers_meet_def Let_def)
  then have ne: "?wanted \<noteq> []" by (auto dest: find_Some_in_set)
  obtain offer where o: "process_inbound_udp (mt_io1 mt) buf (mt_request mt) ?client ?S = Inr (?S, [(?client, offer)])"
      "offers offer ?wanted"
    using request_offered [OF a(1,2) buf a(5-11) ne] by blast
  obtain C answer S out where c: "process_inbound_udp (mt_io2 mt) buf offer (mt_server_addr mt) ?C = Inr (C, answer)"
      "process_inbound_udp (mt_io3 mt) buf (only_message answer) ?client ?S = Inr (S, out)"
      "n = \<lparr>nw_server = S, nw_client = C, nw_data = sent_to ?client out, nw_acks = {}\<rparr>"
    using n o(1) by (auto simp: meet_def res_simps)
  have serve: "can_serve ?ms (mt_io1 mt) (ps_config ?S) (mt_hashes mt) (mt_has mt)"
    using a(2,8-11) ne by (simp add: can_serve_def)
  let ?n1 = "before_meeting mt" and ?n2 = "(before_meeting mt)\<lparr>nw_client := C\<rparr>" and ?get = "only_message answer"
  have "swarm_step ?ms ?client offs (one_server mt {} Idle ?n1) (one_server mt {offer} Idle ?n1)"
    using swarm_step.request_served [of 0 "one_server mt {} Idle ?n1" "sw_links (one_server mt {} Idle ?n1) ! 0" ?ms "mt_io1 mt"
        "mt_hashes mt" "mt_has mt" buf "mt_request mt" offs ?client ?S "[(?client, offer)]"]
      serve mt(2) buf a(7) hashes o(1)
    by (simp add: one_server_def before_meeting_def sent_to_def)
  moreover have "swarm_step ?ms ?client offs (one_server mt {offer} Idle ?n1) (one_server mt {offer} (Asked ?get) ?n2)"
    using swarm_step.offer_arrives [of 0 "one_server mt {offer} Idle ?n1" "sw_links (one_server mt {offer} Idle ?n1) ! 0" offer
        ?ms "mt_io2 mt" buf ?wanted "mt_wanted mt" C answer ?client offs]
      a(3,12,13) buf o(2) fresh c(1)
    by (simp add: one_server_def before_meeting_def)
  moreover have "swarm_step ?ms ?client offs (one_server mt {offer} (Asked ?get) ?n2) (one_server mt {offer} (Sending ?get) n)"
  proof -
    let ?s = "one_server mt {offer} (Asked ?get) ?n2"
    have "0 < length (sw_links ?s)" "lk_phase (sw_links ?s ! 0) = Asked ?get \<or> lk_phase (sw_links ?s ! 0) = Sending ?get"
        "world_ok ?ms (ps_config (lk_server (sw_links ?s ! 0))) (mt_io3 mt)" "io_fs (mt_io3 mt) = lk_files (sw_links ?s ! 0)"
        "process_inbound_udp (mt_io3 mt) buf ?get ?client (lk_server (sw_links ?s ! 0)) = Inr (S, out)"
      using a(4) c(2) by (simp_all add: one_server_def before_meeting_def)
    from swarm_step.get_arrives [OF this(1) refl this(2-4) buf this(5), of offs] show ?thesis
      by (simp add: one_server_def before_meeting_def c(3))
  qed
  ultimately show ?thesis by (meson converse_rtranclp_into_rtranclp r_into_rtranclp)
qed

lemma example_on_server:
  assumes "on_server [(0, replicate 20 1)] {(example_config, io_fs example_world)} 0 F"
  shows "F = replicate 524288 0"
proof -
  obtain path content where "io_fs example_world (chunk_file example_config) = Some (master_text path [(0, replicate 20 1)])"
      "io_fs example_world path = Some content" "F = take 524288 content"
    using assms by (auto simp: on_server_def chunk_of_def split: if_splits)
  moreover from this(1) have "path = [97]"
    by (simp add: example_world_def example_io_def example_config_def master_text_def)
  ultimately show ?thesis by (auto simp: example_world_def)
qed

text \<open>The meeting of the example as a download from one server, and a run of it that finishes.\<close>

definition example_start :: "byte list \<Rightarrow> swarm" where
  "example_start req = one_server (example_meeting req) {} Idle (before_meeting (example_meeting req))"

lemma example_swarm_run:
  "\<exists>req s F. swarm_ready [(0, replicate 20 1)] (peer_addr (hd (peers example_config))) [0] (example_start req) \<and>
     swarm_reach [(0, replicate 20 1)] (peer_addr (hd (peers example_config))) [0] (example_start req) s \<and>
     ps_written (sw_client s) = [(output_file example_config, F)] \<and> ps_written (sw_client (example_start req)) = [] \<and>
     ps_config (sw_client (example_start req)) = example_config \<and>
     servers_of (example_start req) = {(example_config, io_fs example_world)}"
proof -
  obtain req where req: "reads_request req [replicate 20 1]" using example_request [of "replicate 20 1"] by auto
  let ?mt = "example_meeting req" and ?ms = "[(0, replicate 20 1)] :: (nat \<times> byte list) list"
    and ?a = "peer_addr (hd (peers example_config))"
  note ok = example_meeting_ok [OF req] and sel = example_meeting_sel
  have buf: "length (replicate 1500 0 :: byte list) = 1500" by simp
  have off: "master_offset ?ms (replicate 20 1) = 0" by (simp add: master_offset_def)
  have cfg: "ps_config (mt_client ?mt) = example_config" "ps_config (mt_server ?mt) = example_config"
      "ps_written (mt_client ?mt) = []" "ps_recv (mt_client ?mt) = []" "ps_tracker (mt_server ?mt) = []"
    by (simp_all add: sel example_peer_def)
  have prev: "io_prev_ack (mt_io3 ?mt) \<noteq> 0" by (simp add: sel example_world_def example_io_def)
  obtain n0 n F where n: "meet (replicate 1500 0) ?mt = Inr n0" "runs ?mt n0 n"
      "ps_written (nw_client n) = [(output_file example_config, F)]"
    using meeting_finishes [OF ok buf prev] unfolding cfg by auto
  have offs: "offsets_of (ps_fm (mt_client ?mt)) = [0]" using ok(2) by (simp add: one_chunk_wanted_def sel off)
  have ready: "swarm_ready ?ms ?a [0] (one_server ?mt {} Idle (before_meeting ?mt))"
    using ok(1) offs unfolding swarm_ready_def one_server_def before_meeting_def peers_meet_def Let_def
    by (simp add: cfg timed_def buffer_keys_def) (simp add: sel)
  obtain offer get where "swarm_reach ?ms ?a [0] (one_server ?mt {} Idle (before_meeting ?mt)) (one_server ?mt {offer} (Sending get) n0)"
    using meeting_in_swarm [OF ok(1) _ buf n(1), of "[0]"] by (auto simp: sel off cfg(4) [unfolded sel] buffer_keys_def)
  moreover have "swarm_reach ?ms ?a [0] (one_server ?mt {offer} (Sending get) n0) (one_server ?mt {offer} (Sending get) n)"
    using net_reach_swarm [of "mt_master ?mt" ?mt "mt_client_addr ?mt" n0 n] n(2) by (simp add: sel)
  ultimately have reach: "swarm_reach ?ms ?a [0] (one_server ?mt {} Idle (before_meeting ?mt)) (one_server ?mt {offer} (Sending get) n)"
    by (rule rtranclp_trans)
  show ?thesis
    unfolding example_start_def using ready reach n(3) cfg
    by (intro exI [of _ req] exI [of _ "one_server ?mt {offer} (Sending get) n"] exI [of _ F])
      (simp add: one_server_def before_meeting_def servers_of_def sel)
qed

theorem swarm_delivers_witness:
  "\<exists>req s. swarm_reach [(0, replicate 20 1)] (peer_addr (hd (peers example_config))) [0] (example_start req) s \<and>
     ps_written (sw_client s) = [(output_file example_config, replicate 524288 0)]"
proof -
  obtain req s F where s: "swarm_ready [(0, replicate 20 1)] (peer_addr (hd (peers example_config))) [0] (example_start req)"
      "swarm_reach [(0, replicate 20 1)] (peer_addr (hd (peers example_config))) [0] (example_start req) s"
      "ps_written (sw_client s) = [(output_file example_config, F)]" "ps_written (sw_client (example_start req)) = []"
      "servers_of (example_start req) = {(example_config, io_fs example_world)}"
    using example_swarm_run by blast
  from swarm_delivers [OF s(1,2)] obtain Fs
    where "concat Fs = F" "list_all2 (on_server [(0, replicate 20 1)] {(example_config, io_fs example_world)}) [0] Fs"
    unfolding s(3-5) by auto
  then have "F = replicate 524288 0" by (auto simp: list_all2_Cons1 dest: example_on_server)
  with s(2,3) show ?thesis by auto
qed

section \<open>A second chunk from the same server\<close>

text \<open>A sequence of datagrams from one server.\<close>

fun deliver :: "io \<Rightarrow> byte list \<Rightarrow> sockaddr_in \<Rightarrow> byte list list \<Rightarrow> peer_st \<Rightarrow> peer_st res" where
  "deliver io buf server [] C = Inr C"
| "deliver io buf server (m # msgs) C =
     rbind (process_inbound_udp io buf m server C) (\<lambda>(C', out). deliver io buf server msgs C')"

lemma deliver_append: "deliver io buf server (xs @ ys) C = rbind (deliver io buf server xs C) (deliver io buf server ys)"
  by (induction xs arbitrary: C) (auto simp: rbind_def split: sum.splits)

text \<open>Storing a packet of one chunk leaves the buffers of the other chunks alone.\<close>

lemma put_keeps_others:
  assumes "get_recv_by_socket (rb_socket b) l = Some b0" "rb_offset b0 = rb_offset b" "rb_offset b \<noteq> a"
  shows "filter (\<lambda>x. rb_offset x = a) (put_recv b l) = filter (\<lambda>x. rb_offset x = a) l"
  using assms unfolding put_recv_def get_recv_by_socket_def by (induction l) (auto split: if_splits)

lemma find_filter: "List.find P l = (case filter P l of [] \<Rightarrow> None | x # _ \<Rightarrow> Some x)"
  by (induction l) auto

lemma full_filter:
  "is_buffer_full a l = 1 \<longleftrightarrow>
     filter (\<lambda>b. rb_offset b = a) l \<noteq> [] \<and> (\<forall>b \<in> set (filter (\<lambda>b. rb_offset b = a) l). rb_total_recv b = 524288)"
  unfolding is_buffer_full_iff by (auto simp: filter_empty_conv)

lemma recv_datagram_others:
  assumes f: "fetching node off F l" "k < 512" "env_sane e" and r: "recv_datagram node e (data_msg F k) l = Inr (l', ms)"
    and a: "a \<noteq> off"
  shows "filter (\<lambda>x. rb_offset x = a) l' = filter (\<lambda>x. rb_offset x = a) l"
proof -
  obtain b where b: "get_recv_by_socket node l = Some b" "recv_wf F b" "rb_socket b = node" "rb_offset b = off"
    using fetching_buffer [OF f(1)] by blast
  have len: "length F = 524288" "length (env_buf e) = 1500" "readable (env_beyond e)"
    using f(1,3) by (simp_all add: fetching_def env_sane_def)
  obtain b' where b': "recv_data (env_beyond e) (from_wire (env_buf e) (data_msg F k)) node l =
        Inr (put_recv b' l, [ack_pkt (rb_expected b')], Some (rb_offset b))" "recv_effect F k b b'"
    using recv_data_ok [OF b(1,2) f(2) carries_data_msg [OF len(1) f(2) len(2)] len(3)] by blast
  have l': "l' = put_recv b' l"
    using r b'(1) from_wire_data_msg [OF len(1) f(2) len(2)]
    by (auto simp: recv_datagram_def to_wire_ack_pkt host_header_def Let_def)
  show ?thesis
    unfolding l' using b b'(2) a by (intro put_keeps_others [of _ _ b]) (simp_all add: recv_effect_def)
qed

lemma recv_keeps_chunk:
  assumes f: "fetching node off F l" "k < 512" "env_sane e" and r: "recv_datagram node e (data_msg F k) l = Inr (l', ms)"
    and a: "a \<noteq> off"
  shows "holds_chunk l' a A = holds_chunk l a A \<and> (is_buffer_full a l' = 1 \<longleftrightarrow> is_buffer_full a l = 1)"
  using recv_datagram_others [OF assms] unfolding holds_chunk_def full_filter find_filter by simp

text \<open>
  The client has the first chunk \<open>A\<close> of its list and the packets \<open>D\<close> of the second, \<open>F\<close>.
\<close>

definition second_chunk ::
  "(nat \<times> byte list) list \<Rightarrow> io \<Rightarrow> sockaddr_in \<Rightarrow> int \<Rightarrow> int \<Rightarrow> byte list \<Rightarrow> int \<Rightarrow> byte list \<Rightarrow> nat set \<Rightarrow> peer_st \<Rightarrow> bool" where
  "second_chunk ms io server node a A b F D C \<longleftrightarrow>
     peer_ok ms C \<and> world_ok ms (ps_config C) io \<and> node_of_addr server (peers (ps_config C)) = node \<and> node \<noteq> -1 \<and>
     manager_ready [a, b] (ps_fm C) \<and> fm_init (ps_fm C) \<and> a \<noteq> b \<and>
     holds_chunk (ps_recv C) a A \<and> is_buffer_full a (ps_recv C) = 1 \<and>
     fetching node b F (ps_recv C) \<and> one_buffer b (ps_recv C) \<and> got_from node (ps_recv C) = D"

lemma second_chunk_step:
  assumes s: "second_chunk ms io server node a A b F D C" and k: "k < 512" and buf: "length buf = 1500"
  shows "\<exists>C'. (\<exists>out. process_inbound_udp io buf (data_msg F k) server C = Inr (C', out)) \<and> ps_config C' = ps_config C \<and>
    (if insert k D = {..<512} then ps_written C' = (output_file (ps_config C), A @ F) # ps_written C
     else second_chunk ms io server node a A b F (insert k D) C' \<and> ps_written C' = ps_written C)"
proof -
  let ?e = "\<lparr>env_buf = buf, env_beyond = io_beyond io\<rparr>"
  let ?P = "\<lambda>off G. (off = a \<longrightarrow> G = A) \<and> (off = b \<longrightarrow> G = F)"
  have c: "peer_ok ms C" "world_ok ms (ps_config C) io" "node_of_addr server (peers (ps_config C)) = node" "node \<noteq> -1"
      "manager_ready [a, b] (ps_fm C)" "fm_init (ps_fm C)" "a \<noteq> b" "holds_chunk (ps_recv C) a A"
      "is_buffer_full a (ps_recv C) = 1" "fetching node b F (ps_recv C)" "one_buffer b (ps_recv C)" "got_from node (ps_recv C) = D"
    using s by (simp_all add: second_chunk_def)
  have e: "env_sane ?e" using c(2) buf by (simp add: env_sane_def world_ok_def)
  have after: "holds_chunk l a A \<and> is_buffer_full a l = 1 \<and> fetching node b F l \<and> one_buffer b l \<and> got_from node l = insert k D \<and>
      (is_buffer_full b l = 1 \<longleftrightarrow> insert k D = {..<512})"
    if r: "recv_datagram node ?e (data_msg F k) (ps_recv C) = Inr (l, msgs)" for l msgs
  proof -
    have "fetching node b F l" "got_from node l = insert k D"
      using recv_datagram_ok [OF c(10) e k] r c(12) by auto
    moreover have one: "one_buffer b l" using c(11) recv_datagram_keys [OF r] by (simp add: one_buffer_def)
    moreover note recv_keeps_chunk [OF c(10) k e r c(7)] full_iff_all [OF _ one]
    ultimately show ?thesis using c(8,9) by auto
  qed
  have held: "\<forall>off \<in> set [a, b]. \<exists>G. holds_chunk l off G \<and> ?P off G"
    if "recv_datagram node ?e (data_msg F k) (ps_recv C) = Inr (l, msgs)" "\<forall>off \<in> set [a, b]. is_buffer_full off l = 1" for l msgs
  proof -
    note l = after [OF that(1)]
    obtain x where "get_recv_by_socket node l = Some x" "rb_offset x = b" using l by (auto simp: fetching_def)
    with l have "holds_chunk l b F" using leads_holds [OF one_buffer_leads] by blast
    with l c(7) show ?thesis by auto
  qed
  have b: "b \<in> set [a, b]" by simp
  obtain C' x l where r: "process_inbound_udp io buf (data_msg F k) server C = Inr (C', [(server, ack_msg x)])"
      "peer_ok ms C'" "ps_config C' = ps_config C"
      "recv_datagram node ?e (data_msg F k) (ps_recv C) = Inr (l, [ack_msg x])"
      "if \<forall>off \<in> set [a, b]. is_buffer_full off l = 1
       then \<not> fm_init (ps_fm C') \<and>
         (\<exists>Fs. ps_written C' = (output_file (ps_config C), concat Fs) # ps_written C \<and> list_all2 ?P [a, b] Fs)
       else same_data l (ps_recv C') \<and> ps_written C' = ps_written C \<and> manager_ready [a, b] (ps_fm C') \<and> fm_init (ps_fm C')"
    using client_stores_one [OF c(1,2) buf c(3,4,10) k c(5,6) b, of ?P] held by blast
  note l = after [OF r(4)]
  show ?thesis
  proof (cases "insert k D = {..<512}")
    case True
    then obtain Fs where "ps_written C' = (output_file (ps_config C), concat Fs) # ps_written C" "list_all2 ?P [a, b] Fs"
      using r(5) l by auto
    moreover from this(2) have "Fs = [A, F]" by (auto simp: list_all2_Cons1)
    ultimately show ?thesis using r(1,3) True by auto
  next
    case False
    then have same: "same_data l (ps_recv C')" and rest: "ps_written C' = ps_written C" "manager_ready [a, b] (ps_fm C')" "fm_init (ps_fm C')"
      using r(5) l by (auto split: if_splits)
    then have "second_chunk ms io server node a A b F (insert k D) C'"
      using l r(2,3) c unfolding second_chunk_def one_buffer_def same_data_def by simp
    with r(1,3) rest(1) False show ?thesis by auto
  qed
qed

lemma second_chunk_run:
  assumes "second_chunk ms io server node a A b F D C" "length buf = 1500" "\<forall>k \<in> set ks. k < 512"
    and "ks \<noteq> []" "D \<union> set ks = {..<512}" "distinct ks" "D \<inter> set ks = {}"
  shows "\<exists>C'. deliver io buf server (map (data_msg F) ks) C = Inr C' \<and>
    ps_written C' = (output_file (ps_config C), A @ F) # ps_written C"
  using assms
proof (induction ks arbitrary: C D)
  case (Cons k ks)
  have k: "k < 512" using Cons.prems(3) by simp
  obtain C1 out where s: "process_inbound_udp io buf (data_msg F k) server C = Inr (C1, out)" "ps_config C1 = ps_config C"
      "if insert k D = {..<512} then ps_written C1 = (output_file (ps_config C), A @ F) # ps_written C
       else second_chunk ms io server node a A b F (insert k D) C1 \<and> ps_written C1 = ps_written C"
    using second_chunk_step [OF Cons.prems(1) k Cons.prems(2)] by blast
  show ?case
  proof (cases "ks = []")
    case True
    then have "insert k D = {..<512}" using Cons.prems(5) by auto
    with s True show ?thesis by simp
  next
    case False
    have "insert k D \<noteq> {..<512}"
      using False Cons.prems(3,6,7) by (cases ks) auto
    then have "second_chunk ms io server node a A b F (insert k D) C1" "ps_written C1 = ps_written C" using s(3) by simp_all
    with Cons.IH [OF this(1) Cons.prems(2) _ False] Cons.prems(3,5-7) s(1,2) show ?thesis by auto
  qed
qed simp

section \<open>Late packets\<close>

text \<open>The bytes \<open>F\<close> with those of packet \<open>k\<close> taken from \<open>A\<close>.\<close>

definition mixed :: "byte list \<Rightarrow> nat \<Rightarrow> byte list \<Rightarrow> byte list" where
  "mixed F k A = blit F (1024 * k) (chunk_slice A k)"

lemma mixed_length: "length F = 524288 \<Longrightarrow> length A = 524288 \<Longrightarrow> k < 512 \<Longrightarrow> length (mixed F k A) = 524288"
  by (simp add: mixed_def length_blit length_chunk_slice)

lemma mixed_slice:
  assumes "length F = 524288" "length A = 524288" "k < 512" "j < 512"
  shows "chunk_slice (mixed F k A) j = (if j = k then chunk_slice A k else chunk_slice F j)"
proof (rule nth_equalityI)
  have l: "length (chunk_slice A k) = 1024" "length (chunk_slice F j) = 1024" "length (chunk_slice (mixed F k A) j) = 1024"
    using assms mixed_length by (simp_all add: length_chunk_slice)
  show "length (chunk_slice (mixed F k A) j) = length (if j = k then chunk_slice A k else chunk_slice F j)" using l by simp
  fix i assume "i < length (chunk_slice (mixed F k A) j)"
  then have i: "i < 1024" using l(3) by simp
  have at: "chunk_slice G j ! i = G ! (1024 * j + i)" if "length G = 524288" for G
    using that i assms(4) by (simp add: chunk_slice_def mult.commute)
  have "mixed F k A ! (1024 * j + i) = (if j = k then chunk_slice A k ! i else F ! (1024 * j + i))"
    using nth_blit [of "1024 * k" "chunk_slice A k" F "1024 * j + i"] l(1) assms i unfolding mixed_def
    by (cases "j < k") auto
  with at [OF mixed_length [OF assms(1-3)]] at [OF assms(1)]
  show "chunk_slice (mixed F k A) j ! i = (if j = k then chunk_slice A k else chunk_slice F j) ! i" by simp
qed

lemma mixed_differs:
  assumes "length F = 524288" "length A = 524288" "k < 512" "chunk_slice A k \<noteq> chunk_slice F k"
  shows "mixed F k A \<noteq> F"
  using mixed_slice [OF assms(1-3,3)] assms(4) by auto

text \<open>
  The client after an offer for the second chunk of its list, from the server that sent the first: the
  complete buffer \<open>old\<close> of the first chunk has been released, but it is still there.
\<close>

definition next_chunk_begun ::
  "(nat \<times> byte list) list \<Rightarrow> io \<Rightarrow> sockaddr_in \<Rightarrow> int \<Rightarrow> int \<Rightarrow> byte list \<Rightarrow> int \<Rightarrow> peer_st \<Rightarrow> bool" where
  "next_chunk_begun ms io server node a A b C \<longleftrightarrow>
     peer_ok ms C \<and> world_ok ms (ps_config C) io \<and> node_of_addr server (peers (ps_config C)) = node \<and> node \<noteq> -1 \<and>
     manager_ready [a, b] (ps_fm C) \<and> fm_init (ps_fm C) \<and> a \<noteq> b \<and> length A = 524288 \<and>
     (\<exists>old uninit. length uninit = 1500 \<and> rb_socket old = node \<and> rb_offset old = a \<and> \<not> rb_busy old \<and> recv_wf A old \<and>
        received old = {..<512} \<and> init_recv_buffer uninit b node [old] = (ps_recv C, 1))"

lemma next_chunk_second:
  assumes c: "next_chunk_begun ms io server node a A b C" and F: "length F = 524288"
  shows "second_chunk ms io server node a A b F {} C"
proof -
  obtain old uninit where old: "length uninit = 1500" "rb_socket old = node" "rb_offset old = a" "recv_wf A old"
      "received old = {..<512}" "init_recv_buffer uninit b node [old] = (ps_recv C, 1)"
    using c by (auto simp: next_chunk_begun_def)
  have r: "ps_recv C = [fresh_buffer uninit b node, old]" using old(6) by (auto simp: init_recv_buffer_def split: if_splits)
  have "a \<noteq> b" "length A = 524288" using c by (simp_all add: next_chunk_begun_def)
  moreover have "rb_total_recv old = 524288" using received_full [OF old(4)] old(5) by simp
  moreover have "fetching node b F (ps_recv C) \<and> got_from node (ps_recv C) = {}"
    using fresh_fetching [OF F old(1), of b node "[old]"] old(6) by simp
  ultimately show ?thesis
    using c old(3,4) unfolding second_chunk_def next_chunk_begun_def
    by (simp add: r holds_chunk_def is_buffer_full_iff one_buffer_def buffer_keys_def fresh_buffer_def)
qed

text \<open>
  C36. DATA packets do not say which chunk they belong to. When a client downloads a second chunk \<open>F\<close> from
  the server that sent it the chunk \<open>A\<close>, one late packet of \<open>A\<close> (sent again by a timer, or overtaken) is
  stored as the packet of \<open>F\<close> with the same number. After the other 511 packets of \<open>F\<close>, in any order, the
  download counts as complete, and a file is written that differs from what the servers hold whenever the two
  packets do.
\<close>

theorem late_packet_corrupts_file:
  assumes "next_chunk_begun ms io server node a A b C" and "length F = 524288" and "k < 512" and "length buf = 1500"
    and "distinct js" and "set js = {..<512} - {k}"
  shows "\<exists>C'. deliver io buf server (data_msg A k # map (data_msg F) js) C = Inr C' \<and>
    ps_written C' = (output_file (ps_config C), A @ mixed F k A) # ps_written C \<and>
    (chunk_slice A k \<noteq> chunk_slice F k \<longrightarrow> A @ mixed F k A \<noteq> A @ F)"
proof -
  have A: "length A = 524288" using assms(1) by (simp add: next_chunk_begun_def)
  note slice = mixed_slice [OF assms(2) A assms(3)]
  have "data_msg (mixed F k A) j = data_msg F j" if "j \<in> set js" for j
    using slice [of j] that assms(6) by (simp add: data_msg_def)
  moreover have "data_msg (mixed F k A) k = data_msg A k" using slice [of k] assms(3) by (simp add: data_msg_def)
  ultimately have m: "data_msg A k # map (data_msg F) js = map (data_msg (mixed F k A)) (k # js)" by simp
  have ks: "\<forall>j \<in> set (k # js). j < 512" "k # js \<noteq> []" "{} \<union> set (k # js) = {..<512}" "distinct (k # js)" "{} \<inter> set (k # js) = {}"
    using assms(3,5,6) by auto
  from second_chunk_run [OF next_chunk_second [OF assms(1) mixed_length [OF assms(2) A assms(3)]] assms(4) ks]
  show ?thesis unfolding m using mixed_differs [OF assms(2) A assms(3)] by auto
qed

text \<open>A client with one of two chunks, in a world with a master file of two chunks.\<close>

definition two_chunks :: "(nat \<times> byte list) list" where
  "two_chunks = [(0, replicate 20 1), (1, replicate 20 2)]"

definition two_chunk_world :: io where
  "two_chunk_world = example_world\<lparr>io_fs := (io_fs example_world)([109] \<mapsto> master_text [97] two_chunks, [97] \<mapsto> replicate 1048576 0)\<rparr>"

definition old_buffer :: recv_buffer_t where
  "old_buffer = (full_buffer 0 9)\<lparr>rb_socket := 7, rb_busy := False\<rparr>"

definition between_chunks :: peer_st where
  "between_chunks = example_peer [fresh_buffer (replicate 1500 0) 1 7, old_buffer]
     \<lparr>fm_init = True, fm_chunk_count = 2, fm_offset = Some [0, 1], fm_top = 2, fm_timer = Some [0, 0], fm_already_used = Some []\<rparr>"

lemma two_chunk_world_ok: "world_ok two_chunks example_config two_chunk_world"
proof -
  have "path_ok [97]" by (simp add: path_ok_def is_space_def)
  then have "\<exists>path content. io_fs two_chunk_world [109] = Some (master_text path two_chunks) \<and> path_ok path \<and>
      io_fs two_chunk_world path = Some content \<and> 1048576 \<le> length content"
    by (intro exI [of _ "[97]"] exI [of _ "replicate 1048576 0"]) (simp add: two_chunk_world_def)
  moreover have "world_ok [(0, replicate 20 1)] example_config example_world"
    using example_world_ok [of "[111]"] by (simp add: example_config_def)
  then have "io_slack two_chunk_world \<noteq> [] \<and> length (io_local two_chunk_world) = 100 \<and> length (io_data two_chunk_world) = 524288 \<and>
      length (io_content two_chunk_world) = 1500 \<and> readable (io_beyond two_chunk_world) \<and> io_fopen_ok two_chunk_world \<and>
      silent (io_tracker two_chunk_world) \<and> (\<exists>junk. c_string (io_stk two_chunk_world) = Inr junk \<and> length junk \<le> 1195)"
    by (simp add: world_ok_def two_chunk_world_def)
  moreover have "io_fs two_chunk_world [104] = Some (chunk_text [(0, replicate 20 1)])"
    by (simp add: two_chunk_world_def example_world_def example_io_def)
  ultimately show ?thesis
    unfolding world_ok_def by (fastforce simp: example_config_def two_chunks_def)
qed

lemma between_chunks_begun:
  "next_chunk_begun two_chunks two_chunk_world (peer_addr (hd (peers example_config))) 7 0 (replicate 524288 9) 1 between_chunks"
proof -
  have wf: "recv_wf (replicate 524288 9) old_buffer" "received old_buffer = {..<512}"
    using full_buffer_wf [of 9 0] full_buffer_received [of 0 9] by (simp_all add: old_buffer_def recv_wf_def received_def)
  have "buffer_ok old_buffer" by (simp add: buffer_ok_def old_buffer_def full_buffer_def)
  moreover have "manager_ready [0, 1] (ps_fm between_chunks)"
    by (simp add: manager_ready_def between_chunks_def example_peer_def manager_offsets_def)
  then have "manager_ok two_chunks (ps_fm between_chunks)"
    unfolding manager_ok_def by (auto simp: master_hash_def two_chunks_def intro!: exI [of _ "[0, 1]"])
  ultimately have "peer_ok two_chunks between_chunks"
    using initial_peer_ok [of two_chunks] fresh_buffer_ok [of "replicate 1500 0" 1 7]
    by (simp add: peer_ok_def between_chunks_def example_peer_def)
  moreover have "node_of_addr (peer_addr (hd (peers example_config))) (peers example_config) = 7"
    by (simp add: node_of_addr_def example_config_def)
  moreover have "init_recv_buffer (replicate 1500 0) 1 7 [old_buffer] = (ps_recv between_chunks, 1)"
    by (simp add: init_recv_buffer_def between_chunks_def example_peer_def old_buffer_def)
  moreover have "rb_socket old_buffer = 7" "rb_offset old_buffer = 0" "\<not> rb_busy old_buffer"
    by (simp_all add: old_buffer_def full_buffer_def)
  ultimately show ?thesis
    unfolding next_chunk_begun_def using wf two_chunk_world_ok \<open>manager_ready [0, 1] (ps_fm between_chunks)\<close>
    by (simp add: between_chunks_def example_peer_def) (metis length_replicate)
qed

theorem late_packet_corrupts_file_witness:
  "\<exists>C' out. deliver two_chunk_world (replicate 1500 0) (peer_addr (hd (peers example_config)))
       (data_msg (replicate 524288 9) 3 # map (data_msg (replicate 524288 7)) (filter (\<lambda>j. j \<noteq> 3) [0..<512])) between_chunks = Inr C' \<and>
     ps_written C' = [(output_file example_config, out)] \<and> out \<noteq> replicate 524288 9 @ replicate 524288 7"
proof -
  let ?A = "replicate 524288 9 :: byte list" and ?F = "replicate 524288 7 :: byte list"
  have F: "length ?F = 524288" "length (replicate 1500 0 :: byte list) = 1500" and k: "(3 :: nat) < 512" by simp_all
  have js: "distinct (filter (\<lambda>j. j \<noteq> 3) [0..<512])" "set (filter (\<lambda>j. j \<noteq> 3) [0..<512]) = {..<512} - {3}" by auto
  have "hd (chunk_slice ?A 3) = 9" "hd (chunk_slice ?F 3) = 7" by (simp_all add: chunk_slice_def)
  then have "chunk_slice ?A 3 \<noteq> chunk_slice ?F 3" by force
  moreover have "ps_written between_chunks = []" "ps_config between_chunks = example_config"
    by (simp_all add: between_chunks_def example_peer_def)
  ultimately show ?thesis
    using late_packet_corrupts_file [OF between_chunks_begun F(1) k F(2) js] by auto
qed

text \<open>
  A late offer for a complete and released chunk is taken again: the chunk counts as incomplete from then on, until
  the second server has sent it too.
\<close>

theorem late_offer_reopens_chunk:
  assumes "peer_ok ms C" and "world_ok ms (ps_config C) io" and "length buf = 1500"
    and "node_of_addr server (peers (ps_config C)) = node" and "node \<noteq> -1" and "offers offer hs" and "fm_init (ps_fm C)"
    and "\<forall>h \<in> set hs. master_offset ms h = -1 \<or> master_offset ms h \<in> set (offsets_of (ps_fm C))"
    and "List.find (\<lambda>h. master_offset ms h \<noteq> -1 \<and> \<not> busy_with node (master_offset ms h) C) hs = Some h"
    and "is_buffer_full (master_offset ms h) (ps_recv C) = 1"
  shows "\<exists>C'. process_inbound_udp io buf offer server C = Inr (C', [(server, get_msg h)]) \<and>
    is_buffer_full (master_offset ms h) (ps_recv C') \<noteq> 1"
proof -
  obtain C' where c: "process_inbound_udp io buf offer server C = Inr (C', [(server, get_msg h)])"
      "ps_recv C' = fst (init_recv_buffer (io_content io) (master_offset ms h) node (ps_recv C))"
      "snd (init_recv_buffer (io_content io) (master_offset ms h) node (ps_recv C)) = 1"
    using offer_taken [OF assms(1-9)] by blast
  then have "fresh_buffer (io_content io) (master_offset ms h) node \<in> set (ps_recv C')"
    by (auto simp: init_recv_buffer_def split: if_splits)
  then have "is_buffer_full (master_offset ms h) (ps_recv C') \<noteq> 1"
    unfolding is_buffer_full_iff by (force simp: fresh_buffer_def)
  with c(1) show ?thesis by blast
qed

end
