(* ===== verification/Assembly.thy ===== *)
theory Assembly
  imports Swarm
begin

text \<open>
  What a download promises, without datagrams, buffers and timers. A chunk may be fetched from several servers, and
  every attempt is a copy of its own: packets are added to it in any order, and none is ever taken away, also
  when the attempt is given up for another server. The file appears with the packet that completes the last copy,
  not of one copy of each chunk but of all copies that were ever begun. The client of \<open>Swarm\<close>, with its network,
  implements this specification.

  The notes in \<^verbatim>\<open>vulnerbilities.txt\<close> describe something else for a server that stopped sending: all packets of its chunk
  are discarded. The code keeps them, in the buffer of the abandoned attempt, and that buffer is one of those that
  have to become full.
\<close>

section \<open>The specification\<close>

text \<open>
  \<open>as_got off srv\<close>: the packets of the copy of the chunk \<open>off\<close> from the server \<open>srv\<close>, if one was begun. \<open>as_file\<close>:
  the file, once there is one. The bytes of the chunks come from \<open>source\<close>.
\<close>

record assembly =
  as_got :: "int \<Rightarrow> int \<Rightarrow> nat set option"
  as_file :: "byte list option"

definition complete :: "int list \<Rightarrow> (int \<Rightarrow> int \<Rightarrow> nat set option) \<Rightarrow> bool" where
  "complete offs g \<longleftrightarrow>
     (\<forall>off \<in> set offs. (\<exists>srv. g off srv \<noteq> None) \<and> (\<forall>srv. g off srv = None \<or> g off srv = Some {..<512}))"

definition begin_copy :: "int \<Rightarrow> int \<Rightarrow> (int \<Rightarrow> int \<Rightarrow> nat set option) \<Rightarrow> int \<Rightarrow> int \<Rightarrow> nat set option" where
  "begin_copy off srv g = g(off := (g off)(srv := Some {}))"

definition add_packet :: "int \<Rightarrow> int \<Rightarrow> nat \<Rightarrow> (int \<Rightarrow> int \<Rightarrow> nat set option) \<Rightarrow> int \<Rightarrow> int \<Rightarrow> nat set option" where
  "add_packet off srv k g = g(off := (g off)(srv := map_option (insert k) (g off srv)))"

inductive assembly_step :: "(int \<Rightarrow> byte list \<Rightarrow> bool) \<Rightarrow> int list \<Rightarrow> assembly \<Rightarrow> assembly \<Rightarrow> bool" for source offs where
  begin_copy: "as_file a = None \<Longrightarrow> off \<in> set offs \<Longrightarrow> as_got a off srv = None \<Longrightarrow>
    assembly_step source offs a (a\<lparr>as_got := begin_copy off srv (as_got a)\<rparr>)"
| packet: "as_file a = None \<Longrightarrow> off \<in> set offs \<Longrightarrow> as_got a off srv \<noteq> None \<Longrightarrow> k < 512 \<Longrightarrow>
    \<not> complete offs (add_packet off srv k (as_got a)) \<Longrightarrow>
    assembly_step source offs a (a\<lparr>as_got := add_packet off srv k (as_got a)\<rparr>)"
| last_packet: "as_file a = None \<Longrightarrow> off \<in> set offs \<Longrightarrow> as_got a off srv \<noteq> None \<Longrightarrow> k < 512 \<Longrightarrow>
    complete offs (add_packet off srv k (as_got a)) \<Longrightarrow> list_all2 source offs Fs \<Longrightarrow>
    assembly_step source offs a (a\<lparr>as_got := add_packet off srv k (as_got a), as_file := Some (concat Fs)\<rparr>)"

abbreviation assembly_reach where
  "assembly_reach source offs \<equiv> (assembly_step source offs)\<^sup>*\<^sup>*"

definition empty_assembly :: assembly where
  "empty_assembly = \<lparr>as_got = (\<lambda>_ _. None), as_file = None\<rparr>"

text \<open>The file exists exactly when everything is there, and is made of what the sources have.\<close>

lemma begun_incomplete: "off \<in> set offs \<Longrightarrow> \<not> complete offs (begin_copy off srv g)"
proof
  assume "off \<in> set offs" "complete offs (begin_copy off srv g)"
  then have "begin_copy off srv g off srv = None \<or> begin_copy off srv g off srv = Some {..<512}"
    unfolding complete_def by blast
  then have "{} = {..<512 :: nat}" by (simp add: begin_copy_def)
  moreover have "(0 :: nat) \<in> {..<512}" by simp
  ultimately show False by blast
qed

lemma assembly_file:
  assumes "assembly_reach source offs empty_assembly a" "offs \<noteq> []"
  shows "case as_file a of None \<Rightarrow> \<not> complete offs (as_got a)
    | Some file \<Rightarrow> complete offs (as_got a) \<and> (\<exists>Fs. file = concat Fs \<and> list_all2 source offs Fs)"
  using assms(1)
proof (induction rule: rtranclp_induct)
  case base
  have "hd offs \<in> set offs" using assms(2) by simp
  then show ?case unfolding empty_assembly_def complete_def by auto
next
  case (step a a')
  from step.hyps(2) show ?case by cases (auto simp: begun_incomplete)
qed

text \<open>No packet is lost, and no copy.\<close>

definition grows :: "assembly \<Rightarrow> assembly \<Rightarrow> bool" where
  "grows a a' \<longleftrightarrow> (\<forall>off srv P. as_got a off srv = Some P \<longrightarrow> (\<exists>Q. as_got a' off srv = Some Q \<and> P \<subseteq> Q))"

lemma assembly_grows:
  assumes "assembly_reach source offs a a'" shows "grows a a'"
  using assms
proof (induction rule: rtranclp_induct)
  case (step a1 a2)
  have "grows a1 a2" using step.hyps(2) by cases (auto simp: grows_def add_packet_def begin_copy_def)
  with step.IH show ?case unfolding grows_def by (meson order_trans)
qed (simp add: grows_def)

section \<open>The client implements it\<close>

text \<open>
  The copies that the buffers hold. \<open>own_keys\<close>: no server has two buffers of the same chunk of the list.
\<close>

definition copies :: "recv_buffer_t list \<Rightarrow> int \<Rightarrow> int \<Rightarrow> nat set option" where
  "copies l off srv = (if (srv, off) \<in> set (buffer_keys l) then Some (got_from srv l) else None)"

definition own_keys :: "int list \<Rightarrow> recv_buffer_t list \<Rightarrow> bool" where
  "own_keys offs l \<longleftrightarrow> distinct (filter (\<lambda>k. snd k \<in> set offs) (buffer_keys l))"

definition represents ::
  "(nat \<times> byte list) list \<Rightarrow> sockaddr_in \<Rightarrow> (bt_config_t \<times> files) set \<Rightarrow> int list \<Rightarrow> byte list
     \<Rightarrow> (byte list \<times> byte list) list \<Rightarrow> swarm \<Rightarrow> assembly \<Rightarrow> bool" where
  "represents ms client srvs offs out before s a \<longleftrightarrow>
     (case as_file a of
        None \<Rightarrow> swarm_ok ms client srvs offs out before s \<and> own_keys offs (ps_recv (sw_client s)) \<and>
          (\<forall>off \<in> set offs. as_got a off = copies (ps_recv (sw_client s)) off)
      | Some file \<Rightarrow> \<not> fm_init (ps_fm (sw_client s)) \<and> ps_written (sw_client s) = (out, file) # before)"

lemma same_data_copies: "same_data l l' \<Longrightarrow> copies l' = copies l \<and> own_keys offs l' = own_keys offs l"
  by (simp add: same_data_def copies_def own_keys_def fun_eq_iff)

lemma represents_same_data:
  assumes "represents ms client srvs offs out before s a" "as_file a = None"
    and "same_data (ps_recv (sw_client s)) (ps_recv (sw_client s'))" "swarm_ok ms client srvs offs out before s'"
  shows "represents ms client srvs offs out before s' a"
  using assms same_data_copies [OF assms(3)] by (simp add: represents_def)

lemma own_keys_buffer:
  "own_keys offs l \<Longrightarrow> b \<in> set l \<Longrightarrow> b' \<in> set l \<Longrightarrow> rb_socket b = rb_socket b' \<Longrightarrow> rb_offset b = rb_offset b' \<Longrightarrow>
     rb_offset b \<in> set offs \<Longrightarrow> b = b'"
  by (induction l) (auto simp: own_keys_def buffer_keys_def image_iff split: if_splits)

lemma full_copies:
  assumes ok: "links_ok ms client srvs offs known ls l" and own: "own_keys offs l" and off: "off \<in> set offs"
  shows "is_buffer_full off l = 1 \<longleftrightarrow>
    (\<exists>srv. copies l off srv \<noteq> None) \<and> (\<forall>srv. copies l off srv = None \<or> copies l off srv = Some {..<512})"
proof -
  have total: "rb_total_recv b = 524288 \<longleftrightarrow> got_from (rb_socket b) l = {..<512}" if b: "b \<in> set l" "rb_offset b = off" for b
  proof -
    have "(rb_socket b, off) \<in> set (buffer_keys l)" using b by (auto simp: buffer_keys_def)
    with ok off obtain F where "fetching (rb_socket b) off F l" unfolding links_ok_def by fastforce
    then obtain b' where b': "get_recv_by_socket (rb_socket b) l = Some b'" "b' \<in> set l" "recv_wf F b'"
        "rb_socket b' = rb_socket b" "rb_offset b' = off"
      by (rule fetching_buffer)
    then have "b' = b" using own_keys_buffer [OF own, of b' b] b off by simp
    with b'(1,3) show ?thesis using full_received received_full by (auto simp: got_from_def)
  qed
  have keys: "(srv, off) \<in> set (buffer_keys l) \<longleftrightarrow> (\<exists>b \<in> set l. rb_socket b = srv \<and> rb_offset b = off)" for srv
    by (auto simp: buffer_keys_def)
  show ?thesis unfolding is_buffer_full_iff copies_def keys using total by auto
qed

text \<open>A DATA packet is a packet of the specification.\<close>

lemma data_refines:
  assumes ok: "swarm_ok ms client srvs offs out before s"
    and rep: "represents ms client srvs offs out before s a" "as_file a = None"
    and m: "i < length (sw_links s)" "l = sw_links s ! i" "m \<in> lk_data l"
    and w: "world_ok ms (ps_config (sw_client s)) io" "length buf = 1500"
    and p: "process_inbound_udp io buf m (lk_addr l) (sw_client s) = Inr (C, sent)"
  shows "\<exists>a'. assembly_step (on_server ms srvs) offs a a' \<and>
    represents ms client srvs offs out before
      (s\<lparr>sw_client := C, sw_links := (sw_links s)[i := l\<lparr>lk_acks := lk_acks l \<union> sent_to (lk_addr l) sent\<rparr>]\<rparr>) a'"
proof -
  let ?C = "sw_client s" and ?e = "\<lparr>env_buf = buf, env_beyond = io_beyond io\<rparr>"
  have C: "peer_ok ms ?C" "fm_init (ps_fm ?C)" "manager_ready offs (ps_fm ?C)"
      "links_ok ms client srvs offs (peers (ps_config ?C)) (sw_links s) (ps_recv ?C)"
      "output_file (ps_config ?C) = out" "ps_written ?C = before"
    using ok by (simp_all add: swarm_ok_def)
  have e: "env_sane ?e" using w by (simp add: env_sane_def world_ok_def)
  have "link_ok ms client srvs offs (peers (ps_config ?C)) l (ps_recv ?C)" using C(4) m(1,2) by (simp add: links_ok_def)
  then obtain off F k where f: "off \<in> set offs" "on_server ms srvs off F" "k < 512" "m = data_msg F k"
      "ct.sys_inv F (lk_client_id l) (lk_id l) off (link_transfer l (ps_recv ?C))" "fetching (lk_id l) off F (ps_recv ?C)"
    using sending_data [OF _ m(3)] by blast
  obtain C' x bufs where r: "process_inbound_udp io buf m (lk_addr l) ?C = Inr (C', [(lk_addr l, ack_msg x)])"
      "ps_config C' = ps_config ?C" "recv_datagram (lk_id l) ?e m (ps_recv ?C) = Inr (bufs, [ack_msg x])"
      "(\<forall>off \<in> set offs. is_buffer_full off bufs = 1) \<and> \<not> fm_init (ps_fm C') \<and>
         (\<exists>Fs. ps_written C' = (output_file (ps_config ?C), concat Fs) # ps_written ?C \<and> list_all2 (on_server ms srvs) offs Fs) \<or>
       \<not> (\<forall>off \<in> set offs. is_buffer_full off bufs = 1) \<and> same_data bufs (ps_recv C') \<and>
       peer_ok ms C' \<and> fm_init (ps_fm C') \<and> manager_ready offs (ps_fm C') \<and> ps_written C' = ps_written ?C \<and>
       links_ok ms client srvs offs (peers (ps_config ?C))
         ((sw_links s)[i := l\<lparr>lk_acks := lk_acks l \<union> {ack_msg x}\<rparr>]) (ps_recv C')"
    using data_step [OF C(1-4) m w] by (elim exE conjE) (rule that)
  have same: "C' = C" "sent_to (lk_addr l) sent = {ack_msg x}" using r(1) p by (auto simp: sent_to_def)
  let ?l1 = "l\<lparr>lk_acks := lk_acks l \<union> {ack_msg x}\<rparr>" and ?g = "add_packet off (lk_id l) k (as_got a)"
  let ?s1 = "s\<lparr>sw_client := C', sw_links := (sw_links s)[i := ?l1]\<rparr>"
  note rd = r(3) [unfolded f(4)]
  have "data_msg F k \<in> lk_data l" using m(3) f(4) by simp
  from data_stored [OF C(4) m(1,2) f(3) this f(6) e rd]
  have stored: "links_ok ms client srvs offs (peers (ps_config ?C)) ((sw_links s)[i := ?l1]) bufs" by simp
  have keys: "buffer_keys bufs = buffer_keys (ps_recv ?C)" by (rule recv_datagram_keys [OF rd])
  have own: "own_keys offs bufs" using rep keys by (simp add: represents_def own_keys_def)
  obtain b where "b \<in> set (ps_recv ?C)" "rb_socket b = lk_id l" "rb_offset b = off" using fetching_buffer [OF f(6)] by blast
  then have key: "(lk_id l, off) \<in> set (buffer_keys (ps_recv ?C))"
    using imageI [of b "set (ps_recv ?C)" "\<lambda>b. (rb_socket b, rb_offset b)"] by (simp add: buffer_keys_def)
  have "as_got a off (lk_id l) \<noteq> None" using rep f(1) key by (simp add: represents_def copies_def)
  note begun = this
  have got: "?g o2 srv = copies bufs o2 srv" if o2: "o2 \<in> set offs" for o2 srv
  proof -
    have old: "as_got a o2 srv = copies (ps_recv ?C) o2 srv" "as_got a off = copies (ps_recv ?C) off"
      using rep o2 f(1) by (simp_all add: represents_def)
    consider (own) "o2 = off" "srv = lk_id l" | (none) "(srv, o2) \<notin> set (buffer_keys (ps_recv ?C))" "(srv, o2) \<noteq> (lk_id l, off)"
      | (other) "(srv, o2) \<in> set (buffer_keys (ps_recv ?C))" "(srv, o2) \<noteq> (lk_id l, off)" by blast
    then show ?thesis
    proof cases
      case own
      have "got_from (lk_id l) bufs = insert k (got_from (lk_id l) (ps_recv ?C))"
        using recv_datagram_ok [OF f(6) e f(3)] rd by auto
      then show ?thesis using own old(2) key by (simp add: add_packet_def copies_def keys)
    next
      case none
      then show ?thesis using old by (auto simp: add_packet_def copies_def keys)
    next
      case other
      then obtain G where G: "fetching srv o2 G (ps_recv ?C)" using C(4) o2 unfolding links_ok_def by fastforce
      then have "srv \<noteq> lk_id l" using fetching_same_node [OF _ f(6)] other(2) by blast
      with recv_datagram_other [OF f(6,3) e rd G] have "got_from srv bufs = got_from srv (ps_recv ?C)" by blast
      then show ?thesis using \<open>srv \<noteq> lk_id l\<close> old by (auto simp: add_packet_def copies_def keys)
    qed
  qed
  then have full: "(\<forall>off \<in> set offs. is_buffer_full off bufs = 1) \<longleftrightarrow> complete offs ?g"
    using full_copies [OF stored own] by (simp add: complete_def)
  from r(4) show ?thesis
  proof
    assume d: "(\<forall>off \<in> set offs. is_buffer_full off bufs = 1) \<and> \<not> fm_init (ps_fm C') \<and>
      (\<exists>Fs. ps_written C' = (output_file (ps_config ?C), concat Fs) # ps_written ?C \<and> list_all2 (on_server ms srvs) offs Fs)"
    then obtain Fs where Fs: "ps_written C' = (out, concat Fs) # before" "list_all2 (on_server ms srvs) offs Fs"
      unfolding C(5,6) by blast
    let ?a' = "a\<lparr>as_got := ?g, as_file := Some (concat Fs)\<rparr>"
    have "assembly_step (on_server ms srvs) offs a ?a'"
      using rep(2) f(1,3) begun d full Fs(2) by (intro assembly_step.last_packet) simp_all
    moreover have "represents ms client srvs offs out before ?s1 ?a'" using d Fs(1) by (simp add: represents_def)
    ultimately show ?thesis unfolding same by blast
  next
    assume n: "\<not> (\<forall>off \<in> set offs. is_buffer_full off bufs = 1) \<and> same_data bufs (ps_recv C') \<and>
       peer_ok ms C' \<and> fm_init (ps_fm C') \<and> manager_ready offs (ps_fm C') \<and> ps_written C' = ps_written ?C \<and>
       links_ok ms client srvs offs (peers (ps_config ?C)) ((sw_links s)[i := ?l1]) (ps_recv C')"
    let ?a' = "a\<lparr>as_got := ?g\<rparr>"
    have "assembly_step (on_server ms srvs) offs a ?a'"
      using rep(2) f(1,3) begun n full by (intro assembly_step.packet) simp_all
    moreover have "swarm_ok ms client srvs offs out before ?s1" using n C(5,6) r(2) by (simp add: swarm_ok_def)
    then have "represents ms client srvs offs out before ?s1 ?a'"
      using n got own rep(2) same_data_copies [of bufs "ps_recv C'" offs] by (simp add: represents_def fun_eq_iff)
    ultimately show ?thesis unfolding same by blast
  qed
qed

text \<open>An offer that is taken begins a copy; the other steps leave the copies alone.\<close>

lemma opened_refines:
  assumes rep: "represents ms client srvs offs out before s a" "as_file a = None"
    and bufs: "ps_recv (sw_client s') = fresh_buffer uninit off node # ps_recv (sw_client s)"
      "node \<notin> fst ` set (buffer_keys (ps_recv (sw_client s)))" and off: "off \<in> set offs"
    and ok: "swarm_ok ms client srvs offs out before s'"
  shows "\<exists>a'. assembly_step (on_server ms srvs) offs a a' \<and> represents ms client srvs offs out before s' a'"
proof -
  let ?bufs = "ps_recv (sw_client s)" and ?a = "a\<lparr>as_got := begin_copy off node (as_got a)\<rparr>"
  have keys: "buffer_keys (ps_recv (sw_client s')) = (node, off) # buffer_keys ?bufs"
    by (simp add: bufs(1) buffer_keys_def fresh_buffer_def)
  have new: "(node, o2) \<notin> set (buffer_keys ?bufs)" for o2 using bufs(2) by force
  have "as_got a off node = None" using rep off new by (simp add: represents_def copies_def)
  with rep(2) off have "assembly_step (on_server ms srvs) offs a ?a" by (intro assembly_step.begin_copy) simp_all
  moreover have "begin_copy off node (as_got a) o2 = copies (ps_recv (sw_client s')) o2" if "o2 \<in> set offs" for o2
  proof
    fix srv
    have "got_from srv (ps_recv (sw_client s')) = (if srv = node then {} else got_from srv ?bufs)"
      by (simp add: bufs(1) got_from_def get_recv_by_socket_def fresh_buffer_def received_def)
    then show "begin_copy off node (as_got a) o2 srv = copies (ps_recv (sw_client s')) o2 srv"
      using rep that off new by (simp add: represents_def begin_copy_def copies_def keys)
  qed
  moreover have "own_keys offs (ps_recv (sw_client s'))" using rep off new by (simp add: represents_def own_keys_def keys)
  ultimately show ?thesis using rep(2) ok by (intro exI [of _ ?a]) (simp add: represents_def)
qed

lemma idle_refines:
  assumes ok: "swarm_ok ms client srvs offs out before s" and step: "swarm_step ms client offs s s'"
    and rep: "represents ms client srvs offs out before s a" "as_file a = None"
    and same: "same_data (ps_recv (sw_client s)) (ps_recv (sw_client s'))" "fm_init (ps_fm (sw_client s'))"
  shows "represents ms client srvs offs out before s' a"
proof (rule represents_same_data [OF rep same(1)])
  show "swarm_ok ms client srvs offs out before s'"
    using swarm_ok_step [OF ok step] same(2) by (simp add: swarm_done_def)
qed

lemma swarm_step_refines:
  assumes rep: "represents ms client srvs offs out before s a" and step: "swarm_step ms client offs s s'"
  shows "\<exists>a'. assembly_reach (on_server ms srvs) offs a a' \<and> represents ms client srvs offs out before s' a'"
proof (cases "as_file a")
  case (Some content)
  with rep have d: "\<not> fm_init (ps_fm (sw_client s))" "ps_written (sw_client s) = (out, content) # before"
    by (simp_all add: represents_def)
  from step d Some have "represents ms client srvs offs out before s' a"
    by (cases rule: swarm_step.cases)
      (auto simp: represents_def dest!: check_timeouts_frame dest: repeat_requests_closed)
  then show ?thesis by blast
next
  case None
  then have ok: "swarm_ok ms client srvs offs out before s" using rep by (simp add: represents_def)
  then have fm: "fm_init (ps_fm (sw_client s))" by (simp add: swarm_ok_def)
  note idle = idle_refines [OF ok step rep None]
  have refl: "same_data l l" for l by (simp add: same_data_def)
  from step show ?thesis
  proof (cases rule: swarm_step.cases)
    case (offer_arrives i l m io buf hs h C out')
    note oa = offer_arrives
    obtain uninit where u: "ps_recv C = fresh_buffer uninit (master_offset ms h) (lk_id l) # ps_recv (sw_client s)"
        "fm_init (ps_fm C)" "master_offset ms h \<in> set offs"
      using offer_step [OF swarm_ok_C(1) [OF ok] fm swarm_ok_C(3,4) [OF ok] oa(2-7,9-12)] by blast
    then have "swarm_ok ms client srvs offs out before s'"
      using swarm_ok_step [OF ok step] oa(1) by (simp add: swarm_done_def)
    with opened_refines [OF rep None _ oa(11) u(3), of s' uninit] u(1) oa(1) show ?thesis by auto
  next
    case (offer_passed_over i l m io buf hs C out')
    note op = offer_passed_over
    have "link_ok ms client srvs offs (peers (ps_config (sw_client s))) l (ps_recv (sw_client s))"
      using swarm_ok_C(4) [OF ok] op(2,3) by (simp add: links_ok_def)
    from offer_passed_step [OF swarm_ok_C(1-3) [OF ok] this op(4,5,6,8,9,10)] rep op(1) show ?thesis by auto
  next
    case (data_reaches i l m io buf C sent)
    from data_refines [OF ok rep None data_reaches(2-6,8)] show ?thesis unfolding data_reaches(1) by blast
  next
    case (client_timers_run_out io C sent)
    then show ?thesis using idle fm refl check_timeouts_frame [of io "sw_client s" C sent] by auto
  next
    case (requests_repeated io C sent)
    then show ?thesis
      using idle fm repeat_requests_ok [OF swarm_ok_C(1) [OF ok] requests_repeated(2)] release_all_same_data by fastforce
  qed (use idle fm refl in auto)
qed

interpretation swarm_assembly: simulation "swarm_step ms client offs" "assembly_step (on_server ms srvs) offs"
    "represents ms client srvs offs out before" for ms client srvs offs out before
  by unfold_locales (rule swarm_step_refines)

lemma ready_represents:
  assumes "swarm_ready ms client offs s"
  shows "represents ms client (servers_of s) offs (output_file (ps_config (sw_client s))) (ps_written (sw_client s)) s empty_assembly"
proof -
  let ?keys = "buffer_keys (ps_recv (sw_client s))"
  have fresh: "k \<notin> set ?keys" if "snd k \<in> set offs" for k
    using assms that unfolding swarm_ready_def disjoint_iff by (metis imageI)
  then have none: "filter (\<lambda>k. snd k \<in> set offs) ?keys = []" by (auto simp: filter_empty_conv)
  have "copies (ps_recv (sw_client s)) off = (\<lambda>_. None)" if "off \<in> set offs" for off
    using fresh [of "(_, off)"] that by (simp add: copies_def fun_eq_iff)
  with none show ?thesis
    using swarm_ready_ok [OF assms] by (simp add: represents_def empty_assembly_def own_keys_def)
qed

section \<open>The refinement\<close>

text \<open>
  C2. A client that downloads from any number of servers, taking at most one offer from each, implements the
  specification of a download: what happens between a start and any later state is, seen through the packets that
  its buffers hold and the file that it wrote, a sequence of steps that begin a copy of a chunk from a server or
  add a packet to one, the last of which makes the file. So no packet is lost again by repetitions, timers or
  requests for stalled chunks, not even when a chunk is asked from another server, and the file is written with
  the packet that completes the last of all the copies that were begun, not earlier, and only once.
\<close>

theorem swarm_refines_assembly:
  assumes "swarm_ready ms client offs s0" and "swarm_reach ms client offs s0 s"
  shows "\<exists>a. assembly_reach (on_server ms (servers_of s0)) offs empty_assembly a \<and>
    (case as_file a of
       None \<Rightarrow> fm_init (ps_fm (sw_client s)) \<and> ps_written (sw_client s) = ps_written (sw_client s0) \<and>
         (\<forall>off \<in> set offs. as_got a off = copies (ps_recv (sw_client s)) off)
     | Some content \<Rightarrow> \<not> fm_init (ps_fm (sw_client s)) \<and>
         ps_written (sw_client s) = (output_file (ps_config (sw_client s0)), content) # ps_written (sw_client s0))"
proof -
  obtain a where a: "assembly_reach (on_server ms (servers_of s0)) offs empty_assembly a"
      "represents ms client (servers_of s0) offs (output_file (ps_config (sw_client s0))) (ps_written (sw_client s0)) s a"
    using swarm_assembly.run [OF assms(2) ready_represents [OF assms(1)]] by blast
  then show ?thesis
    by (intro exI [of _ a]) (auto simp: represents_def swarm_ok_def split: option.splits)
qed

theorem swarm_refines_assembly_witness:
  "\<exists>a. assembly_reach (on_server [(0, replicate 20 1)] {(example_config, io_fs example_world)}) [0] empty_assembly a \<and>
     as_file a = Some (replicate 524288 0) \<and> (\<exists>srv. as_got a 0 srv = Some {..<512})"
proof -
  obtain req s F where s: "swarm_ready [(0, replicate 20 1)] (peer_addr (hd (peers example_config))) [0] (example_start req)"
      "swarm_reach [(0, replicate 20 1)] (peer_addr (hd (peers example_config))) [0] (example_start req) s"
      "ps_written (sw_client s) = [(output_file example_config, F)]" "ps_written (sw_client (example_start req)) = []"
      "servers_of (example_start req) = {(example_config, io_fs example_world)}"
    using example_swarm_run by blast
  obtain a where a: "assembly_reach (on_server [(0, replicate 20 1)] {(example_config, io_fs example_world)}) [0] empty_assembly a"
      "as_file a \<noteq> None"
    using swarm_refines_assembly [OF s(1,2)] unfolding s(3-5) by (auto split: option.splits)
  then obtain content where c: "as_file a = Some content" by blast
  with assembly_file [OF a(1)] obtain Fs where f: "complete [0] (as_got a)" "content = concat Fs"
      "list_all2 (on_server [(0, replicate 20 1)] {(example_config, io_fs example_world)}) [0] Fs"
    by auto
  then have "content = replicate 524288 0" by (auto simp: list_all2_Cons1 dest: example_on_server)
  moreover obtain srv where "as_got a 0 srv \<noteq> None" using f(1) by (auto simp: complete_def)
  then have "\<exists>srv. as_got a 0 srv = Some {..<512}" using f(1) unfolding complete_def by (metis list.set_intros(1))
  ultimately show ?thesis using a(1) c by blast
qed

text \<open>In particular the buffers of a download only grow until the file is written, those of abandoned attempts too.\<close>

theorem packets_never_lost:
  assumes "swarm_ready ms client offs s0" and "swarm_reach ms client offs s0 s" and "swarm_reach ms client offs s s'"
    and "fm_init (ps_fm (sw_client s'))" and "off \<in> set offs"
    and "(srv, off) \<in> set (buffer_keys (ps_recv (sw_client s)))"
  shows "(srv, off) \<in> set (buffer_keys (ps_recv (sw_client s'))) \<and>
    got_from srv (ps_recv (sw_client s)) \<subseteq> got_from srv (ps_recv (sw_client s'))"
proof -
  obtain a where a: "represents ms client (servers_of s0) offs (output_file (ps_config (sw_client s0))) (ps_written (sw_client s0)) s a"
    using swarm_assembly.run [OF assms(2) ready_represents [OF assms(1)]] by blast
  obtain a' where a': "assembly_reach (on_server ms (servers_of s0)) offs a a'"
      "represents ms client (servers_of s0) offs (output_file (ps_config (sw_client s0))) (ps_written (sw_client s0)) s' a'"
    using swarm_assembly.run [OF assms(3) a] by blast
  have none: "as_file a' = None" using a'(2) assms(4) by (simp add: represents_def split: option.splits)
  have "as_file a = None"
    using a'(1) none by (induction rule: rtranclp_induct) (auto elim!: assembly_step.cases)
  with a assms(5,6) have "as_got a off srv = Some (got_from srv (ps_recv (sw_client s)))"
    by (simp add: represents_def copies_def)
  then obtain Q where Q: "as_got a' off srv = Some Q" "got_from srv (ps_recv (sw_client s)) \<subseteq> Q"
    using assembly_grows [OF a'(1)] unfolding grows_def by blast
  moreover have "as_got a' off srv = copies (ps_recv (sw_client s')) off srv"
    using none a'(2) assms(5) by (simp add: represents_def)
  ultimately show ?thesis by (auto simp: copies_def split: if_splits)
qed

end
