(* ===== verification/SwarmRun.thy ===== *)
theory SwarmRun
  imports Swarm
begin

text \<open>
  A run in which a download from several servers finishes. The servers answer requests with everything that
  they have, the client takes from each offer the first chunk that it is not fetching yet, and then the chunks
  are transferred. With the theorem of \<open>Swarm\<close> the file that such a run leaves is the right one.
\<close>

section \<open>Where the run stands\<close>

text \<open>
  What the run needs of a server: the request that it gets and the hashes in it, its has list, and its surroundings
  when it answers and sends.
\<close>

record source =
  src_hashes :: "byte list list"
  src_request :: "byte list"
  src_has :: "(nat \<times> byte list) list"
  src_asked :: io
  src_sending :: io

text \<open>
  \<open>source_ok ms offs taken off config fs src\<close>: the server can answer a request for chunks of the list \<open>offs\<close>, and of
  what it offers the first chunk outside \<open>taken\<close> is \<open>off\<close>.
\<close>

definition source_ok ::
  "(nat \<times> byte list) list \<Rightarrow> int list \<Rightarrow> int set \<Rightarrow> int \<Rightarrow> bt_config_t \<Rightarrow> files \<Rightarrow> source \<Rightarrow> bool" where
  "source_ok ms offs taken off config fs src \<longleftrightarrow> io_fs (src_asked src) = fs \<and> io_fs (src_sending src) = fs \<and>
     can_serve ms (src_asked src) config (src_hashes src) (src_has src) \<and> reads_request (src_request src) (src_hashes src) \<and>
     (\<forall>h \<in> set (src_hashes src). master_offset ms h = -1 \<or> master_offset ms h \<in> set offs) \<and>
     map_option (master_offset ms) (List.find (\<lambda>h. master_offset ms h \<noteq> -1 \<and> master_offset ms h \<notin> taken)
       (local_chunks (src_has src) (src_hashes src))) = Some off \<and>
     world_ok ms config (src_sending src) \<and> io_prev_ack (src_sending src) \<noteq> 0"

text \<open>\<open>waiting s off j\<close>: server \<open>j\<close> has begun to send the chunk \<open>off\<close>, and its first packet is under way.\<close>

definition waiting :: "swarm \<Rightarrow> int \<Rightarrow> nat \<Rightarrow> bool" where
  "waiting s off j \<longleftrightarrow> (\<exists>F. cp.at_packet F (lk_client_id (sw_links s ! j)) (lk_id (sw_links s ! j)) off 0
     (link_transfer (sw_links s ! j) (ps_recv (sw_client s))))"

definition same_peers :: "swarm \<Rightarrow> swarm \<Rightarrow> bool" where
  "same_peers s0 s \<longleftrightarrow> length (sw_links s) = length (sw_links s0) \<and> ps_config (sw_client s) = ps_config (sw_client s0) \<and>
     (\<forall>j < length (sw_links s0). ps_config (lk_server (sw_links s ! j)) = ps_config (lk_server (sw_links s0 ! j)))"

text \<open>
  \<open>rest_begun cs s0 m u s\<close>: server \<open>j\<close> sends the chunk \<open>cs ! j\<close>; the first \<open>m\<close> chunks are complete, and the servers
  from number \<open>u\<close> on wait for their first acknowledgement.
\<close>

definition rest_begun :: "int list \<Rightarrow> swarm \<Rightarrow> nat \<Rightarrow> nat \<Rightarrow> swarm \<Rightarrow> bool" where
  "rest_begun cs s0 m u s \<longleftrightarrow> same_peers s0 s \<and> length cs \<le> length (sw_links s0) \<and>
     (\<forall>off \<in> set cs. one_buffer off (ps_recv (sw_client s))) \<and>
     (\<forall>j < m. is_buffer_full (cs ! j) (ps_recv (sw_client s)) = 1) \<and>
     (\<forall>j. u \<le> j \<and> j < length cs \<longrightarrow> waiting s (cs ! j) j)"

text \<open>
  \<open>stored\<close>: the client has the first \<open>k\<close> packets of the chunk \<open>F\<close> of server \<open>m\<close>. \<open>at_chunk\<close>: and the server is ready to go on.
\<close>

definition stored ::
  "(nat \<times> byte list) list \<Rightarrow> sockaddr_in \<Rightarrow> (bt_config_t \<times> files) set \<Rightarrow> int list \<Rightarrow> byte list
     \<Rightarrow> (byte list \<times> byte list) list \<Rightarrow> int list \<Rightarrow> swarm \<Rightarrow> nat \<Rightarrow> byte list \<Rightarrow> nat \<Rightarrow> swarm \<Rightarrow> bool" where
  "stored ms client srvs offs out before cs s0 m F k s \<longleftrightarrow>
     swarm_ok ms client srvs offs out before s \<and> rest_begun cs s0 m (Suc m) s \<and> m < length cs \<and>
     ct.sys_inv F (lk_client_id (sw_links s ! m)) (lk_id (sw_links s ! m)) (cs ! m)
       (link_transfer (sw_links s ! m) (ps_recv (sw_client s))) \<and>
     got_from (lk_id (sw_links s ! m)) (ps_recv (sw_client s)) = {..<k}"

text \<open>The server of the link is about to send packet \<open>k\<close>, and what it has sent so far is still under way.\<close>

definition sends :: "byte list \<Rightarrow> nat \<Rightarrow> link \<Rightarrow> bool" where
  "sends F k l \<longleftrightarrow> k < 512 \<longrightarrow> ready_sender (lk_client_id l) F k (ps_sender (lk_server l), ps_tracker (lk_server l)) \<and>
     (\<forall>j \<in> sent_by (lk_client_id l) (ps_sender (lk_server l), ps_tracker (lk_server l)). data_msg F j \<in> lk_data l)"

definition at_chunk ::
  "(nat \<times> byte list) list \<Rightarrow> sockaddr_in \<Rightarrow> (bt_config_t \<times> files) set \<Rightarrow> int list \<Rightarrow> byte list
     \<Rightarrow> (byte list \<times> byte list) list \<Rightarrow> int list \<Rightarrow> swarm \<Rightarrow> nat \<Rightarrow> byte list \<Rightarrow> nat \<Rightarrow> swarm \<Rightarrow> bool" where
  "at_chunk ms client srvs offs out before cs s0 m F k s \<longleftrightarrow>
     stored ms client srvs offs out before cs s0 m F k s \<and> sends F k (sw_links s ! m)"

lemma storedD:
  assumes "stored ms client srvs offs out before cs s0 m F k s"
  shows "swarm_ok ms client srvs offs out before s" "rest_begun cs s0 m (Suc m) s" "m < length cs"
    "ct.sys_inv F (lk_client_id (sw_links s ! m)) (lk_id (sw_links s ! m)) (cs ! m)
       (link_transfer (sw_links s ! m) (ps_recv (sw_client s)))"
    "got_from (lk_id (sw_links s ! m)) (ps_recv (sw_client s)) = {..<k}"
  using assms unfolding stored_def by blast+

lemma stored_more:
  assumes "stored ms client srvs offs out before cs s0 m F k s"
  shows "m < length (sw_links s)" "ps_config (sw_client s) = ps_config (sw_client s0)"
    "ps_config (lk_server (sw_links s ! m)) = ps_config (lk_server (sw_links s0 ! m))"
    "fetching (lk_id (sw_links s ! m)) (cs ! m) F (ps_recv (sw_client s))" "one_buffer (cs ! m) (ps_recv (sw_client s))"
  using storedD(2-4) [OF assms] by (simp_all add: rest_begun_def same_peers_def ct.sys_inv_def)

lemma at_chunk_packet:
  assumes "at_chunk ms client srvs offs out before cs s0 m F k s"
  shows "cp.at_packet F (lk_client_id (sw_links s ! m)) (lk_id (sw_links s ! m)) (cs ! m) k
    (link_transfer (sw_links s ! m) (ps_recv (sw_client s)))"
  using assms by (auto simp: at_chunk_def stored_def sends_def cp.at_packet_def)

lemma at_packet_sends:
  "cp.at_packet F (lk_client_id l) node off k (link_transfer l bufs) \<Longrightarrow>
     ct.sys_inv F (lk_client_id l) node off (link_transfer l bufs) \<and> got_from node bufs = {..<k} \<and> sends F k l"
  by (auto simp: cp.at_packet_def sends_def)

text \<open>What the other links do leaves a waiting server waiting.\<close>

lemma keeps_transfer_trans: "keeps_transfer n l l' \<Longrightarrow> keeps_transfer n l' l'' \<Longrightarrow> keeps_transfer n l l''"
  unfolding keeps_transfer_def by metis

lemma same_peers_step:
  assumes "same_peers s0 s" "ps_config C = ps_config (sw_client s)"
    and "ps_config (lk_server l) = ps_config (lk_server (sw_links s ! m))"
  shows "same_peers s0 (s\<lparr>sw_client := C, sw_links := (sw_links s)[m := l]\<rparr>)"
proof -
  have "ps_config (lk_server ((sw_links s)[m := l] ! j)) = ps_config (lk_server (sw_links s ! j))" if "j < length (sw_links s)" for j
    using assms(3) that by (cases "j = m") simp_all
  with assms(1,2) show ?thesis by (simp add: same_peers_def)
qed

lemma waiting_step:
  assumes "waiting s off j" "j \<noteq> m" "keeps_transfer (lk_id (sw_links s ! j)) (ps_recv (sw_client s)) (ps_recv C)"
  shows "waiting (s\<lparr>sw_client := C, sw_links := (sw_links s)[m := l]\<rparr>) off j"
proof -
  let ?l = "sw_links s ! j"
  obtain F where F: "cp.at_packet F (lk_client_id ?l) (lk_id ?l) off 0 (link_transfer ?l (ps_recv (sw_client s)))"
    using assms(1) by (auto simp: waiting_def)
  then have inv: "ct.sys_inv F (lk_client_id ?l) (lk_id ?l) off (link_transfer ?l (ps_recv (sw_client s)))"
    by (simp add: cp.at_packet_def)
  then have "fetching (lk_id ?l) off F (ps_recv (sw_client s))" by (simp add: ct.sys_inv_def)
  then have "got_from (lk_id ?l) (ps_recv C) = got_from (lk_id ?l) (ps_recv (sw_client s))"
    using assms(3) by (simp add: keeps_transfer_def)
  then have "cp.at_packet F (lk_client_id ?l) (lk_id ?l) off 0 (link_transfer ?l (ps_recv C))"
    using F sys_inv_frame [OF inv, of "ps_recv C"] assms(3) by (simp add: cp.at_packet_def)
  with assms(2) show ?thesis unfolding waiting_def by (intro exI [of _ F]) simp
qed

section \<open>A DATA packet\<close>

text \<open>Storing a packet and releasing buffers keeps the chunks complete that are so.\<close>

lemma stored_rest:
  assumes r: "rest_begun cs s0 m (Suc m) s" "m < length cs" "distinct cs" "distinct (map lk_id (sw_links s))"
    and f: "fetching (lk_id (sw_links s ! m)) (cs ! m) F (ps_recv (sw_client s))" "k < 512" "env_sane e"
    and d: "recv_datagram (lk_id (sw_links s ! m)) e (data_msg F k) (ps_recv (sw_client s)) = Inr (bufs, msgs)"
      "same_data bufs (ps_recv C)" "ps_config C = ps_config (sw_client s)"
    and l: "ps_config (lk_server l) = ps_config (lk_server (sw_links s ! m))"
  shows "rest_begun cs s0 m (Suc m) (s\<lparr>sw_client := C, sw_links := (sw_links s)[m := l]\<rparr>)"
proof -
  let ?s1 = "s\<lparr>sw_client := C, sw_links := (sw_links s)[m := l]\<rparr>"
  have len: "length cs \<le> length (sw_links s)" using r(1) by (simp add: rest_begun_def same_peers_def)
  have "buffer_keys (ps_recv C) = buffer_keys (ps_recv (sw_client s))"
    using recv_datagram_keys [OF d(1)] d(2) by (simp add: same_data_def)
  then have "\<forall>off \<in> set cs. one_buffer off (ps_recv C)" using r(1) by (simp add: rest_begun_def one_buffer_def)
  moreover have "is_buffer_full (cs ! j) (ps_recv C) = 1" if "j < m" for j
  proof -
    have "cs ! j \<noteq> cs ! m" using that r(2,3) nth_eq_iff_index_eq [of cs j m] by auto
    with recv_keeps_chunk [OF f d(1)] r(1) that d(2) show ?thesis by (simp add: rest_begun_def same_data_def)
  qed
  moreover have "waiting ?s1 (cs ! j) j" if j: "Suc m \<le> j" "j < length cs" for j
  proof (rule waiting_step)
    have "lk_id (sw_links s ! j) \<noteq> lk_id (sw_links s ! m)" using distinct_ids [OF r(4), of j m] j len by simp
    then have "keeps_transfer (lk_id (sw_links s ! j)) (ps_recv (sw_client s)) bufs"
      using recv_datagram_other [OF f(1,2,3) d(1)] by (simp add: keeps_transfer_def)
    with same_data_keeps [OF d(2)] show "keeps_transfer (lk_id (sw_links s ! j)) (ps_recv (sw_client s)) (ps_recv C)"
      by (rule keeps_transfer_trans [rotated])
  qed (use r(1) j in \<open>simp_all add: rest_begun_def\<close>)
  moreover have "same_peers s0 ?s1"
    using r(1) same_peers_step [OF _ d(3) l] by (simp add: rest_begun_def)
  ultimately show ?thesis using r(1) by (simp add: rest_begun_def)
qed

lemma chunk_data:
  assumes at: "at_chunk ms client srvs offs out before cs s0 m F k s" and k: "k < 512" and d: "distinct cs"
    and w: "world_ok ms (ps_config (sw_client s0)) cio"
  shows "\<exists>s'. swarm_step ms client offs s s' \<and> (swarm_done ms srvs offs out before s' \<or>
    stored ms client srvs offs out before cs s0 m F (Suc k) s' \<and>
    (\<exists>off \<in> set offs. is_buffer_full off (ps_recv (sw_client s')) \<noteq> 1) \<and>
    (k < 511 \<longrightarrow> sw_links s' ! m = (sw_links s ! m)\<lparr>lk_acks := lk_acks (sw_links s ! m) \<union> {ack_msg (int k + 1)}\<rparr>))"
proof -
  let ?l = "sw_links s ! m" and ?C = "sw_client s"
  let ?buf = "replicate 1500 0 :: byte list"
  let ?e = "\<lparr>env_buf = ?buf, env_beyond = io_beyond cio\<rparr>"
  note st = conjunct1 [OF at [unfolded at_chunk_def]]
  note s = storedD [OF st] and t = stored_more [OF st]
  note C = swarm_ok_C [OF s(1)]
  have cw: "world_ok ms (ps_config ?C) cio" and buf: "length ?buf = 1500" using w t(2) by simp_all
  then have e: "env_sane ?e" by (simp add: env_sane_def world_ok_def)
  obtain r a where r: "data_msg F k \<in> lk_data ?l"
      "recv_datagram (lk_id ?l) ?e (data_msg F k) (ps_recv ?C) = Inr (r, [ack_msg a])"
      "got_from (lk_id ?l) r = {..<Suc k}" "k < 511 \<longrightarrow> a = int k + 1"
    using cp.data_progress [OF at_chunk_packet [OF at] k e] by auto
  let ?l1 = "?l\<lparr>lk_acks := lk_acks ?l \<union> {ack_msg a}\<rparr>"
  obtain C a' bufs where c: "process_inbound_udp cio ?buf (data_msg F k) (lk_addr ?l) ?C = Inr (C, [(lk_addr ?l, ack_msg a')])"
      "ps_config C = ps_config ?C" "recv_datagram (lk_id ?l) ?e (data_msg F k) (ps_recv ?C) = Inr (bufs, [ack_msg a'])"
      "(\<forall>off \<in> set offs. is_buffer_full off bufs = 1) \<and> \<not> fm_init (ps_fm C) \<and>
         (\<exists>Fs. ps_written C = (output_file (ps_config ?C), concat Fs) # ps_written ?C \<and> list_all2 (on_server ms srvs) offs Fs) \<or>
       \<not> (\<forall>off \<in> set offs. is_buffer_full off bufs = 1) \<and> same_data bufs (ps_recv C) \<and>
       peer_ok ms C \<and> fm_init (ps_fm C) \<and> manager_ready offs (ps_fm C) \<and> ps_written C = ps_written ?C \<and>
       links_ok ms client srvs offs (peers (ps_config ?C)) ((sw_links s)[m := ?l\<lparr>lk_acks := lk_acks ?l \<union> {ack_msg a'}\<rparr>]) (ps_recv C)"
    using data_step [OF C t(1) refl r(1) cw buf] by (elim exE conjE) (rule that)
  have same: "bufs = r" "ack_msg a' = ack_msg a" using c(3) r(2) by simp_all
  note c = c(1,2) c(4) [unfolded same]
  let ?s1 = "s\<lparr>sw_client := C, sw_links := (sw_links s)[m := ?l1]\<rparr>"
  have step: "swarm_step ms client offs s ?s1"
    using swarm_step.data_reaches [OF t(1) refl r(1) cw buf C(2) c(1), of client offs] same(2) by (simp add: sent_to_def)
  from c(3) show ?thesis
  proof
    assume "(\<forall>off \<in> set offs. is_buffer_full off r = 1) \<and> \<not> fm_init (ps_fm C) \<and>
      (\<exists>Fs. ps_written C = (output_file (ps_config ?C), concat Fs) # ps_written ?C \<and> list_all2 (on_server ms srvs) offs Fs)"
    then have "swarm_done ms srvs offs out before ?s1" using s(1) by (simp add: swarm_done_def swarm_ok_def)
    with step show ?thesis by blast
  next
    assume n: "\<not> (\<forall>off \<in> set offs. is_buffer_full off r = 1) \<and> same_data r (ps_recv C) \<and>
       peer_ok ms C \<and> fm_init (ps_fm C) \<and> manager_ready offs (ps_fm C) \<and> ps_written C = ps_written ?C \<and>
       links_ok ms client srvs offs (peers (ps_config ?C)) ((sw_links s)[m := ?l1]) (ps_recv C)"
    then have d1: "same_data r (ps_recv C)" by blast
    have "data_msg F k \<in> data_net (link_transfer ?l (ps_recv ?C))" using r(1) by simp
    from ct.data_step_inv [OF s(4) e this] r(2)
    have "ct.sys_inv F (lk_client_id ?l) (lk_id ?l) (cs ! m) (link_transfer ?l1 r)" by auto
    from sys_inv_frame [OF this, of "ps_recv C"] same_data_keeps [OF d1]
    have "ct.sys_inv F (lk_client_id ?l1) (lk_id ?l1) (cs ! m) (link_transfer ?l1 (ps_recv C))" by simp
    moreover have "swarm_ok ms client srvs offs out before ?s1" using n s(1) c(2) by (simp add: swarm_ok_def)
    moreover have "distinct (map lk_id (sw_links s))" using C(4) by (simp add: links_ok_def)
    ultimately have "stored ms client srvs offs out before cs s0 m F (Suc k) ?s1"
      using s(3) t(1) r(3) d1 stored_rest [OF s(2,3) d _ t(4) k e r(2) d1 c(2), of ?l1]
      by (simp add: stored_def same_data_def)
    with step n r(4) d1 t(1) show ?thesis by (intro exI [of _ ?s1]) (simp add: same_data_def)
  qed
qed

section \<open>The packets of a chunk\<close>

text \<open>The acknowledgement of packet \<open>k\<close> makes the server send the next one.\<close>

lemma chunk_ack:
  assumes st: "stored ms client srvs offs out before cs s0 m F (Suc k) s" and k: "k < 511" and d: "sends F k (sw_links s ! m)"
    and a: "ack_msg (int k + 1) \<in> lk_acks (sw_links s ! m)"
    and w: "world_ok ms (ps_config (lk_server (sw_links s0 ! m))) sio"
  shows "\<exists>s'. swarm_step ms client offs s s' \<and> at_chunk ms client srvs offs out before cs s0 m F (Suc k) s'"
proof -
  let ?l = "sw_links s ! m" and ?bufs = "ps_recv (sw_client s)"
  let ?buf = "replicate 1500 0 :: byte list"
  let ?e = "\<lparr>env_buf = ?buf, env_beyond = io_beyond sio\<rparr>"
  note s = storedD [OF st] and t = stored_more [OF st]
  have w1: "world_ok ms (ps_config (lk_server ?l)) sio" and buf: "length ?buf = 1500" using w t(3) by simp_all
  then have e: "env_sane ?e" by (simp add: env_sane_def world_ok_def)
  have srv: "peer_ok ms (lk_server ?l)" "node_of_addr client (peers (ps_config (lk_server ?l))) = lk_client_id ?l"
      "lk_client_id ?l \<noteq> -1" "timed client (lk_data ?l) (ps_tracker (lk_server ?l))"
    using swarm_ok_C(4) [OF s(1)] t(1) by (simp_all add: links_ok_def link_ok_def)
  have range: "1 \<le> int k + 1" "int k + 1 \<le> 1024" using k by simp_all
  obtain S trk msgs where r: "process_inbound_udp sio ?buf (ack_msg (int k + 1)) client (lk_server ?l) =
        Inr (S, map (Pair client) (rev msgs))"
      "ps_config S = ps_config (lk_server ?l)"
      "ack_datagram (lk_client_id ?l) ?e (ack_msg (int k + 1)) (ps_sender (lk_server ?l), ps_tracker (lk_server ?l)) =
        Inr ((ps_sender S, trk), msgs)" "tracker_ok (ps_tracker S)"
    using server_acks [OF srv(1) w1 buf srv(2,3) range srv(4)] by blast
  let ?l2 = "?l\<lparr>lk_server := S, lk_data := lk_data ?l \<union> set msgs\<rparr>"
  let ?s2 = "s\<lparr>sw_links := (sw_links s)[m := ?l2]\<rparr>"
  have step: "swarm_step ms client offs s ?s2"
    using swarm_step.ack_reaches [OF t(1) refl a w1 buf r(1), of offs] by simp
  have "\<not> swarm_done ms srvs offs out before ?s2" using s(1) by (simp add: swarm_done_def swarm_ok_def)
  then have ok2: "swarm_ok ms client srvs offs out before ?s2" using swarm_ok_step [OF s(1) step] by blast
  have ready: "ready_sender (lk_client_id ?l) F k (ps_sender (lk_server ?l), ps_tracker (lk_server ?l))"
    using d k by (simp add: sends_def)
  have nx: "ready_sender (lk_client_id ?l) F (Suc k) (ps_sender S, trk)"
      "\<forall>j \<in> sent_by (lk_client_id ?l) (ps_sender S, trk).
         j \<in> sent_by (lk_client_id ?l) (ps_sender (lk_server ?l), ps_tracker (lk_server ?l)) \<or> data_msg F j \<in> set msgs"
    using ready_sender_progress [OF ready e k] r(3) by auto
  have "ack_msg (int k + 1) \<in> ack_net (link_transfer ?l ?bufs)" using a by simp
  from ct.ack_step_inv [OF s(4) e this] r(3)
  have "ct.sys_inv F (lk_client_id ?l) (lk_id ?l) (cs ! m)
      \<lparr>sndr = (ps_sender S, trk), rcvr = ?bufs, data_net = lk_data ?l \<union> set msgs, ack_net = lk_acks ?l\<rparr>"
    by auto
  then have "ct.sys_inv F (lk_client_id ?l2) (lk_id ?l2) (cs ! m) (link_transfer ?l2 ?bufs)"
    using serving_tracker [OF _ r(4)] acked_by_tracker [of _ "ps_sender S" "ps_tracker S" trk] by (auto simp: ct.sys_inv_def)
  moreover have "sends F (Suc k) ?l2"
    using nx ready_sender_tracker [OF nx(1) r(4)] d k sent_by_tracker [of "lk_client_id ?l" "ps_sender S" "ps_tracker S" trk]
    by (auto simp: sends_def)
  moreover have rest: "rest_begun cs s0 m (Suc m) ?s2"
  proof -
    have "waiting ?s2 (cs ! j) j" if "Suc m \<le> j" "j < length cs" for j
      using waiting_step [of s "cs ! j" j m "sw_client s" ?l2] that s(2) by (simp add: rest_begun_def)
    moreover have "same_peers s0 ?s2"
      using s(2) r(2) same_peers_step [of s0 s "sw_client s" ?l2 m] by (simp add: rest_begun_def)
    ultimately show ?thesis using s(2) by (simp add: rest_begun_def)
  qed
  ultimately have "at_chunk ms client srvs offs out before cs s0 m F (Suc k) ?s2"
    using ok2 s(3,5) t(1) rest unfolding at_chunk_def stored_def by simp
  with step show ?thesis by blast
qed

lemma chunk_next:
  assumes at: "at_chunk ms client srvs offs out before cs s0 m F k s" and k: "k < 511" and d: "distinct cs"
    and w: "world_ok ms (ps_config (sw_client s0)) cio" and sw: "world_ok ms (ps_config (lk_server (sw_links s0 ! m))) sio"
  shows "\<exists>s'. swarm_reach ms client offs s s' \<and> (swarm_done ms srvs offs out before s' \<or>
    at_chunk ms client srvs offs out before cs s0 m F (Suc k) s')"
proof -
  obtain s1 where s1: "swarm_step ms client offs s s1" "swarm_done ms srvs offs out before s1 \<or>
      stored ms client srvs offs out before cs s0 m F (Suc k) s1 \<and>
      sw_links s1 ! m = (sw_links s ! m)\<lparr>lk_acks := lk_acks (sw_links s ! m) \<union> {ack_msg (int k + 1)}\<rparr>"
    using chunk_data [OF at _ d w] k by fastforce
  from s1(2) show ?thesis
  proof
    assume n: "stored ms client srvs offs out before cs s0 m F (Suc k) s1 \<and>
      sw_links s1 ! m = (sw_links s ! m)\<lparr>lk_acks := lk_acks (sw_links s ! m) \<union> {ack_msg (int k + 1)}\<rparr>"
    have "sends F k (sw_links s ! m)" using at by (simp add: at_chunk_def)
    with n have "sends F k (sw_links s1 ! m)" "ack_msg (int k + 1) \<in> lk_acks (sw_links s1 ! m)" by (simp_all add: sends_def)
    from chunk_ack [OF conjunct1 [OF n] k this sw] s1(1) show ?thesis
      by (meson converse_rtranclp_into_rtranclp r_into_rtranclp)
  qed (use s1(1) in blast)
qed

lemma chunk_drained:
  assumes "at_chunk ms client srvs offs out before cs s0 m F 0 s" and "distinct cs"
    and "world_ok ms (ps_config (sw_client s0)) cio" "world_ok ms (ps_config (lk_server (sw_links s0 ! m))) sio" and "k \<le> 511"
  shows "\<exists>s'. swarm_reach ms client offs s s' \<and> (swarm_done ms srvs offs out before s' \<or>
    at_chunk ms client srvs offs out before cs s0 m F k s')"
  using assms(5)
proof (induction k)
  case 0
  then show ?case using assms(1) by blast
next
  case (Suc k)
  then obtain s1 where s1: "swarm_reach ms client offs s s1"
      "swarm_done ms srvs offs out before s1 \<or> at_chunk ms client srvs offs out before cs s0 m F k s1"
    by auto
  from s1(2) show ?case
  proof
    assume "at_chunk ms client srvs offs out before cs s0 m F k s1"
    from chunk_next [OF this _ assms(2-4)] Suc.prems s1(1) show ?thesis by (meson Suc_le_lessD rtranclp_trans)
  qed (use s1(1) in blast)
qed

lemma chunk_last:
  assumes at: "at_chunk ms client srvs offs out before cs s0 m F 511 s" and d: "distinct cs"
    and w: "world_ok ms (ps_config (sw_client s0)) cio"
  shows "\<exists>s'. swarm_step ms client offs s s' \<and> (swarm_done ms srvs offs out before s' \<or>
    swarm_ok ms client srvs offs out before s' \<and> rest_begun cs s0 (Suc m) (Suc m) s' \<and>
    (\<exists>off \<in> set offs. is_buffer_full off (ps_recv (sw_client s')) \<noteq> 1))"
proof -
  have full: "rest_begun cs s0 (Suc m) (Suc m) s'" if st: "stored ms client srvs offs out before cs s0 m F (Suc 511) s'" for s'
    using storedD(2) [OF st] full_iff_all [OF stored_more(4,5) [OF st]] storedD(5) [OF st] by (auto simp: rest_begun_def less_Suc_eq)
  have "511 < (512 :: nat)" by simp
  from chunk_data [OF at this d w] show ?thesis using full storedD(1) by meson
qed

section \<open>The handshakes\<close>

text \<open>
  \<open>asked cs s0 i s\<close>: the first \<open>i\<close> servers have begun to send, each the chunk of its number in \<open>cs\<close>, whose buffer is
  busy; nothing was done yet with the others, nor with the other chunks.
\<close>

definition asked :: "int list \<Rightarrow> swarm \<Rightarrow> nat \<Rightarrow> swarm \<Rightarrow> bool" where
  "asked cs s0 i s \<longleftrightarrow> same_peers s0 s \<and> i \<le> length cs \<and> length cs \<le> length (sw_links s0) \<and>
     (\<forall>j < i. waiting s (cs ! j) j \<and> one_buffer (cs ! j) (ps_recv (sw_client s)) \<and>
        (\<exists>b \<in> set (ps_recv (sw_client s)). rb_offset b = cs ! j \<and> rb_busy b)) \<and>
     (\<forall>j. i \<le> j \<and> j < length cs \<longrightarrow> sw_links s ! j = sw_links s0 ! j \<and>
        lk_id (sw_links s ! j) \<notin> fst ` set (buffer_keys (ps_recv (sw_client s))) \<and>
        cs ! j \<notin> snd ` set (buffer_keys (ps_recv (sw_client s))))"

lemma askedD:
  assumes "asked cs s0 i s" "i \<le> j" "j < length cs"
  shows "sw_links s ! j = sw_links s0 ! j" "lk_id (sw_links s ! j) \<notin> fst ` set (buffer_keys (ps_recv (sw_client s)))"
    "cs ! j \<notin> snd ` set (buffer_keys (ps_recv (sw_client s)))"
  using assms unfolding asked_def by blast+

text \<open>The client takes the first chunk that no earlier server was asked for.\<close>

lemma choice_agrees:
  assumes a: "asked cs s0 i s" and node: "node \<notin> fst ` set (buffer_keys (ps_recv (sw_client s)))"
    and hs: "\<forall>h \<in> set hs. master_offset ms h = -1 \<or> master_offset ms h \<in> set cs"
  shows "List.find (\<lambda>h. master_offset ms h \<noteq> -1 \<and> \<not> busy_with node (master_offset ms h) (sw_client s)) hs =
    List.find (\<lambda>h. master_offset ms h \<noteq> -1 \<and> master_offset ms h \<notin> set (take i cs)) hs"
proof (rule find_cong [OF refl])
  fix h assume "h \<in> set hs"
  then consider (unknown) "master_offset ms h = -1" | (listed) "master_offset ms h \<in> set cs" using hs by blast
  then show "(master_offset ms h \<noteq> -1 \<and> \<not> busy_with node (master_offset ms h) (sw_client s)) =
      (master_offset ms h \<noteq> -1 \<and> master_offset ms h \<notin> set (take i cs))"
  proof cases
    case listed
    then obtain j where j: "j < length cs" "master_offset ms h = cs ! j" by (auto simp: in_set_conv_nth)
    have none: "\<not> (rb_socket b = node \<and> rb_busy b)" if "b \<in> set (ps_recv (sw_client s))" for b
      using node that unfolding buffer_keys_def by force
    show ?thesis
    proof (cases "j < i")
      case True
      then have "cs ! j \<in> set (take i cs)" using a by (auto simp: asked_def in_set_conv_nth)
      moreover have "busy_with node (cs ! j) (sw_client s)" using a True unfolding asked_def busy_with_def by blast
      ultimately show ?thesis unfolding j(2) by blast
    next
      case False
      have "cs ! j \<notin> set (take i cs)"
      proof
        assume "cs ! j \<in> set (take i cs)"
        then obtain k where k: "k < i" "cs ! k = cs ! j" using a by (auto simp: asked_def in_set_conv_nth)
        then obtain b where "b \<in> set (ps_recv (sw_client s))" "rb_offset b = cs ! j" using a unfolding asked_def by metis
        moreover have "cs ! j \<notin> snd ` set (buffer_keys (ps_recv (sw_client s)))" using a False j(1) by (simp add: asked_def)
        ultimately show False unfolding buffer_keys_def by force
      qed
      moreover have "cs ! j \<notin> snd ` set (buffer_keys (ps_recv (sw_client s)))" using a False j(1) by (simp add: asked_def)
      then have "\<not> busy_with node (cs ! j) (sw_client s)"
        using none unfolding busy_with_def buffer_keys_def by force
      ultimately show ?thesis unfolding j(2) by blast
    qed
  qed simp
qed

text \<open>A server answers a request with everything that it has of it.\<close>

lemma chunks_offered:
  assumes ok: "swarm_ok ms client srvs offs out before s" and m: "m < length (sw_links s)" "l = sw_links s ! m"
    and src: "source_ok ms offs taken off (ps_config (lk_server l)) (lk_files l) src"
  shows "\<exists>offer. offers offer (local_chunks (src_has src) (src_hashes src)) \<and>
    swarm_step ms client offs s (s\<lparr>sw_links := (sw_links s)[m := l\<lparr>lk_offers := lk_offers l \<union> {offer}\<rparr>]\<rparr>)"
proof -
  let ?buf = "replicate 1500 0 :: byte list"
  have buf: "length ?buf = 1500" by simp
  have "link_ok ms client srvs offs (peers (ps_config (sw_client s))) l (ps_recv (sw_client s))"
    using swarm_ok_C(4) [OF ok] m by (simp add: links_ok_def)
  then have srv: "peer_ok ms (lk_server l)" "node_of_addr client (peers (ps_config (lk_server l))) = lk_client_id l" "lk_client_id l \<noteq> -1"
    by (simp_all add: link_ok_def)
  have serve: "can_serve ms (src_asked src) (ps_config (lk_server l)) (src_hashes src) (src_has src)" "io_fs (src_asked src) = lk_files l"
      "reads_request (src_request src) (src_hashes src)"
      "\<forall>h \<in> set (src_hashes src). master_offset ms h = -1 \<or> master_offset ms h \<in> set offs"
    using src by (simp_all add: source_ok_def)
  then have c: "world_ok ms (ps_config (lk_server l)) (src_asked src)" "length (src_hashes src) < 60"
      "io_fs (src_asked src) (has_chunk_file (ps_config (lk_server l))) = Some (chunk_text (src_has src))"
      "\<forall>e \<in> set (src_has src). length (snd e) = 20" "length (src_has src) \<le> 4" "local_chunks (src_has src) (src_hashes src) \<noteq> []"
    by (simp_all add: can_serve_def)
  obtain offer where o: "process_inbound_udp (src_asked src) ?buf (src_request src) client (lk_server l) = Inr (lk_server l, [(client, offer)])"
      "offers offer (local_chunks (src_has src) (src_hashes src))"
    using request_offered [OF srv(1) c(1) buf srv(2,3) serve(3) c(2-6)] by blast
  from swarm_step.request_served [OF m serve(1,2) buf serve(3,4) o(1)] o(2) show ?thesis by (auto simp: sent_to_def)
qed

text \<open>The client takes an offer of a server that it never asked.\<close>

lemma chunk_asked:
  assumes ok: "swarm_ok ms client srvs offs out before s" and m: "m < length (sw_links s)" "l = sw_links s ! m"
    and o: "offer \<in> lk_offers l" "lk_phase l = Idle" "offers offer hs"
      "List.find (\<lambda>h. master_offset ms h \<noteq> -1 \<and> \<not> busy_with (lk_id l) (master_offset ms h) (sw_client s)) hs = Some h"
    and w: "world_ok ms (ps_config (sw_client s)) cio"
    and fresh: "lk_id l \<notin> fst ` set (buffer_keys (ps_recv (sw_client s)))"
  shows "\<exists>C. swarm_step ms client offs s (s\<lparr>sw_client := C, sw_links := (sw_links s)[m := l\<lparr>lk_phase := Asked (get_msg h)\<rparr>]\<rparr>) \<and>
    swarm_ok ms client srvs offs out before (s\<lparr>sw_client := C, sw_links := (sw_links s)[m := l\<lparr>lk_phase := Asked (get_msg h)\<rparr>]\<rparr>) \<and>
    length h = 20 \<and> h \<in> snd ` set ms \<and> ps_config C = ps_config (sw_client s) \<and>
    ps_recv C = fresh_buffer (io_content cio) (master_offset ms h) (lk_id l) # ps_recv (sw_client s) \<and>
    init_recv_buffer (io_content cio) (master_offset ms h) (lk_id l) (ps_recv (sw_client s)) = (ps_recv C, 1)"
proof -
  let ?buf = "replicate 1500 0 :: byte list" and ?C = "sw_client s"
  have buf: "length ?buf = 1500" by simp
  note C = swarm_ok_C [OF ok]
  have "link_ok ms client srvs offs (peers (ps_config ?C)) l (ps_recv ?C)" using C(4) m by (simp add: links_ok_def)
  then have node: "node_of_addr (lk_addr l) (peers (ps_config ?C)) = lk_id l" "lk_id l \<noteq> -1"
      "\<forall>h \<in> set hs. master_offset ms h = -1 \<or> master_offset ms h \<in> set (offsets_of (ps_fm ?C))"
    using o(1,3) manager_readyD [OF C(3)] by (auto simp: link_ok_def)
  obtain C1 where c: "process_inbound_udp cio ?buf offer (lk_addr l) ?C = Inr (C1, [(lk_addr l, get_msg h)])" "length h = 20"
      "ps_recv C1 = fst (init_recv_buffer (io_content cio) (master_offset ms h) (lk_id l) (ps_recv ?C))"
      "snd (init_recv_buffer (io_content cio) (master_offset ms h) (lk_id l) (ps_recv ?C)) = 1"
      "ps_config C1 = ps_config ?C" "fm_init (ps_fm C1)"
    using offer_taken [OF C(1) w buf node(1,2) o(3) C(2) node(3) o(4)] by blast
  let ?s1 = "s\<lparr>sw_client := C1, sw_links := (sw_links s)[m := l\<lparr>lk_phase := Asked (get_msg h)\<rparr>]\<rparr>"
  have step: "swarm_step ms client offs s ?s1"
    using swarm_step.offer_arrives [OF m o(1,2) w buf C(2) o(3,4) fresh c(1)] by simp
  moreover have "\<not> swarm_done ms srvs offs out before ?s1" using c(6) by (simp add: swarm_done_def)
  moreover have "h \<in> snd ` set ms" using master_offset_known [of ms h] find_Some_in_set [OF o(4)] by simp
  moreover have "ps_recv C1 = fresh_buffer (io_content cio) (master_offset ms h) (lk_id l) # ps_recv ?C"
    using c(3,4) by (auto simp: init_recv_buffer_def split: if_splits)
  moreover have "init_recv_buffer (io_content cio) (master_offset ms h) (lk_id l) (ps_recv ?C) = (ps_recv C1, 1)"
    using c(3,4) by (simp add: prod_eq_iff)
  ultimately show ?thesis using swarm_ok_step [OF ok step] c(2,5) by blast
qed

text \<open>GET makes the server ready to send the chunk.\<close>

lemma chunk_started:
  assumes ok: "swarm_ok ms client srvs offs out before s" and m: "m < length (sw_links s)" "l = sw_links s ! m"
      "lk_phase l = Asked (get_msg h)"
    and h: "length h = 20" "h \<in> snd ` set ms" "master_offset ms h = off"
    and w: "world_ok ms (ps_config (lk_server l)) sio" "io_prev_ack sio \<noteq> 0" "io_fs sio = lk_files l"
    and bufs: "\<And>F. length F = 524288 \<Longrightarrow> fetching (lk_id l) off F (ps_recv (sw_client s))" "got_from (lk_id l) (ps_recv (sw_client s)) = {}"
  shows "\<exists>s'. swarm_step ms client offs s s' \<and> swarm_ok ms client srvs offs out before s' \<and> waiting s' off m \<and>
    (\<exists>l'. s' = s\<lparr>sw_links := (sw_links s)[m := l']\<rparr> \<and> ps_config (lk_server l') = ps_config (lk_server l))"
proof -
  let ?buf = "replicate 1500 0 :: byte list"
  have buf: "length ?buf = 1500" by simp
  have "link_ok ms client srvs offs (peers (ps_config (sw_client s))) l (ps_recv (sw_client s))"
    using swarm_ok_C(4) [OF ok] m(1,2) by (simp add: links_ok_def)
  then have srv: "peer_ok ms (lk_server l)" "node_of_addr client (peers (ps_config (lk_server l))) = lk_client_id l" "lk_client_id l \<noteq> -1"
      "timed client {} (ps_tracker (lk_server l))" "lk_data l = {}" "lk_acks l = {}"
    using m(3) by (auto simp: link_ok_def)
  obtain S F where g: "process_inbound_udp sio ?buf (get_msg h) client (lk_server l) = Inr (S, [(client, data_msg F 0)])"
      "chunk_of sio (ps_config (lk_server l)) ms h F" "ps_config S = ps_config (lk_server l)"
      "serving (lk_client_id l) F (ps_sender S, ps_tracker S)" "acked_by (lk_client_id l) (ps_sender S, ps_tracker S) = {}"
      "sent_by (lk_client_id l) (ps_sender S, ps_tracker S) = {0}" "ready_sender (lk_client_id l) F 0 (ps_sender S, ps_tracker S)"
    using get_serves [OF srv(1) w(1) buf srv(2,3) h(1,2) srv(4)] w(2) by blast
  have F: "fetching (lk_id l) off F (ps_recv (sw_client s))" using bufs(1) chunk_of_length [OF g(2)] .
  let ?l = "l\<lparr>lk_server := S, lk_phase := Sending (get_msg h), lk_data := {data_msg F 0}\<rparr>"
  let ?sys = "link_transfer ?l (ps_recv (sw_client s))" and ?s1 = "s\<lparr>sw_links := (sw_links s)[m := ?l]\<rparr>"
  have "ct.sys_inv F (lk_client_id l) (lk_id l) off ?sys" using g(4,5) F srv(6) by (intro start_inv) simp_all
  then have "cp.at_packet F (lk_client_id l) (lk_id l) off 0 ?sys"
    using bufs(2) g(6,7) by (simp add: cp.at_packet_def)
  then have "waiting ?s1 off m" using m(1) unfolding waiting_def by (intro exI [of _ F]) simp
  moreover have step: "swarm_step ms client offs s ?s1"
    using swarm_step.get_arrives [OF m(1,2) disjI1 [OF m(3)] w(1,3) buf g(1), of offs] srv(5) by (simp add: sent_to_def)
  moreover have "\<not> swarm_done ms srvs offs out before ?s1" using ok by (simp add: swarm_done_def swarm_ok_def)
  ultimately show ?thesis using swarm_ok_step [OF ok step] g(3) by (intro exI [of _ ?s1]) auto
qed

text \<open>The new buffer leaves the other servers as they are.\<close>

lemma asked_more:
  assumes a: "asked cs s0 i s" "i < length cs" and d: "distinct cs" "distinct (map lk_id (sw_links s))"
    and c: "ps_recv C = fresh_buffer uninit (cs ! i) (lk_id (sw_links s ! i)) # ps_recv (sw_client s)" "ps_config C = ps_config (sw_client s)"
    and l: "ps_config (lk_server l) = ps_config (lk_server (sw_links s ! i))"
    and w: "waiting (s\<lparr>sw_client := C, sw_links := (sw_links s)[i := l]\<rparr>) (cs ! i) i"
  shows "asked cs s0 (Suc i) (s\<lparr>sw_client := C, sw_links := (sw_links s)[i := l]\<rparr>)"
proof -
  let ?l = "sw_links s ! i" and ?s3 = "s\<lparr>sw_client := C, sw_links := (sw_links s)[i := l]\<rparr>"
  have keys: "buffer_keys (ps_recv C) = (lk_id ?l, cs ! i) # buffer_keys (ps_recv (sw_client s))"
    by (simp add: c(1) buffer_keys_def fresh_buffer_def)
  have fresh: "cs ! i \<notin> snd ` set (buffer_keys (ps_recv (sw_client s)))" and len: "length cs \<le> length (sw_links s)"
    and same: "same_peers s0 s"
    using a by (simp_all add: asked_def same_peers_def)
  have ids: "lk_id (sw_links s ! j) \<noteq> lk_id ?l" if "j \<noteq> i" "j < length cs" for j
    using distinct_ids [OF d(2), of j i] that len a(2) by simp
  have apart: "cs ! j \<noteq> cs ! i" if "j \<noteq> i" "j < length cs" for j
    using that d(1) a(2) by (simp add: nth_eq_iff_index_eq)
  have "waiting ?s3 (cs ! j) j \<and> one_buffer (cs ! j) (ps_recv C) \<and> (\<exists>b \<in> set (ps_recv C). rb_offset b = cs ! j \<and> rb_busy b)"
    if j: "j < Suc i" for j
  proof (cases "j = i")
    case True
    have "filter (\<lambda>k. snd k = cs ! i) (buffer_keys (ps_recv (sw_client s))) = []"
      using fresh by (metis (mono_tags) filter_empty_conv imageI)
    then have "one_buffer (cs ! i) (ps_recv C)" by (simp add: one_buffer_def keys)
    with True w show ?thesis by (simp add: c(1) fresh_buffer_def)
  next
    case False
    with j have j': "j < i" "j < length cs" "j \<noteq> i" using a(2) by simp_all
    then have old: "waiting s (cs ! j) j" "one_buffer (cs ! j) (ps_recv (sw_client s))"
        "\<exists>b \<in> set (ps_recv (sw_client s)). rb_offset b = cs ! j \<and> rb_busy b"
      using a(1) by (simp_all add: asked_def)
    have n: "rb_socket (fresh_buffer uninit (cs ! i) (lk_id ?l)) \<noteq> lk_id (sw_links s ! j)"
      using ids [OF j'(3,2)] by (simp add: fresh_buffer_def)
    have "keeps_transfer (lk_id (sw_links s ! j)) (ps_recv (sw_client s)) (ps_recv C)"
      unfolding keeps_transfer_def c(1) using push_other_buffer [OF _ n] by blast
    from waiting_step [OF old(1) j'(3) this] old(2,3) apart [OF j'(3,2)] show ?thesis
      by (simp add: one_buffer_def keys) (simp add: c(1))
  qed
  moreover have "sw_links ?s3 ! j = sw_links s0 ! j \<and> lk_id (sw_links ?s3 ! j) \<notin> fst ` set (buffer_keys (ps_recv C)) \<and>
      cs ! j \<notin> snd ` set (buffer_keys (ps_recv C))" if j: "Suc i \<le> j" "j < length cs" for j
    using askedD [OF a(1) Suc_leD [OF j(1)] j(2)] j ids [of j] apart [of j] by (simp add: keys)
  moreover have "same_peers s0 ?s3" by (rule same_peers_step [OF same c(2) l])
  ultimately show ?thesis using a by (simp add: asked_def)
qed

text \<open>A request, its offer and GET: server \<open>i\<close> begins to send.\<close>

lemma begin_chunk:
  assumes ok: "swarm_ok ms client srvs offs out before s" and a: "asked cs s0 i s" "i < length cs" and d: "distinct cs" "set cs = set offs"
    and idle: "lk_phase (sw_links s0 ! i) = Idle"
    and src: "source_ok ms offs (set (take i cs)) (cs ! i) (ps_config (lk_server (sw_links s0 ! i))) (lk_files (sw_links s0 ! i)) src"
    and w: "world_ok ms (ps_config (sw_client s0)) cio"
  shows "\<exists>s'. swarm_reach ms client offs s s' \<and> swarm_ok ms client srvs offs out before s' \<and> asked cs s0 (Suc i) s'"
proof -
  let ?l = "sw_links s ! i" and ?C = "sw_client s" and ?hs = "local_chunks (src_has src) (src_hashes src)"
  have m: "?l = sw_links s0 ! i" and fresh: "lk_id ?l \<notin> fst ` set (buffer_keys (ps_recv ?C))"
    using a order_refl [of i] unfolding asked_def by blast+
  have l: "i < length (sw_links s)" and w': "world_ok ms (ps_config ?C) cio" using a w by (simp_all add: asked_def same_peers_def)
  note m = l m
  note so = src [folded m(2)]
  have so1: "world_ok ms (ps_config (lk_server ?l)) (src_sending src)" "io_prev_ack (src_sending src) \<noteq> 0" "io_fs (src_sending src) = lk_files ?l"
      "\<forall>h \<in> set ?hs. master_offset ms h = -1 \<or> master_offset ms h \<in> set cs"
    using so d(2) by (auto simp: source_ok_def local_chunks_def)
  obtain h where h: "List.find (\<lambda>h. master_offset ms h \<noteq> -1 \<and> master_offset ms h \<notin> set (take i cs)) ?hs = Some h" "master_offset ms h = cs ! i"
    using so by (auto simp: source_ok_def)
  have find: "List.find (\<lambda>h. master_offset ms h \<noteq> -1 \<and> \<not> busy_with (lk_id ?l) (master_offset ms h) ?C) ?hs = Some h"
    unfolding choice_agrees [OF a(1) fresh so1(4)] by (rule h(1))
  obtain offer where o: "offers offer ?hs"
      "swarm_step ms client offs s (s\<lparr>sw_links := (sw_links s)[i := ?l\<lparr>lk_offers := lk_offers ?l \<union> {offer}\<rparr>]\<rparr>)"
    using chunks_offered [OF ok m(1) refl so] by blast
  let ?l1 = "?l\<lparr>lk_offers := lk_offers ?l \<union> {offer}\<rparr>"
  let ?s1 = "s\<lparr>sw_links := (sw_links s)[i := ?l1]\<rparr>"
  have "\<not> swarm_done ms srvs offs out before ?s1" using ok by (simp add: swarm_done_def swarm_ok_def)
  then have ok1: "swarm_ok ms client srvs offs out before ?s1" using swarm_ok_step [OF ok o(2)] by blast
  have m1: "i < length (sw_links ?s1)" "?l1 = sw_links ?s1 ! i" and o1: "offer \<in> lk_offers ?l1" "lk_phase ?l1 = Idle"
    and find1: "List.find (\<lambda>h. master_offset ms h \<noteq> -1 \<and> \<not> busy_with (lk_id ?l1) (master_offset ms h) (sw_client ?s1)) ?hs = Some h"
    and w1: "world_ok ms (ps_config (sw_client ?s1)) cio"
    and fresh1: "lk_id ?l1 \<notin> fst ` set (buffer_keys (ps_recv (sw_client ?s1)))"
    using m idle find w' fresh by simp_all
  from chunk_asked [OF ok1 m1 o1 o(1) find1 w1 fresh1] obtain C where
    c0: "swarm_step ms client offs ?s1 (?s1\<lparr>sw_client := C, sw_links := (sw_links ?s1)[i := ?l1\<lparr>lk_phase := Asked (get_msg h)\<rparr>]\<rparr>)"
      "swarm_ok ms client srvs offs out before (?s1\<lparr>sw_client := C, sw_links := (sw_links ?s1)[i := ?l1\<lparr>lk_phase := Asked (get_msg h)\<rparr>]\<rparr>)"
      and c: "length h = 20" "h \<in> snd ` set ms" "ps_config C = ps_config (sw_client ?s1)"
      "ps_recv C = fresh_buffer (io_content cio) (master_offset ms h) (lk_id ?l1) # ps_recv (sw_client ?s1)"
      "init_recv_buffer (io_content cio) (master_offset ms h) (lk_id ?l1) (ps_recv (sw_client ?s1)) = (ps_recv C, 1)"
    by (elim exE conjE) (rule that)
  let ?l2 = "?l1\<lparr>lk_phase := Asked (get_msg h)\<rparr>"
  let ?s2 = "s\<lparr>sw_client := C, sw_links := (sw_links s)[i := ?l2]\<rparr>"
  have c2: "swarm_step ms client offs ?s1 ?s2" "swarm_ok ms client srvs offs out before ?s2" using c0 by simp_all
  have content: "length (io_content cio) = 1500" using w by (simp add: world_ok_def)
  have bufs: "fetching (lk_id ?l) (cs ! i) F (ps_recv C)" "got_from (lk_id ?l) (ps_recv C) = {}" if "length F = 524288" for F
    using fresh_fetching [OF that content, of "cs ! i" "lk_id ?l" "ps_recv ?C"] c(5) h(2) by simp_all
  have none: "got_from (lk_id ?l) (ps_recv C) = {}" using bufs(2) [of "replicate 524288 0"] by simp
  have m2: "i < length (sw_links ?s2)" "?l2 = sw_links ?s2 ! i" "lk_phase ?l2 = Asked (get_msg h)" using m(1) by simp_all
  have so2: "world_ok ms (ps_config (lk_server ?l2)) (src_sending src)" "io_fs (src_sending src) = lk_files ?l2"
    using so1 by simp_all
  have bufs2: "fetching (lk_id ?l2) (cs ! i) F (ps_recv (sw_client ?s2))" if "length F = 524288" for F using bufs(1) [OF that] by simp
  have none2: "got_from (lk_id ?l2) (ps_recv (sw_client ?s2)) = {}" using none by simp
  from chunk_started [OF c2(2) m2 c(1,2) h(2) so2(1) so1(2) so2(2) bufs2 none2] obtain s3 l3 where
    s3: "swarm_step ms client offs ?s2 s3" "swarm_ok ms client srvs offs out before s3" "waiting s3 (cs ! i) i"
      "s3 = ?s2\<lparr>sw_links := (sw_links ?s2)[i := l3]\<rparr>" "ps_config (lk_server l3) = ps_config (lk_server ?l2)"
    by blast
  have s3': "s3 = s\<lparr>sw_client := C, sw_links := (sw_links s)[i := l3]\<rparr>" using s3(4) by simp
  have "distinct (map lk_id (sw_links s))" using swarm_ok_C(4) [OF ok] by (simp add: links_ok_def)
  moreover have "ps_recv C = fresh_buffer (io_content cio) (cs ! i) (lk_id ?l) # ps_recv ?C" "ps_config C = ps_config ?C"
      "ps_config (lk_server l3) = ps_config (lk_server ?l)"
    using c(3,4) h(2) s3(5) by simp_all
  ultimately have "asked cs s0 (Suc i) s3" using asked_more [OF a d(1)] s3(3) unfolding s3' by blast
  moreover have "swarm_reach ms client offs s s3"
    using o(2) c2(1) s3(1) by (meson converse_rtranclp_into_rtranclp r_into_rtranclp)
  ultimately show ?thesis using s3(2) by blast
qed

section \<open>The whole file\<close>

text \<open>
  \<open>can_fetch ms offs s cs srcs cio\<close>: there are at least as many servers as chunks in the list \<open>offs\<close>, none of them
  asked before; \<open>cs\<close> has the chunks in the order in which they are taken from the offers of the servers, whose requests
  and surroundings are \<open>srcs\<close>; the client is in a world \<open>cio\<close>.
\<close>

definition can_fetch :: "(nat \<times> byte list) list \<Rightarrow> int list \<Rightarrow> swarm \<Rightarrow> int list \<Rightarrow> source list \<Rightarrow> io \<Rightarrow> bool" where
  "can_fetch ms offs s cs srcs cio \<longleftrightarrow> offs \<noteq> [] \<and> distinct cs \<and> set cs = set offs \<and> length cs \<le> length (sw_links s) \<and>
     (\<forall>i < length cs. source_ok ms offs (set (take i cs)) (cs ! i)
        (ps_config (lk_server (sw_links s ! i))) (lk_files (sw_links s ! i)) (srcs ! i)) \<and>
     world_ok ms (ps_config (sw_client s)) cio \<and>
     lk_id ` set (sw_links s) \<inter> fst ` set (buffer_keys (ps_recv (sw_client s))) = {}"

lemma ready_asked:
  assumes ready: "swarm_ready ms client offs s0" and can: "can_fetch ms offs s0 cs srcs cio"
  shows "asked cs s0 0 s0"
proof -
  have "lk_id (sw_links s0 ! j) \<notin> fst ` set (buffer_keys (ps_recv (sw_client s0)))" if j: "j < length cs" for j
  proof -
    have "sw_links s0 ! j \<in> set (sw_links s0)" using can j by (simp add: can_fetch_def)
    then have "lk_id (sw_links s0 ! j) \<in> lk_id ` set (sw_links s0)" by (rule imageI)
    moreover have "lk_id ` set (sw_links s0) \<inter> fst ` set (buffer_keys (ps_recv (sw_client s0))) = {}"
      using can unfolding can_fetch_def by blast
    ultimately show ?thesis by (metis IntI empty_iff)
  qed
  moreover have "cs ! j \<notin> snd ` set (buffer_keys (ps_recv (sw_client s0)))" if j: "j < length cs" for j
  proof -
    have "set offs \<inter> snd ` set (buffer_keys (ps_recv (sw_client s0))) = {}" using ready unfolding swarm_ready_def by blast
    moreover have "cs ! j \<in> set offs" using nth_mem [OF j] can unfolding can_fetch_def by blast
    ultimately show ?thesis by (metis IntI empty_iff)
  qed
  ultimately show ?thesis using can by (simp add: asked_def can_fetch_def same_peers_def)
qed

lemma all_asked:
  assumes ready: "swarm_ready ms client offs s0" and can: "can_fetch ms offs s0 cs srcs cio" and i: "i \<le> length cs"
  defines "srvs \<equiv> servers_of s0" and "out \<equiv> output_file (ps_config (sw_client s0))" and "before \<equiv> ps_written (sw_client s0)"
  shows "\<exists>s. swarm_reach ms client offs s0 s \<and> swarm_ok ms client srvs offs out before s \<and> asked cs s0 i s"
  using i
proof (induction i)
  case 0
  have "swarm_ok ms client srvs offs out before s0" unfolding srvs_def out_def before_def by (rule swarm_ready_ok [OF ready])
  with ready_asked [OF ready can] show ?case by blast
next
  case (Suc i)
  then obtain s where s: "swarm_reach ms client offs s0 s" "swarm_ok ms client srvs offs out before s" "asked cs s0 i s" by auto
  have i: "i < length cs" using Suc.prems by simp
  have c: "distinct cs" "set cs = set offs" "i < length (sw_links s0)" "world_ok ms (ps_config (sw_client s0)) cio"
      "source_ok ms offs (set (take i cs)) (cs ! i) (ps_config (lk_server (sw_links s0 ! i))) (lk_files (sw_links s0 ! i)) (srcs ! i)"
    using can i by (simp_all add: can_fetch_def)
  have "lk_phase (sw_links s0 ! i) = Idle" using ready nth_mem [OF c(3)] by (simp add: swarm_ready_def)
  from begin_chunk [OF s(2,3) i c(1,2) this c(5,4)] s(1) show ?case by (meson rtranclp_trans)
qed

lemma chunks_fetched:
  assumes can: "can_fetch ms offs s0 cs srcs cio" and m: "m \<le> length cs"
    and s1: "swarm_reach ms client offs s0 s1" "swarm_ok ms client srvs offs out before s1" "rest_begun cs s0 0 0 s1"
  shows "\<exists>s. swarm_reach ms client offs s0 s \<and> (swarm_done ms srvs offs out before s \<or>
    swarm_ok ms client srvs offs out before s \<and> rest_begun cs s0 m m s \<and>
    (m \<noteq> 0 \<longrightarrow> (\<exists>off \<in> set offs. is_buffer_full off (ps_recv (sw_client s)) \<noteq> 1)))"
  using m
proof (induction m)
  case 0
  then show ?case using s1 by blast
next
  case (Suc m)
  then have m: "m < length cs" by simp
  obtain s where s: "swarm_reach ms client offs s0 s"
      "swarm_done ms srvs offs out before s \<or> swarm_ok ms client srvs offs out before s \<and> rest_begun cs s0 m m s"
    using Suc by auto
  from s(2) show ?case
  proof
    assume ok: "swarm_ok ms client srvs offs out before s \<and> rest_begun cs s0 m m s"
    have d: "distinct cs" and w: "world_ok ms (ps_config (sw_client s0)) cio"
      and sw: "world_ok ms (ps_config (lk_server (sw_links s0 ! m))) (src_sending (srcs ! m))"
      using can m by (simp_all add: can_fetch_def source_ok_def)
    obtain F where "cp.at_packet F (lk_client_id (sw_links s ! m)) (lk_id (sw_links s ! m)) (cs ! m) 0
        (link_transfer (sw_links s ! m) (ps_recv (sw_client s)))"
      using ok m unfolding rest_begun_def waiting_def by blast
    then have "at_chunk ms client srvs offs out before cs s0 m F 0 s"
      using ok m at_packet_sends by (simp add: at_chunk_def stored_def rest_begun_def)
    from chunk_drained [OF this d w sw order_refl] obtain s2 where s2: "swarm_reach ms client offs s s2"
        "swarm_done ms srvs offs out before s2 \<or> at_chunk ms client srvs offs out before cs s0 m F 511 s2"
      by blast
    have reach: "swarm_reach ms client offs s0 s2" using s(1) s2(1) by (meson rtranclp_trans)
    from s2(2) show ?thesis
    proof
      assume "at_chunk ms client srvs offs out before cs s0 m F 511 s2"
      from chunk_last [OF this d w] reach show ?thesis by (meson rtranclp.rtrancl_into_rtrancl)
    qed (use reach in blast)
  qed (use s(1) in blast)
qed

text \<open>
  C3. A download from several servers can finish. Given are servers that were not asked before, at least as many
  as the list has chunks (one server sends one chunk, see C1), and a readable request to each of them, for one,
  some or all chunks of the list. Suppose that the servers can be put in an order in which each offers a chunk that
  no earlier one is asked for, so that their choices \<open>cs\<close> cover the list: with servers that have every chunk of
  the request this is any order. The uninitialised \<^verbatim>\<open>prev_ack\<close> of their sessions must not be 0, because the first
  acknowledgement would pass for a repeated one. Then there is a run of requests, offers, GET, DATA and ACK
  datagrams, each processed by the complete \<^verbatim>\<open>process_inbound_udp\<close> of its receiver, after which the client has
  written its output file, once: the chunks of the servers in the order of the chunk file.
\<close>

theorem swarm_can_finish:
  assumes "swarm_ready ms client offs s0" and "can_fetch ms offs s0 cs srcs cio"
  shows "\<exists>s Fs. swarm_reach ms client offs s0 s \<and> \<not> fm_init (ps_fm (sw_client s)) \<and>
    ps_written (sw_client s) = (output_file (ps_config (sw_client s0)), concat Fs) # ps_written (sw_client s0) \<and>
    list_all2 (on_server ms (servers_of s0)) offs Fs"
proof -
  let ?ok = "swarm_ok ms client (servers_of s0) offs (output_file (ps_config (sw_client s0))) (ps_written (sw_client s0))"
  have cs: "offs \<noteq> []" "set cs = set offs" using assms(2) unfolding can_fetch_def by blast+
  obtain s1 where s1: "swarm_reach ms client offs s0 s1" "?ok s1" "asked cs s0 (length cs) s1"
    using all_asked [OF assms order_refl] by blast
  have begun: "rest_begun cs s0 0 0 s1" using s1(3) by (auto simp: asked_def rest_begun_def in_set_conv_nth)
  obtain s where s: "swarm_reach ms client offs s0 s"
      "swarm_done ms (servers_of s0) offs (output_file (ps_config (sw_client s0))) (ps_written (sw_client s0)) s \<or>
       rest_begun cs s0 (length cs) (length cs) s \<and> (\<exists>off \<in> set offs. is_buffer_full off (ps_recv (sw_client s)) \<noteq> 1)"
    using chunks_fetched [OF assms(2) order_refl s1(1,2) begun] cs by auto
  have "\<not> (rest_begun cs s0 (length cs) (length cs) s \<and> (\<exists>off \<in> set cs. is_buffer_full off (ps_recv (sw_client s)) \<noteq> 1))"
    by (auto simp: rest_begun_def in_set_conv_nth)
  with s cs(2) show ?thesis unfolding swarm_done_def by metis
qed

section \<open>Two chunks from two servers\<close>

text \<open>A client without any chunk and two servers that have both chunks of the master file. Both are sent the same request,
  for everything, and the client fetches the first chunk from the first server and the second from the second.\<close>

definition port_addr :: "16 word \<Rightarrow> sockaddr_in" where
  "port_addr port = \<lparr>sin_family = 2, sin_port = port, s_addr = 16777343\<rparr>"

definition trio_config :: bt_config_t where
  "trio_config = example_config\<lparr>peers := [\<lparr>peer_id = 7, peer_addr = port_addr 1\<rparr>, \<lparr>peer_id = 8, peer_addr = port_addr 2\<rparr>,
     \<lparr>peer_id = 9, peer_addr = port_addr 3\<rparr>]\<rparr>"

definition trio_world :: io where
  "trio_world = two_chunk_world\<lparr>io_fs := (io_fs two_chunk_world)([104] \<mapsto> chunk_text two_chunks,
     [97] \<mapsto> replicate 524288 3 @ replicate 524288 4)\<rparr>"

definition idle_server :: "int \<Rightarrow> 16 word \<Rightarrow> link" where
  "idle_server node port = \<lparr>lk_addr = port_addr port, lk_id = node, lk_client_id = 9,
     lk_server = (example_peer [] initial_manager)\<lparr>ps_config := trio_config\<rparr>, lk_files = io_fs trio_world,
     lk_offers = {}, lk_phase = Idle, lk_data = {}, lk_acks = {}\<rparr>"

definition trio :: swarm where
  "trio = \<lparr>sw_client = between_chunks\<lparr>ps_config := trio_config, ps_recv := []\<rparr>, sw_links = [idle_server 7 1, idle_server 8 2]\<rparr>"

lemma trio_world_ok: "world_ok two_chunks trio_config trio_world"
proof -
  have "path_ok [97]" by (simp add: path_ok_def is_space_def)
  then have "\<exists>path content. io_fs trio_world [109] = Some (master_text path two_chunks) \<and> path_ok path \<and>
      io_fs trio_world path = Some content \<and> 1048576 \<le> length content"
    by (intro exI [of _ "[97]"] exI [of _ "replicate 524288 3 @ replicate 524288 4"]) (simp add: two_chunk_world_def trio_world_def)
  moreover have "world_ok two_chunks example_config two_chunk_world" by (rule two_chunk_world_ok)
  then have "io_slack trio_world \<noteq> [] \<and> length (io_local trio_world) = 100 \<and> length (io_data trio_world) = 524288 \<and>
      length (io_content trio_world) = 1500 \<and> readable (io_beyond trio_world) \<and> io_fopen_ok trio_world \<and>
      silent (io_tracker trio_world) \<and> (\<exists>junk. c_string (io_stk trio_world) = Inr junk \<and> length junk \<le> 1195)"
    by (simp add: world_ok_def trio_world_def)
  moreover have "io_fs trio_world [104] = Some (chunk_text two_chunks)" by (simp add: trio_world_def)
  ultimately show ?thesis
    unfolding world_ok_def by (fastforce simp: trio_config_def example_config_def two_chunks_def)
qed

lemma trio_peers: "peer_ok two_chunks (sw_client trio)" "peer_ok two_chunks (lk_server (idle_server node port))"
proof -
  have "peer_ok two_chunks (example_peer [] initial_manager)" by (rule initial_peer_ok)
  then show "peer_ok two_chunks (lk_server (idle_server node port))" by (simp add: peer_ok_def idle_server_def)
  have "peer_ok two_chunks between_chunks"
    using between_chunks_begun unfolding next_chunk_begun_def by blast
  then show "peer_ok two_chunks (sw_client trio)" by (simp add: peer_ok_def trio_def)
qed

lemma trio_ready: "swarm_ready two_chunks (port_addr 3) [0, 1] trio"
proof -
  have "offsets_of (ps_fm (sw_client trio)) = [0, 1]" "fm_init (ps_fm (sw_client trio))"
    by (simp_all add: trio_def between_chunks_def example_peer_def offsets_of_def manager_offsets_def)
  moreover have "node_of_addr (port_addr port) (peers trio_config) = node"
    if "(node, port) \<in> {(7, 1), (8, 2), (9, 3)}" for node port
    using that by (auto simp: node_of_addr_def trio_config_def port_addr_def)
  ultimately show ?thesis
    using trio_peers unfolding swarm_ready_def
    by (simp add: trio_def idle_server_def buffer_keys_def timed_def example_peer_def)
qed

lemma a_request: "length hs < 60 \<Longrightarrow> \<forall>h \<in> set hs. length h = 20 \<Longrightarrow> \<exists>req. reads_request req hs"
proof -
  assume hs: "length hs < 60" "\<forall>h \<in> set hs. length h = 20"
  obtain p where "asks_for p hs"
    using init_packet_asks [of "[0]" "[]" hs "concat hs"] hs concat_hashes_length [OF hs(2)] by (auto simp: c_string_def)
  then show ?thesis using asks_for_sent [of p hs] hs(1) by auto
qed

definition trio_source :: "byte list \<Rightarrow> source" where
  "trio_source req = \<lparr>src_hashes = map snd two_chunks, src_request = req, src_has = two_chunks,
     src_asked = trio_world, src_sending = trio_world\<rparr>"

lemma trio_source_ok:
  assumes "reads_request req (map snd two_chunks)" and "(taken, off) \<in> {({}, 0), ({0}, 1)}"
  shows "source_ok two_chunks [0, 1] taken off trio_config (io_fs trio_world) (trio_source req)"
proof -
  have "io_fs trio_world (has_chunk_file trio_config) = Some (chunk_text two_chunks)"
    by (simp add: trio_world_def trio_config_def example_config_def)
  moreover have "io_prev_ack trio_world \<noteq> 0"
    by (simp add: trio_world_def two_chunk_world_def example_world_def example_io_def)
  moreover have "local_chunks two_chunks (map snd two_chunks) = [replicate 20 1, replicate 20 2]"
      "master_offset two_chunks (replicate 20 1) = 0" "master_offset two_chunks (replicate 20 2) = 1"
    by (simp_all add: local_chunks_def two_chunks_def master_offset_def)
  ultimately show ?thesis
    using assms trio_world_ok by (auto simp: source_ok_def can_serve_def trio_source_def two_chunks_def)
qed

lemma trio_on_server:
  assumes "on_server two_chunks (servers_of trio) off F"
  shows "F = take 524288 (drop (524288 * nat off) (replicate 524288 3 @ replicate 524288 4)) \<and> length F = 524288"
proof -
  have s: "servers_of trio = {(trio_config, io_fs trio_world)}"
    by (simp add: servers_of_def trio_def idle_server_def)
  obtain io h where o: "io_fs io = io_fs trio_world" "master_offset two_chunks h = off" "chunk_of io trio_config two_chunks h F"
    using assms unfolding s by (auto simp: on_server_def)
  then obtain path content i where c: "length F = 524288" "io_fs io (chunk_file trio_config) = Some (master_text path two_chunks)"
      "io_fs io path = Some content" "List.find (\<lambda>m. snd m = h) two_chunks = Some (i, h)" "F = take 524288 (drop (524288 * i) content)"
    unfolding chunk_of_def by blast
  have "path = [97]" using o(1) c(2) by (simp add: trio_world_def two_chunk_world_def trio_config_def example_config_def master_text_def)
  then have "content = replicate 524288 3 @ replicate 524288 4" using o(1) c(3) by (auto simp: trio_world_def)
  moreover have "i = nat off" using o(2) c(4) by (auto simp: two_chunks_def master_offset_def split: if_splits)
  ultimately show ?thesis using c(1,5) by simp
qed

theorem swarm_can_finish_witness:
  "\<exists>s. swarm_reach two_chunks (port_addr 3) [0, 1] trio s \<and>
     ps_written (sw_client s) = [([111], replicate 524288 3 @ replicate 524288 4)]"
proof -
  obtain req where req: "reads_request req (map snd two_chunks)"
    using a_request [of "map snd two_chunks"] by (auto simp: two_chunks_def)
  have conf: "ps_config (lk_server (idle_server node port)) = trio_config" "lk_files (idle_server node port) = io_fs trio_world" for node port
    by (simp_all add: idle_server_def)
  have "\<forall>i < length [0 :: int, 1]. source_ok two_chunks [0, 1] (set (take i [0, 1])) ([0, 1] ! i) (ps_config (lk_server (sw_links trio ! i)))
      (lk_files (sw_links trio ! i)) ([trio_source req, trio_source req] ! i)"
    using trio_source_ok [OF req, of "{}" 0] trio_source_ok [OF req, of "{0}" 1]
    by (simp add: trio_def conf less_Suc_eq)
  then have can: "can_fetch two_chunks [0, 1] trio [0, 1] [trio_source req, trio_source req] trio_world"
    using trio_world_ok unfolding can_fetch_def by (simp add: trio_def buffer_keys_def)
  have w: "ps_written (sw_client trio) = []" "output_file (ps_config (sw_client trio)) = [111]"
    by (simp_all add: trio_def between_chunks_def example_peer_def trio_config_def example_config_def)
  from swarm_can_finish [OF trio_ready can, unfolded w] obtain s Fs
    where s: "swarm_reach two_chunks (port_addr 3) [0, 1] trio s" "ps_written (sw_client s) = [([111], concat Fs)]"
      "list_all2 (on_server two_chunks (servers_of trio)) [0, 1] Fs"
    by blast
  then have "concat Fs = replicate 524288 3 @ replicate 524288 4"
    by (auto simp: list_all2_Cons1 dest!: trio_on_server)
  with s show ?thesis by auto
qed

end
