(* ===== verification/Spiffy.thy ===== *)
theory Spiffy
  imports Peer InputBuffer
begin

text \<open>
  The layer of \<^verbatim>\<open>spiffy.c\<close> between the peer and the socket: \<^verbatim>\<open>spiffy_init\<close>, \<^verbatim>\<open>spiffy_sendto\<close> and
  \<^verbatim>\<open>spiffy_recvfrom\<close>, which send every datagram through a router behind a header of 16 bytes when the
  environment names one.

  The socket calls are arguments: what \<^verbatim>\<open>sendto\<close> returns for a destination and its bytes, and the
  datagram that \<^verbatim>\<open>recvfrom\<close> finds, if any. \<^verbatim>\<open>inet_aton\<close> is an argument too. A function gives the datagram
  handed to the socket, or the buffer and address that it filled, with its own result.
\<close>

section \<open>State and header\<close>

record spiffy_header =
  sh_ID :: "32 word"
  sh_lSrcAddr :: "32 word"
  sh_lDestAddr :: "32 word"
  sh_lSrcPort :: "16 word"
  sh_lDestPort :: "16 word"

record spiffy_st =
  glSrcAddr :: int
  gsSrcPort :: "16 word"
  giSpiffyEnabled :: int
  glNodeID :: int
  gsSpiffyRouter :: sockaddr_in

definition header_bytes :: "spiffy_header \<Rightarrow> byte list" where
  "header_bytes h = le32_bytes (sh_ID h) @ le32_bytes (sh_lSrcAddr h) @ le32_bytes (sh_lDestAddr h) @
     le16_bytes (sh_lSrcPort h) @ le16_bytes (sh_lDestPort h)"

definition read_header :: "byte list \<Rightarrow> spiffy_header" where
  "read_header b = \<lparr>sh_ID = le32 (take 4 b), sh_lSrcAddr = le32 (take 4 (drop 4 b)),
     sh_lDestAddr = le32 (take 4 (drop 8 b)), sh_lSrcPort = le16 (take 2 (drop 12 b)),
     sh_lDestPort = le16 (take 2 (drop 14 b))\<rparr>"

definition AF_INET :: "16 word" where "AF_INET = 2"

lemma length_header_bytes [simp]: "length (header_bytes h) = 16"
  by (simp add: header_bytes_def)

lemma header_bytes_not_Nil [simp]: "header_bytes h \<noteq> []"
  using length_header_bytes [of h] by fastforce

lemma take_le_bytes [simp]:
  "take 4 (le32_bytes w @ r) = le32_bytes w" "take 2 (le16_bytes v @ r) = le16_bytes v"
  by simp_all

lemma read_header_bytes [simp]: "read_header (header_bytes h @ r) = h"
proof -
  have d: "drop 4 (header_bytes h @ r) = le32_bytes (sh_lSrcAddr h) @ le32_bytes (sh_lDestAddr h) @
      le16_bytes (sh_lSrcPort h) @ le16_bytes (sh_lDestPort h) @ r"
    "drop 8 (header_bytes h @ r) = le32_bytes (sh_lDestAddr h) @ le16_bytes (sh_lSrcPort h) @ le16_bytes (sh_lDestPort h) @ r"
    "drop 12 (header_bytes h @ r) = le16_bytes (sh_lSrcPort h) @ le16_bytes (sh_lDestPort h) @ r"
    "drop 14 (header_bytes h @ r) = le16_bytes (sh_lDestPort h) @ r"
    "take 4 (header_bytes h @ r) = le32_bytes (sh_ID h)"
    by (simp_all add: header_bytes_def)
  show ?thesis unfolding read_header_def d by simp
qed

section \<open>The functions\<close>

definition spiffy_sendto ::
  "spiffy_st \<Rightarrow> bool \<Rightarrow> (sockaddr_in \<Rightarrow> byte list \<Rightarrow> int) \<Rightarrow> byte list \<Rightarrow> sockaddr_in
     \<Rightarrow> (sockaddr_in \<times> byte list) option \<times> int" where
  "spiffy_sendto st malloc_ok sendto msg to =
     (if giSpiffyEnabled st = 0 then (Some (to, msg), sendto to msg)
      else if \<not> malloc_ok then (None, -1)
      else if sin_family to \<noteq> AF_INET then (None, -1)
      else
        let s_head = \<lparr>sh_ID = htonl (word_of_int (glNodeID st)), sh_lSrcAddr = word_of_int (glSrcAddr st),
              sh_lDestAddr = s_addr to, sh_lSrcPort = gsSrcPort st, sh_lDestPort = sin_port to\<rparr>;
            newbuf = header_bytes s_head @ msg;
            retVal = sendto (gsSpiffyRouter st) newbuf
        in (Some (gsSpiffyRouter st, newbuf), if retVal > 0 then retVal - 16 else retVal))"

text \<open>\<open>fresh\<close> is the memory that \<^verbatim>\<open>malloc\<close> returns, 16 bytes longer than the caller's \<open>buffer\<close>.\<close>

definition spiffy_recvfrom ::
  "spiffy_st \<Rightarrow> byte list option \<Rightarrow> (sockaddr_in \<times> byte list) option \<Rightarrow> byte list \<Rightarrow> sockaddr_in
     \<Rightarrow> byte list \<times> sockaddr_in \<times> int" where
  "spiffy_recvfrom st fresh arrived buffer addr =
     (if giSpiffyEnabled st = 0 then
        (case arrived of
           None \<Rightarrow> (buffer, addr, -1)
         | Some (source, d) \<Rightarrow> (recvfrom_into buffer d, source, int (min (length d) (length buffer))))
      else case fresh of
        None \<Rightarrow> (buffer, addr, -1)
      | Some newbuf \<Rightarrow>
          (case arrived of
             None \<Rightarrow> (buffer, addr, -1)
           | Some (source, d) \<Rightarrow>
               let newbuf = recvfrom_into newbuf d; retVal = int (min (length d) (length newbuf))
               in if retVal > 0 then
                    let s_head = read_header newbuf
                    in (blit buffer 0 (take (length buffer) (drop 16 newbuf)),
                        \<lparr>sin_family = AF_INET, sin_port = sh_lSrcPort s_head, s_addr = sh_lSrcAddr s_head\<rparr>,
                        retVal - 16)
                  else (buffer, addr, retVal)))"

text \<open>The value of \<^verbatim>\<open>SPIFFY_ROUTER\<close> is given without its NUL.\<close>

definition spiffy_init ::
  "(byte list \<Rightarrow> 32 word option) \<Rightarrow> byte list option \<Rightarrow> int \<Rightarrow> sockaddr_in \<Rightarrow> spiffy_st
     \<Rightarrow> (spiffy_st \<times> int) res" where
  "spiffy_init inet_aton router lNodeID addr st =
     (case router of
        None \<Rightarrow> Inr (st, 1)
      | Some name \<Rightarrow>
          rbind (strchr (name @ [0]) 0x3a) (\<lambda>colon.
          case colon of
            None \<Rightarrow> Inr (st, -1)
          | Some k \<Rightarrow>
              let st = st\<lparr>gsSpiffyRouter := (gsSpiffyRouter st)
                    \<lparr>sin_port := htons (word_of_int (atoi (drop (k + 1) name)))\<rparr>\<rparr>
              in (case inet_aton (take k name) of
                    None \<Rightarrow> Inr (st, -1)
                  | Some a \<Rightarrow>
                      Inr (st\<lparr>gsSpiffyRouter := (gsSpiffyRouter st)\<lparr>s_addr := a\<rparr>, giSpiffyEnabled := 1,
                             glNodeID := lNodeID, glSrcAddr := uint (s_addr addr), gsSrcPort := sin_port addr\<rparr>, 0))))"

definition initial_spiffy :: spiffy_st where
  "initial_spiffy = \<lparr>glSrcAddr = 0, gsSrcPort = 0, giSpiffyEnabled = 0, glNodeID = 0,
     gsSpiffyRouter = \<lparr>sin_family = 0, sin_port = 0, s_addr = 0\<rparr>\<rparr>"

text \<open>The address that \<^verbatim>\<open>peer_run\<close> binds its socket to and hands to \<^verbatim>\<open>spiffy_init\<close>.\<close>

definition peer_address :: "16 word \<Rightarrow> sockaddr_in" where
  "peer_address myport = \<lparr>sin_family = AF_INET, sin_port = htons myport, s_addr = htonl 0\<rparr>"

section \<open>Through the router and back\<close>

lemma recvfrom_prefix:
  "length h = 16 \<Longrightarrow> 16 \<le> length newbuf \<Longrightarrow>
     recvfrom_into newbuf (h @ msg) = h @ recvfrom_into (drop 16 newbuf) msg"
  by (simp add: recvfrom_into_def add.commute)

lemma length_recvfrom_into [simp]: "length (recvfrom_into buf msg) = length buf"
  by (simp add: recvfrom_into_def)

lemma routed:
  assumes "giSpiffyEnabled st \<noteq> 0" "sin_family to = AF_INET" "giSpiffyEnabled st' \<noteq> 0"
    "length newbuf = 16 + length buffer"
  shows "\<exists>d r. spiffy_sendto st True sendto msg to = (Some (gsSpiffyRouter st, d), r) \<and>
    length d = 16 + length msg \<and>
    spiffy_recvfrom st' (Some newbuf) (Some (source, d)) buffer addr =
      (recvfrom_into (drop 16 newbuf) msg,
       \<lparr>sin_family = AF_INET, sin_port = gsSrcPort st, s_addr = word_of_int (glSrcAddr st)\<rparr>,
       int (min (length msg) (length buffer)))"
proof -
  let ?h = "\<lparr>sh_ID = htonl (word_of_int (glNodeID st)), sh_lSrcAddr = word_of_int (glSrcAddr st),
      sh_lDestAddr = s_addr to, sh_lSrcPort = gsSrcPort st, sh_lDestPort = sin_port to\<rparr>"
  let ?d = "header_bytes ?h @ msg"
  have nb: "recvfrom_into newbuf ?d = header_bytes ?h @ recvfrom_into (drop 16 newbuf) msg"
    using assms(4) by (simp add: recvfrom_prefix)
  have len: "length (recvfrom_into (drop 16 newbuf) msg) = length buffer" using assms(4) by simp
  have "spiffy_recvfrom st' (Some newbuf) (Some (source, ?d)) buffer addr =
      (recvfrom_into (drop 16 newbuf) msg,
       \<lparr>sin_family = AF_INET, sin_port = gsSrcPort st, s_addr = word_of_int (glSrcAddr st)\<rparr>,
       int (min (length msg) (length buffer)))"
    using assms(3,4) len by (simp add: spiffy_recvfrom_def nb Let_def blit_0)
  then show ?thesis using assms(1,2) by (simp add: spiffy_sendto_def Let_def)
qed

text \<open>
  C30. A datagram that goes through the router arrives unchanged: the receiver's buffer holds the bytes
  that were sent, cut to its size, the number returned counts them, and the address is the one the
  sender registered with \<^verbatim>\<open>spiffy_init\<close>; only the rest of the buffer is overwritten with the memory of
  \<^verbatim>\<open>malloc\<close>.
\<close>

theorem spiffy_roundtrip:
  assumes "giSpiffyEnabled st \<noteq> 0" and "sin_family to = AF_INET" and "giSpiffyEnabled st' \<noteq> 0"
    and "length newbuf = 16 + length buffer" and "spiffy_sendto st True sendto msg to = (Some (router, d), r)"
  shows "router = gsSpiffyRouter st \<and> spiffy_recvfrom st' (Some newbuf) (Some (source, d)) buffer addr =
    (recvfrom_into (drop 16 newbuf) msg,
     \<lparr>sin_family = AF_INET, sin_port = gsSrcPort st, s_addr = word_of_int (glSrcAddr st)\<rparr>,
     int (min (length msg) (length buffer)))"
  using routed [OF assms(1-4), of sendto msg source addr] assms(5) by auto

lemma spiffy_init_registers:
  "spiffy_init inet_aton router lNodeID addr st = Inr (st', 0) \<Longrightarrow>
     giSpiffyEnabled st' = 1 \<and> glSrcAddr st' = uint (s_addr addr) \<and> gsSrcPort st' = sin_port addr"
proof (cases router)
  case (Some name)
  assume "spiffy_init inet_aton router lNodeID addr st = Inr (st', 0)"
  then obtain k a where "strchr (name @ [0]) 0x3a = Inr (Some k)" "inet_aton (take k name) = Some a"
    by (auto simp: spiffy_init_def Some res_simps Let_def split: option.splits)
  with \<open>spiffy_init inet_aton router lNodeID addr st = Inr (st', 0)\<close> show ?thesis
    by (auto simp: spiffy_init_def Some Let_def)
qed (simp add: spiffy_init_def)

lemma strchr_terminated: "\<exists>r. strchr (s @ [0]) c = Inr r"
  by (induction s) auto

lemma spiffy_init_returns: "\<exists>r. spiffy_init inet_aton router n addr st = Inr r"
proof (cases router)
  case (Some name)
  obtain r where "strchr (name @ [0]) 0x3a = Inr r" using strchr_terminated by blast
  then show ?thesis
    by (cases r) (auto simp: spiffy_init_def Some Let_def split: option.split)
qed (simp add: spiffy_init_def)

text \<open>
  C31. Behind the router nobody knows anybody: \<^verbatim>\<open>peer_run\<close> registers the address 0.0.0.0 to which it binds its
  socket, so every datagram it sends through the router reaches the other peers with that sender, and
  a peer whose list has no such address drops it.
\<close>

theorem routed_peers_are_strangers:
  assumes "spiffy_init inet_aton name lNodeID (peer_address myport) st0 = Inr (st, 0)"
    and "sin_family to = AF_INET" and "spiffy_sendto st True sendto msg to = (Some (router, d), r)"
    and "giSpiffyEnabled st' \<noteq> 0" and "length newbuf = 16 + length buffer"
    and "\<forall>n \<in> set (peers (ps_config ps)). s_addr (peer_addr n) \<noteq> 0"
  shows "\<exists>sender r'. spiffy_recvfrom st' (Some newbuf) (Some (source, d)) buffer addr =
      (recvfrom_into (drop 16 newbuf) msg, sender, r') \<and>
    process_inbound_udp io (drop 16 newbuf) msg sender ps = Inr (ps, [])"
proof -
  have i: "giSpiffyEnabled st \<noteq> 0" "glSrcAddr st = 0"
    using spiffy_init_registers [OF assms(1)] by (simp_all add: peer_address_def htonl_0)
  let ?sender = "\<lparr>sin_family = AF_INET, sin_port = gsSrcPort st, s_addr = 0\<rparr>"
  have "List.find (\<lambda>n. sin_family ?sender = sin_family (peer_addr n) \<and> sin_port ?sender = sin_port (peer_addr n) \<and>
      s_addr ?sender = s_addr (peer_addr n)) (peers (ps_config ps)) = None"
    using assms(6) by (auto simp: find_None_iff)
  then have "process_inbound_udp io (drop 16 newbuf) msg ?sender ps = Inr (ps, [])"
    by (simp add: process_inbound_udp_def node_of_addr_def)
  then show ?thesis
    using routed [OF i(1) assms(2,4,5), of sendto msg source addr] assms(3) i(2) by auto
qed

section \<open>The properties at concrete inputs\<close>

definition example_router :: "byte list" where "example_router = [97, 0x3a, 0x31]"

definition routed_peer :: spiffy_st where
  "routed_peer = \<lparr>glSrcAddr = 0, gsSrcPort = htons 2, giSpiffyEnabled = 1, glNodeID = 1,
     gsSpiffyRouter = \<lparr>sin_family = 0, sin_port = htons 1, s_addr = 16777343\<rparr>\<rparr>"

lemma example_init:
  "spiffy_init (\<lambda>_. Some 16777343) (Some example_router) 1 (peer_address 2) initial_spiffy = Inr (routed_peer, 0)"
proof -
  have "atoi [0x31] = 1"
    by (simp add: atoi_def scan_int_def skip_space_def is_space_def scan_digits_def is_digit_def digits_value_def)
  then show ?thesis
    by (simp add: spiffy_init_def example_router_def routed_peer_def initial_spiffy_def peer_address_def htonl_0)
qed

theorem spiffy_roundtrip_witness:
  "\<exists>d r. spiffy_sendto routed_peer True (\<lambda>_ _. 18) [5, 6] (peer_address 3) = (Some (gsSpiffyRouter routed_peer, d), r) \<and>
     spiffy_recvfrom routed_peer (Some (replicate 20 9)) (Some (peer_address 4, d)) (replicate 4 8) (peer_address 0) =
       ([5, 6, 9, 9], \<lparr>sin_family = 2, sin_port = htons 2, s_addr = 0\<rparr>, 2)"
proof -
  obtain d r where s: "spiffy_sendto routed_peer True (\<lambda>_ _. 18) [5, 6] (peer_address 3) = (Some (gsSpiffyRouter routed_peer, d), r)"
    by (simp add: spiffy_sendto_def routed_peer_def peer_address_def AF_INET_def Let_def)
  have "sin_family (peer_address 3) = AF_INET" "giSpiffyEnabled routed_peer \<noteq> 0"
    by (simp_all add: peer_address_def routed_peer_def)
  moreover have "recvfrom_into (drop 16 (replicate 20 9)) [5, 6 :: byte] = [5, 6, 9, 9]"
    by (simp add: recvfrom_into_def numeral_eq_Suc)
  ultimately show ?thesis
    using spiffy_roundtrip [of routed_peer "peer_address 3" routed_peer "replicate 20 9" "replicate 4 8"
        "\<lambda>_ _. 18" "[5, 6]" _ d r "peer_address 4" "peer_address 0"] s
    by (simp add: routed_peer_def AF_INET_def)
qed

theorem routed_peers_are_strangers_witness:
  "\<exists>d r sender r'. spiffy_init (\<lambda>_. Some 16777343) (Some example_router) 1 (peer_address 2) initial_spiffy = Inr (routed_peer, 0) \<and>
     spiffy_sendto routed_peer True (\<lambda>_ _. 18) [5, 6] (peer_address 3) = (Some (gsSpiffyRouter routed_peer, d), r) \<and>
     spiffy_recvfrom routed_peer (Some (replicate 1516 9)) (Some (peer_address 4, d)) (replicate 1500 8) (peer_address 0) =
       (recvfrom_into (replicate 1500 9) [5, 6], sender, r') \<and>
     process_inbound_udp example_io (replicate 1500 9) [5, 6] sender (example_peer [] initial_manager) =
       Inr (example_peer [] initial_manager, [])"
proof -
  obtain d r where s: "spiffy_sendto routed_peer True (\<lambda>_ _. 18) [5, 6] (peer_address 3) = (Some (gsSpiffyRouter routed_peer, d), r)"
    by (simp add: spiffy_sendto_def routed_peer_def peer_address_def AF_INET_def Let_def)
  have "\<exists>sender r'. spiffy_recvfrom routed_peer (Some (replicate 1516 9)) (Some (peer_address 4, d)) (replicate 1500 8) (peer_address 0) =
       (recvfrom_into (drop 16 (replicate 1516 9)) [5, 6], sender, r') \<and>
     process_inbound_udp example_io (drop 16 (replicate 1516 9)) [5, 6] sender (example_peer [] initial_manager) =
       Inr (example_peer [] initial_manager, [])"
    by (rule routed_peers_are_strangers [OF example_init _ s])
       (simp_all add: peer_address_def routed_peer_def example_peer_def example_config_def)
  then show ?thesis using example_init s by auto
qed

end
