(* ===== verification/BtParse.thy ===== *)
theory BtParse
  imports Handlers
begin

text \<open>
  The configuration of a peer: \<^verbatim>\<open>bt_parse.c\<close> (\<^verbatim>\<open>bt_init\<close>, \<^verbatim>\<open>bt_parse_command_line\<close>,
  \<^verbatim>\<open>bt_parse_peer_list\<close>, \<^verbatim>\<open>bt_peer_info\<close>) and \<^verbatim>\<open>set_debug\<close> of \<^verbatim>\<open>debug.c\<close>.

  The successive results of \<^verbatim>\<open>getopt\<close>, an option and its argument, and \<^verbatim>\<open>gethostbyname\<close> are arguments
  of the model. The four names of \<^verbatim>\<open>bt_config_t\<close> are arrays of 255 bytes; a name is a list of bytes
  without NUL, and copying a longer one is a fault. \<^verbatim>\<open>exit\<close> and failed assertions are the fault
  \<open>Exit_Called\<close>.
\<close>

section \<open>The configuration\<close>

record bt_config_s = bt_config_t +
  peer_list_file :: "byte list"
  max_conn :: int
  myport :: "16 word"

definition BT_FILENAME_LEN :: nat where "BT_FILENAME_LEN = 255"

lemma BT_FILENAME_LEN_nat [layout_simps]: "BT_FILENAME_LEN = 255"
  by (simp add: BT_FILENAME_LEN_def)

definition bt_init :: bt_config_s where
  "bt_init = \<lparr>chunk_file = [], has_chunk_file = [],
     output_file = [0x6f, 0x75, 0x74, 0x70, 0x75, 0x74, 0x2e, 0x64, 0x61, 0x74],
     identity = 0, peers = [],
     peer_list_file = [0x6e, 0x6f, 0x64, 0x65, 0x73, 0x2e, 0x6d, 0x61, 0x70], max_conn = 0, myport = 0\<rparr>"

definition bt_peer_info :: "bt_config_s \<Rightarrow> int \<Rightarrow> bt_peer_t option" where
  "bt_peer_info config pid = List.find (\<lambda>p. peer_id p = pid) (peers config)"

text \<open>\<^verbatim>\<open>strcpy\<close> into one of the arrays of the configuration; a null argument is dereferenced.\<close>

definition copy_name :: "byte list option \<Rightarrow> byte list res" where
  "copy_name arg = (case arg of
     None \<Rightarrow> Inl Null_Deref
   | Some s \<Rightarrow> if length s < BT_FILENAME_LEN then Inr s else Inl Out_Of_Bounds)"

definition to_short :: "int \<Rightarrow> int" where
  "to_short v = sint (word_of_int v :: 16 word)"

definition set_debug :: "byte list option \<Rightarrow> 32 word \<Rightarrow> 32 word \<times> int" where
  "set_debug arg debug = (case arg of
     None \<Rightarrow> (debug, -1)
   | Some s \<Rightarrow>
       if s = [] then (debug, -1)
       else if hd s = 0x3f \<or> s = [0x6c, 0x69, 0x73, 0x74] then (debug, -1)
       else if is_digit (hd s) then (debug OR word_of_int (atoi s), 0)
       else (debug, 0))"

definition short_range :: "int \<Rightarrow> bool" where
  "short_range v \<longleftrightarrow> -32768 \<le> v \<and> v < 32768"

lemma to_short_range: "short_range (to_short v)"
  using sint_ge [of "word_of_int v :: 16 word"] sint_lt [of "word_of_int v :: 16 word"]
  by (simp add: short_range_def to_short_def)

section \<open>The list of peers\<close>

definition fgets :: "nat \<Rightarrow> byte list \<Rightarrow> (byte list \<times> byte list) option" where
  "fgets n s =
     (if s = [] then None
      else let l = takeWhile (\<lambda>b. b \<noteq> 10) s; line = take (n - 1) (if l = s then l else l @ [10])
           in Some (line, drop (length line) s))"

lemma fgets_consumes:
  assumes "fgets n s = Some (line, rest)" "2 \<le> n" shows "length rest < length s"
proof -
  let ?l = "takeWhile (\<lambda>b. b \<noteq> 10) s"
  obtain m where n: "n - 1 = Suc m" using assms(2) by (cases "n - 1") auto
  define ln where "ln = take (n - 1) (if ?l = s then ?l else ?l @ [10])"
  have s: "s \<noteq> []" using assms(1) by (auto simp: fgets_def)
  then have "fgets n s = Some (ln, drop (length ln) s)"
    unfolding fgets_def Let_def ln_def by (simp only: if_False)
  then have l: "line = ln" "rest = drop (length line) s" using assms(1) by simp_all
  have "line \<noteq> []" using s unfolding l(1) ln_def n by (cases "?l = s") (auto simp del: takeWhile_eq_all_conv)
  then show ?thesis using s l(2) by (cases line; cases s) simp_all
qed

text \<open>
  \<^verbatim>\<open>sscanf(line, "%d %s %d", &nodeid, hostname, &port)\<close>: its result, and the variables, which keep their
  values where nothing was converted.
\<close>

definition scan_peer :: "byte list \<Rightarrow> int \<times> byte list \<times> int \<Rightarrow> int \<times> int \<times> byte list \<times> int" where
  "scan_peer line vars = (case vars of (nodeid, hostname, port) \<Rightarrow>
     if skip_space line = [] then (-1, nodeid, hostname, port)
     else case scan_int line of
       None \<Rightarrow> (0, nodeid, hostname, port)
     | Some (nodeid, r) \<Rightarrow>
         (case scan_word r of
            None \<Rightarrow> (1, nodeid, hostname, port)
          | Some (hostname, r) \<Rightarrow>
              (case scan_int r of
                 None \<Rightarrow> (2, nodeid, hostname, port)
               | Some (port, _) \<Rightarrow> (3, nodeid, hostname, port))))"

definition new_peer :: "32 word \<Rightarrow> int \<Rightarrow> int \<Rightarrow> bt_peer_t" where
  "new_peer host nodeid port = \<lparr>peer_id = to_short nodeid,
     peer_addr = \<lparr>sin_family = 2, sin_port = htons (word_of_int port), s_addr = host\<rparr>\<rparr>"

function peer_lines ::
  "(byte list \<Rightarrow> 32 word option) \<Rightarrow> byte list \<Rightarrow> int \<times> byte list \<times> int \<Rightarrow> bt_peer_t list \<Rightarrow> bt_peer_t list res" where
  "peer_lines gethostbyname s vars nodes =
     (case fgets BT_FILENAME_LEN s of
        None \<Rightarrow> Inr nodes
      | Some (line, rest) \<Rightarrow>
          if hd line = 0x23 then peer_lines gethostbyname rest vars nodes
          else case scan_peer line vars of (ret, nodeid, hostname, port) \<Rightarrow>
            if ret = 0 then Inl Exit_Called
            else (case gethostbyname hostname of
                    None \<Rightarrow> Inl Exit_Called
                  | Some host \<Rightarrow>
                      peer_lines gethostbyname rest (nodeid, hostname, port) (new_peer host nodeid port # nodes)))"
  by pat_completeness auto
termination
  by (relation "measure (\<lambda>(_, s, _). length s)") (auto simp: fgets_consumes layout_simps)

declare peer_lines.simps [simp del]

definition bt_parse_peer_list ::
  "(byte list \<Rightarrow> 32 word option) \<Rightarrow> files \<Rightarrow> int \<times> byte list \<times> int \<Rightarrow> bt_config_s \<Rightarrow> bt_config_s res" where
  "bt_parse_peer_list gethostbyname fs stk config =
     (case fs (peer_list_file config) of
        None \<Rightarrow> Inl Exit_Called
      | Some s \<Rightarrow> rbind (peer_lines gethostbyname s stk (peers config)) (\<lambda>nodes. Inr (config\<lparr>peers := nodes\<rparr>)))"

section \<open>The command line\<close>

fun parse_options ::
  "(byte \<times> byte list option) list \<Rightarrow> bt_config_s \<Rightarrow> 32 word \<Rightarrow> (bt_config_s \<times> 32 word) res" where
  "parse_options [] config debug = Inr (config, debug)"
| "parse_options ((c, optarg) # opts) config debug =
     (if c = 0x68 then Inl Exit_Called
      else if c = 0x64 then
        (case set_debug optarg debug of (debug, r) \<Rightarrow>
         if r = -1 then Inl Exit_Called else parse_options opts config debug)
      else if c = 0x70 then
        rbind (copy_name optarg) (\<lambda>s. parse_options opts (config\<lparr>peer_list_file := s\<rparr>) debug)
      else if c = 0x63 then
        rbind (copy_name optarg) (\<lambda>s. parse_options opts (config\<lparr>has_chunk_file := s\<rparr>) debug)
      else if c = 0x66 then
        rbind (copy_name optarg) (\<lambda>s. parse_options opts (config\<lparr>chunk_file := s\<rparr>) debug)
      else if c = 0x6d then
        (case optarg of None \<Rightarrow> Inl Null_Deref
         | Some s \<Rightarrow> parse_options opts (config\<lparr>max_conn := atoi s\<rparr>) debug)
      else if c = 0x69 then
        (case optarg of None \<Rightarrow> Inl Null_Deref
         | Some s \<Rightarrow> parse_options opts (config\<lparr>identity := to_short (atoi s)\<rparr>) debug)
      else Inl Exit_Called)"

definition bt_parse_command_line ::
  "(byte list \<Rightarrow> 32 word option) \<Rightarrow> files \<Rightarrow> int \<times> byte list \<times> int
     \<Rightarrow> (byte \<times> byte list option) list \<Rightarrow> bt_config_s \<Rightarrow> 32 word \<Rightarrow> (bt_config_s \<times> 32 word) res" where
  "bt_parse_command_line gethostbyname fs stk opts config debug =
     rbind (parse_options opts config debug) (\<lambda>(config, debug).
     rbind (bt_parse_peer_list gethostbyname fs stk config) (\<lambda>config.
     if identity config = 0 then Inl Exit_Called
     else case bt_peer_info config (identity config) of
       None \<Rightarrow> Inl Exit_Called
     | Some p \<Rightarrow>
         if chunk_file config = [] \<or> has_chunk_file config = [] then Inl Exit_Called
         else Inr (config\<lparr>myport := ntohs (sin_port (peer_addr p))\<rparr>, debug)))"

section \<open>Properties of the list of peers\<close>

text \<open>
  A file of peers: comments and entries with a number, a host name and a port, one per line. The peers
  that it lists are stated here without \<open>new_peer\<close>: a number is kept as it is when it fits a \<^verbatim>\<open>short\<close>, and
  the two bytes of a port are swapped.
\<close>

definition network_order :: "nat \<Rightarrow> 16 word" where
  "network_order port = word_of_nat (256 * (port mod 256) + port div 256)"

datatype peer_item = Comment "byte list" | Entry nat "byte list" nat

fun item_line :: "peer_item \<Rightarrow> byte list" where
  "item_line (Comment c) = 0x23 # c @ [10]"
| "item_line (Entry n host port) = print_nat n @ [32] @ host @ [32] @ print_nat port @ [10]"

fun item_ok :: "(byte list \<Rightarrow> 32 word option) \<Rightarrow> peer_item \<Rightarrow> bool" where
  "item_ok gethostbyname (Comment c) = (10 \<notin> set c \<and> length c \<le> 252)"
| "item_ok gethostbyname (Entry n host port) =
     (host \<noteq> [] \<and> (\<forall>b \<in> set host. \<not> is_space b) \<and> gethostbyname host \<noteq> None \<and>
      length (item_line (Entry n host port)) \<le> 254 \<and> n < 32768 \<and> port < 65536)"

fun item_peers :: "(byte list \<Rightarrow> 32 word option) \<Rightarrow> peer_item \<Rightarrow> bt_peer_t list" where
  "item_peers gethostbyname (Comment c) = []"
| "item_peers gethostbyname (Entry n host port) =
     [\<lparr>peer_id = int n,
        peer_addr = \<lparr>sin_family = 2, sin_port = network_order port, s_addr = the (gethostbyname host)\<rparr>\<rparr>]"

definition peers_text :: "peer_item list \<Rightarrow> byte list" where
  "peers_text items = concat (map item_line items)"

definition items_peers :: "(byte list \<Rightarrow> 32 word option) \<Rightarrow> peer_item list \<Rightarrow> bt_peer_t list" where
  "items_peers gethostbyname items = concat (map (item_peers gethostbyname) items)"

lemma fgets_line:
  assumes "10 \<notin> set l" "length l \<le> 253"
  shows "fgets BT_FILENAME_LEN (l @ 10 # r) = Some (l @ [10], r)"
proof -
  have "takeWhile (\<lambda>b. b \<noteq> 10) (l @ 10 # r) = l" using assms(1) by (subst takeWhile_append2) auto
  then show ?thesis using assms(2) by (simp add: fgets_def Let_def layout_simps)
qed

lemma newline_not_digit: "\<not> is_digit 10" "\<not> is_digit 32"
  by (simp_all add: is_digit_def)

lemma print_nat_no_newline: "10 \<notin> set (print_nat n)"
  using print_nat_digits [of n] newline_not_digit by blast

lemma scan_int_space: "scan_int (32 # s) = scan_int s"
  by (simp add: scan_int_def skip_space_def is_space_def)

lemma scan_peer_entry:
  assumes "host \<noteq> []" "\<forall>b \<in> set host. \<not> is_space b"
  shows "scan_peer (print_nat n @ [32] @ host @ [32] @ print_nat port @ [10]) vars = (3, int n, host, int port)"
proof -
  obtain x xs where x: "print_nat n = x # xs" "is_digit x" using print_nat_digits [of n] by (cases "print_nat n") auto
  have "\<not> is_space x" using digit_not_space x(2) by blast
  then have ne: "skip_space (print_nat n @ [32] @ host @ [32] @ print_nat port @ [10]) \<noteq> []"
    by (simp add: x(1) skip_space_def)
  have w: "scan_word (32 # host @ 32 # print_nat port @ [10]) = Some (host, 32 # print_nat port @ [10])"
    using scan_word_word(2) [of host 32] assms by (simp add: is_space_def)
  have "scan_int (32 # print_nat port @ [10]) = Some (int port, [10])"
    using scan_int_print [OF newline_not_digit(1), of port "[]"] by (simp add: scan_int_space)
  then show ?thesis
    using ne w scan_int_print [OF newline_not_digit(2), of n "host @ 32 # print_nat port @ [10]"]
    by (cases vars) (simp add: scan_peer_def)
qed

lemma to_short_small: "n < 32768 \<Longrightarrow> to_short (int n) = int n"
  by (simp only: to_short_def int_word_sint) simp

lemma htons_network_order:
  assumes "port < 65536" shows "htons (word_of_int (int port)) = network_order port"
proof -
  let ?w = "word_of_nat port :: 16 word"
  have "push_bit 8 ?w AND drop_bit 8 ?w = 0"
    by (rule bit_word_eqI) (auto simp: bit_simps dest: bit_imp_le_length)
  then have "htons ?w = push_bit 8 ?w + drop_bit 8 ?w" by (simp add: htons_def disjunctive_add_eq_or)
  also have "drop_bit 8 ?w = word_of_nat (port div 256)"
  proof (rule word_unat_eq_iff [THEN iffD2])
    have "unat ?w = port" using assms by (simp add: unat_of_nat)
    then have "unat (drop_bit 8 ?w) = drop_bit 8 port" by (simp only: unat_drop_bit_eq)
    then have "unat (drop_bit 8 ?w) = port div 256" by (simp only: drop_bit_eq_div) simp
    moreover have "port div 256 < 65536" using assms by simp
    ultimately show "unat (drop_bit 8 ?w) = unat (word_of_nat (port div 256) :: 16 word)"
      by (simp only: unat_of_nat) simp
  qed
  also have "push_bit 8 ?w = word_of_nat (256 * (port mod 256))"
  proof -
    have "256 * port = 256 * (port mod 256) + 65536 * (port div 256)"
      using mult_div_mod_eq [of 256 port] by linarith
    then have "(word_of_nat (256 * port) :: 16 word) =
        word_of_nat (256 * (port mod 256)) + word_of_nat 65536 * word_of_nat (port div 256)"
      by (metis of_nat_add of_nat_mult)
    moreover have z: "(word_of_nat 65536 :: 16 word) = 0" by simp
    ultimately have "(word_of_nat (256 * port) :: 16 word) = word_of_nat (256 * (port mod 256))"
      by (simp only: z mult_zero_left add_0_right)
    moreover have "push_bit 8 ?w = word_of_nat (256 * port)" by (simp add: push_bit_eq_mult mult.commute)
    ultimately show ?thesis by simp
  qed
  finally show ?thesis by (simp add: network_order_def)
qed

lemma new_peer_entry:
  assumes "n < 32768" "port < 65536"
  shows "new_peer host (int n) (int port) =
    \<lparr>peer_id = int n, peer_addr = \<lparr>sin_family = 2, sin_port = network_order port, s_addr = host\<rparr>\<rparr>"
  using assms by (simp add: new_peer_def to_short_small htons_network_order del: of_int_of_nat_eq)

fun after_item :: "peer_item \<Rightarrow> int \<times> byte list \<times> int \<Rightarrow> int \<times> byte list \<times> int" where
  "after_item (Comment c) vars = vars"
| "after_item (Entry n host port) vars = (int n, host, int port)"

lemma peer_lines_item:
  assumes "item_ok g item"
  shows "peer_lines g (item_line item @ r) vars nodes =
    peer_lines g r (after_item item vars) (item_peers g item @ nodes)"
proof (cases item)
  case (Comment c)
  then have "fgets BT_FILENAME_LEN (item_line item @ r) = Some (0x23 # c @ [10], r)"
    using fgets_line [of "0x23 # c" r] assms by simp
  then show ?thesis using Comment by (subst peer_lines.simps) simp
next
  case (Entry n host port)
  let ?l = "print_nat n @ [32] @ host @ [32] @ print_nat port"
  have h: "host \<noteq> []" "\<forall>b \<in> set host. \<not> is_space b" using assms Entry by simp_all
  have "is_space 10" by (simp add: is_space_def)
  then have "10 \<notin> set host" using h(2) by blast
  then have "10 \<notin> set ?l" using print_nat_no_newline by simp
  then have f: "fgets BT_FILENAME_LEN (item_line item @ r) = Some (?l @ [10], r)"
    using fgets_line [of ?l r] assms Entry by simp
  obtain x xs where x: "print_nat n = x # xs" "is_digit x" using print_nat_digits [of n] by (cases "print_nat n") auto
  then have "hd (?l @ [10]) \<noteq> 0x23" by (auto simp: is_digit_def)
  moreover have "scan_peer (?l @ [10]) vars = (3, int n, host, int port)"
    using scan_peer_entry [OF h] by simp
  moreover obtain a where "g host = Some a" using assms Entry by auto
  ultimately show ?thesis
    using f Entry assms by (subst peer_lines.simps) (simp add: new_peer_entry del: append_assoc)
qed

lemma peer_lines_text:
  assumes "\<forall>i \<in> set items. item_ok g i"
  shows "peer_lines g (peers_text items) vars nodes = Inr (rev (items_peers g items) @ nodes)"
  using assms
proof (induction items arbitrary: vars nodes)
  case Nil
  show ?case by (subst peer_lines.simps) (simp add: peers_text_def items_peers_def fgets_def)
next
  case (Cons i items)
  have "peer_lines g (item_line i @ peers_text items) vars nodes =
      peer_lines g (peers_text items) (after_item i vars) (item_peers g i @ nodes)"
    using peer_lines_item [of g i "peers_text items"] Cons.prems by simp
  moreover have "rev (item_peers g i) = item_peers g i" by (cases i) simp_all
  ultimately show ?case
    using Cons.IH [of "after_item i vars" "item_peers g i @ nodes"] Cons.prems
    by (simp add: peers_text_def items_peers_def)
qed

text \<open>
  C32. A list of peers is read back as it was written: for a file of comments and entries, with numbers
  that fit a \<^verbatim>\<open>short\<close>, ports below 65536 and lines that fit the buffer, the configuration gets exactly
  one peer for each entry, with its number, the address of its host and its port in network byte order,
  the last one first.
\<close>

theorem peer_list_roundtrip:
  assumes "fs (peer_list_file config) = Some (peers_text items)" and "\<forall>i \<in> set items. item_ok g i"
    and "peers config = []"
  shows "bt_parse_peer_list g fs stk config = Inr (config\<lparr>peers := rev (items_peers g items)\<rparr>)"
  using assms(1,3) peer_lines_text [OF assms(2)] by (simp add: bt_parse_peer_list_def)

theorem peer_list_roundtrip_witness:
  "bt_parse_peer_list (\<lambda>_. Some 16777343) (\<lambda>_. Some (peers_text [Comment [], Entry 1 [97] 7, Entry 2 [98] 8]))
     (0, [], 0) bt_init =
   Inr (bt_init\<lparr>peers :=
     [\<lparr>peer_id = 2, peer_addr = \<lparr>sin_family = 2, sin_port = 0x0800, s_addr = 16777343\<rparr>\<rparr>,
      \<lparr>peer_id = 1, peer_addr = \<lparr>sin_family = 2, sin_port = 0x0700, s_addr = 16777343\<rparr>\<rparr>]\<rparr>)"
proof -
  let ?items = "[Comment [], Entry 1 [97] 7, Entry 2 [98] 8]"
  have "\<forall>i \<in> set ?items. item_ok (\<lambda>_. Some 16777343) i"
    by (simp add: is_space_def print_nat.simps)
  then show ?thesis
    using peer_list_roundtrip [of "\<lambda>_. Some (peers_text ?items)" bt_init ?items "\<lambda>_. Some 16777343" "(0, [], 0)"]
    by (simp add: bt_init_def items_peers_def network_order_def)
qed

text \<open>
  A number that does not fit a \<^verbatim>\<open>short\<close> is not refused: the peer gets its lowest 16 bits as its number.
\<close>

theorem large_peer_number_wraps:
  "peer_id (new_peer host (nodeid + 65536 * k) port) = peer_id (new_peer host nodeid port) \<and>
   short_range (peer_id (new_peer host nodeid port))"
proof -
  have "(word_of_int 65536 :: 16 word) = 0" by simp
  then have "(word_of_int (nodeid + 65536 * k) :: 16 word) = word_of_int nodeid"
    by (simp only: of_int_add of_int_mult) simp
  then show ?thesis using to_short_range by (simp add: new_peer_def to_short_def)
qed

text \<open>
  A blank line is not skipped: \<^verbatim>\<open>sscanf\<close> returns EOF for it, which the assertion lets pass, and the
  peer of the line before is added once more.
\<close>

theorem blank_line_repeats_peer:
  assumes "item_ok g (Entry n host port)" and "\<forall>i \<in> set items. item_ok g i"
  shows "peer_lines g (item_line (Entry n host port) @ [10] @ peers_text items) vars nodes =
    Inr (rev (items_peers g items) @ item_peers g (Entry n host port) @ item_peers g (Entry n host port) @ nodes)"
proof -
  obtain a where a: "g host = Some a" using assms(1) by auto
  let ?nodes = "item_peers g (Entry n host port) @ nodes"
  have "fgets BT_FILENAME_LEN ([10] @ peers_text items) = Some ([10], peers_text items)"
    using fgets_line [of "[]"] by simp
  moreover have "scan_peer [10] vars' = (-1, vars')" for vars'
    by (cases vars') (simp add: scan_peer_def skip_space_def is_space_def)
  ultimately have "peer_lines g ([10] @ peers_text items) (int n, host, int port) ?nodes =
      peer_lines g (peers_text items) (int n, host, int port) (item_peers g (Entry n host port) @ ?nodes)"
    using a assms(1) by (subst peer_lines.simps) (simp add: new_peer_entry)
  then show ?thesis
    using peer_lines_item [OF assms(1), of "[10] @ peers_text items" vars nodes] peer_lines_text [OF assms(2)]
    by auto
qed

theorem blank_line_repeats_peer_witness:
  "peer_lines (\<lambda>_. Some 16777343) (item_line (Entry 1 [97] 7) @ [10] @ peers_text []) (0, [], 0) [] =
     Inr (replicate 2 \<lparr>peer_id = 1, peer_addr = \<lparr>sin_family = 2, sin_port = 0x0700, s_addr = 16777343\<rparr>\<rparr>)"
proof -
  have "item_ok (\<lambda>_. Some 16777343) (Entry 1 [97] 7)" by (simp add: is_space_def print_nat.simps)
  then show ?thesis
    using blank_line_repeats_peer [of "\<lambda>_. Some 16777343" 1 "[97]" 7 "[]" "(0, [], 0)" "[]"]
    by (simp add: items_peers_def network_order_def numeral_2_eq_2)
qed

section \<open>Properties of the command line\<close>

text \<open>\<open>names_fit\<close>: every name of the configuration fits its array.\<close>

definition names_fit :: "bt_config_s \<Rightarrow> bool" where
  "names_fit config \<longleftrightarrow> length (chunk_file config) < 255 \<and> length (has_chunk_file config) < 255 \<and>
     length (output_file config) < 255 \<and> length (peer_list_file config) < 255"

lemma copy_name_fits: "copy_name arg = Inr s \<Longrightarrow> length s < 255"
  by (auto simp: copy_name_def layout_simps split: option.splits if_splits)

lemma parse_options_fit:
  "parse_options opts config debug = Inr (config', debug') \<Longrightarrow> names_fit config \<Longrightarrow> short_range (identity config) \<Longrightarrow>
     names_fit config' \<and> short_range (identity config') \<and> peers config' = peers config"
proof (induction opts config debug rule: parse_options.induct)
  case (2 c optarg opts config debug)
  note IH = "2.IH" and prems = "2.prems"
  consider (d) "c = 0x64" | (p) "c = 0x70" | (c) "c = 0x63" | (f) "c = 0x66" | (m) "c = 0x6d" | (i) "c = 0x69"
    using prems(1) by (auto split: if_splits)
  then show ?case
  proof cases
    case d
    then show ?thesis using prems IH(1) by (auto split: prod.splits if_splits)
  next
    case p
    then obtain s where s: "copy_name optarg = Inr s"
        "parse_options opts (config\<lparr>peer_list_file := s\<rparr>) debug = Inr (config', debug')"
      using prems(1) by (auto simp: res_simps)
    have "names_fit (config\<lparr>peer_list_file := s\<rparr>)" using prems(2) copy_name_fits [OF s(1)] by (simp add: names_fit_def)
    then show ?thesis using IH(2) [of s] p s prems(3) by simp
  next
    case c
    then obtain s where s: "copy_name optarg = Inr s"
        "parse_options opts (config\<lparr>has_chunk_file := s\<rparr>) debug = Inr (config', debug')"
      using prems(1) by (auto simp: res_simps)
    have "names_fit (config\<lparr>has_chunk_file := s\<rparr>)" using prems(2) copy_name_fits [OF s(1)] by (simp add: names_fit_def)
    then show ?thesis using IH(3) [of s] c s prems(3) by simp
  next
    case f
    then obtain s where s: "copy_name optarg = Inr s"
        "parse_options opts (config\<lparr>chunk_file := s\<rparr>) debug = Inr (config', debug')"
      using prems(1) by (auto simp: res_simps)
    have "names_fit (config\<lparr>chunk_file := s\<rparr>)" using prems(2) copy_name_fits [OF s(1)] by (simp add: names_fit_def)
    then show ?thesis using IH(4) [of s] f s prems(3) by simp
  next
    case m
    then show ?thesis using prems IH(5) by (auto simp: names_fit_def split: option.splits)
  next
    case i
    then show ?thesis using prems IH(6) to_short_range by (auto simp: names_fit_def split: option.splits)
  qed
qed simp

text \<open>
  C33. When the parser of the command line lets the program start, its configuration is complete: the
  identity is not 0, fits a \<^verbatim>\<open>short\<close> and is that of a listed peer, whose port is the one to bind to, both
  chunk files are named, and all names fit their arrays.
\<close>

theorem command_line_checked:
  assumes "bt_parse_command_line g fs stk opts bt_init debug = Inr (config, debug')"
  shows "identity config \<noteq> 0 \<and> short_range (identity config) \<and> names_fit config \<and>
    (\<exists>p \<in> set (peers config). peer_id p = identity config \<and> myport config = ntohs (sin_port (peer_addr p))) \<and>
    chunk_file config \<noteq> [] \<and> has_chunk_file config \<noteq> []"
proof -
  obtain c1 c2 p where c: "parse_options opts bt_init debug = Inr (c1, debug')"
      "bt_parse_peer_list g fs stk c1 = Inr c2" "identity c2 \<noteq> 0" "bt_peer_info c2 (identity c2) = Some p"
      "chunk_file c2 \<noteq> []" "has_chunk_file c2 \<noteq> []" "config = c2\<lparr>myport := ntohs (sin_port (peer_addr p))\<rparr>"
    using assms by (auto simp: bt_parse_command_line_def res_simps split: if_splits option.splits)
  have "names_fit bt_init" "short_range (identity bt_init)"
    by (simp_all add: bt_init_def names_fit_def short_range_def)
  note fit = parse_options_fit [OF c(1) this]
  obtain nodes where "c2 = c1\<lparr>peers := nodes\<rparr>"
    using c(2) by (auto simp: bt_parse_peer_list_def res_simps split: option.splits)
  then have "names_fit c2 \<and> short_range (identity c2)" using fit by (simp add: names_fit_def)
  moreover have "p \<in> set (peers c2)" "peer_id p = identity c2"
    using c(4) by (auto simp: bt_peer_info_def dest: find_Some_in_set)
  ultimately show ?thesis using c(3,5-7) by (auto simp: names_fit_def)
qed

lemma example_command_line:
  "\<exists>config. bt_parse_command_line (\<lambda>_. Some 16777343) (\<lambda>_. Some (peers_text [Entry 1 [97] 7])) (0, [], 0)
      [(0x63, Some [104]), (0x66, Some [109]), (0x69, Some [0x31])] bt_init 0 = Inr (config, 0) \<and>
    identity config = 1 \<and> chunk_file config = [109] \<and> has_chunk_file config = [104]"
proof -
  let ?g = "\<lambda>_ :: byte list. Some (16777343 :: 32 word)"
  have a: "atoi [0x31] = 1"
    by (simp add: atoi_def scan_int_def skip_space_def is_space_def scan_digits_def is_digit_def digits_value_def)
  have s: "to_short 1 = 1" by (simp add: to_short_def)
  have "item_ok ?g (Entry 1 [97] 7)" by (simp add: is_space_def print_nat.simps)
  then have l: "peer_lines ?g (peers_text [Entry 1 [97] 7]) (0, [], 0) [] = Inr [new_peer 16777343 1 7]"
    using peer_lines_text [of "[Entry 1 [97] 7]" ?g "(0, [], 0)" "[]"] new_peer_entry [of 1 7 16777343]
    by (simp add: items_peers_def)
  show ?thesis
    by (simp add: bt_parse_command_line_def copy_name_def layout_simps a s bt_parse_peer_list_def bt_init_def
        l [unfolded One_nat_def] bt_peer_info_def new_peer_def)
qed

theorem command_line_checked_witness:
  "\<exists>config. bt_parse_command_line (\<lambda>_. Some 16777343) (\<lambda>_. Some (peers_text [Entry 1 [97] 7])) (0, [], 0)
      [(0x63, Some [104]), (0x66, Some [109]), (0x69, Some [0x31])] bt_init 0 = Inr (config, 0) \<and>
    identity config = 1 \<and> (\<exists>p \<in> set (peers config). peer_id p = 1 \<and> myport config = ntohs (sin_port (peer_addr p)))"
proof -
  obtain config where c: "bt_parse_command_line (\<lambda>_. Some 16777343) (\<lambda>_. Some (peers_text [Entry 1 [97] 7])) (0, [], 0)
      [(0x63, Some [104]), (0x66, Some [109]), (0x69, Some [0x31])] bt_init 0 = Inr (config, 0)"
      "identity config = 1"
    using example_command_line by blast
  show ?thesis using command_line_checked [OF c(1)] c by auto
qed

end
