(* ===== verification/Log.thy ===== *)
theory Log
  imports ChunkFiles Sender
begin

text \<open>
  The log file of window sizes (\<^verbatim>\<open>log.c\<close>). The sender calls \<^verbatim>\<open>LOGIN\<close> whenever it sets a window; its model
  records the arguments in the list \<open>wlog\<close>. Here are the functions themselves: the stream \<^verbatim>\<open>log_fd\<close>, the
  files, the clock and the line that is written. The clock and the success of \<^verbatim>\<open>fopen\<close> are arguments.
\<close>

section \<open>The code\<close>

record timespec =
  tv_sec :: int
  tv_nsec :: int

text \<open>A stream is \<^verbatim>\<open>NULL\<close>, open on the file with a name, or closed with the pointer still there.\<close>

datatype stream = Null_Stream | Stream "byte list" | Closed_Stream

record log_st =
  log_fd :: stream
  log_files :: files
  log_start :: timespec

definition BILLION :: int where "BILLION = 1000000000"

text \<open>The bytes of \<^verbatim>\<open>problem2-peer.txt\<close>.\<close>

definition default_log :: "byte list" where
  "default_log = [0x70, 0x72, 0x6f, 0x62, 0x6c, 0x65, 0x6d, 0x32, 0x2d, 0x70, 0x65, 0x65, 0x72, 0x2e, 0x74, 0x78, 0x74]"

definition LOGOPEN :: "bool \<Rightarrow> timespec \<Rightarrow> byte list option \<Rightarrow> log_st \<Rightarrow> log_st" where
  "LOGOPEN opened now path st =
     (let name = (case path of None \<Rightarrow> default_log | Some p \<Rightarrow> p);
          st = (if opened then st\<lparr>log_fd := Stream name, log_files := (log_files st)(name \<mapsto> [])\<rparr>
                else st\<lparr>log_fd := Null_Stream\<rparr>)
      in st\<lparr>log_start := now\<rparr>)"

definition LOGCLOSE :: "log_st \<Rightarrow> log_st res" where
  "LOGCLOSE st =
     (case log_fd st of
        Null_Stream \<Rightarrow> Inl Null_Deref
      | Stream name \<Rightarrow> Inr (st\<lparr>log_fd := Closed_Stream\<rparr>)
      | Closed_Stream \<Rightarrow> Inl Dangling)"

text \<open>Values of type \<^verbatim>\<open>long\<close> have 64 bits; arithmetic that leaves them is undefined.\<close>

definition long :: "int \<Rightarrow> int res" where
  "long v = (if - (2 ^ 63) \<le> v \<and> v < 2 ^ 63 then Inr v else Inl Int_Overflow)"

text \<open>The unsigned number of milliseconds that \<^verbatim>\<open>LOGIN\<close> computes.\<close>

definition log_millis :: "timespec \<Rightarrow> timespec \<Rightarrow> nat res" where
  "log_millis start now =
     rbind (long (tv_sec now - tv_sec start)) (\<lambda>s.
     rbind (long (BILLION * s)) (\<lambda>n.
     rbind (long (n + tv_nsec now)) (\<lambda>n.
     rbind (long (n - tv_nsec start)) (\<lambda>n.
     Inr (nat (n mod 2 ^ 64) div 1000000)))))"

definition print_int :: "int \<Rightarrow> byte list" where
  "print_int i = (if i < 0 then 0x2d # print_nat (nat (- i)) else print_nat (nat i))"

definition log_line :: "int \<Rightarrow> nat \<Rightarrow> int \<Rightarrow> byte list" where
  "log_line i ms w = [0x66] @ print_int i @ [9] @ print_nat ms @ [9] @ print_int w @ [10]"

definition LOGIN :: "timespec \<Rightarrow> int \<Rightarrow> int \<Rightarrow> log_st \<Rightarrow> log_st res" where
  "LOGIN now i window_size st =
     (case log_fd st of
        Null_Stream \<Rightarrow> Inr st
      | f \<Rightarrow>
          rbind (log_millis (log_start st) now) (\<lambda>ms.
          case f of
            Stream name \<Rightarrow>
              (case log_files st name of
                 None \<Rightarrow> Inr st
               | Some text \<Rightarrow> Inr (st\<lparr>log_files := (log_files st)(name \<mapsto> text @ log_line i ms window_size)\<rparr>))
          | _ \<Rightarrow> Inl Dangling))"

text \<open>The calls that a sender recorded, each at its time.\<close>

fun log_all :: "(timespec \<times> int \<times> int) list \<Rightarrow> log_st \<Rightarrow> log_st res" where
  "log_all [] st = Inr st"
| "log_all ((now, i, w) # cs) st = rbind (LOGIN now i w st) (log_all cs)"

section \<open>Reading the log\<close>

text \<open>A reader of the file, as \<^verbatim>\<open>fscanf(f, "f%d %llu %d\n", ...)\<close> takes it apart.\<close>

definition read_log_line :: "byte list \<Rightarrow> ((int \<times> int \<times> int) \<times> byte list) option" where
  "read_log_line s =
     (case s of
        [] \<Rightarrow> None
      | c # s \<Rightarrow>
          if c \<noteq> 0x66 then None
          else case scan_int s of None \<Rightarrow> None | Some (i, s) \<Rightarrow>
            (case scan_int s of None \<Rightarrow> None | Some (ms, s) \<Rightarrow>
            (case scan_int s of None \<Rightarrow> None | Some (w, s) \<Rightarrow>
            (case s of [] \<Rightarrow> None | n # s \<Rightarrow> if n = 10 then Some ((i, ms, w), s) else None))))"

fun read_log :: "nat \<Rightarrow> byte list \<Rightarrow> (int \<times> int \<times> int) list" where
  "read_log 0 s = []"
| "read_log (Suc n) s = (case read_log_line s of None \<Rightarrow> [] | Some (e, s) \<Rightarrow> e # read_log n s)"

lemma scan_int_skip: "is_space b \<Longrightarrow> scan_int (b # s) = scan_int s"
  by (simp add: scan_int_def skip_space_def)

lemma scan_int_print_int: "\<not> is_digit c \<Longrightarrow> scan_int (print_int i @ c # r) = Some (i, c # r)"
proof (cases "i < 0")
  case True
  assume c: "\<not> is_digit c"
  note p = print_nat_digits [of "nat (- i)"]
  have "takeWhile is_digit (print_nat (nat (- i)) @ c # r) = print_nat (nat (- i))"
    "dropWhile is_digit (print_nat (nat (- i)) @ c # r) = c # r"
    using p c by (simp_all add: takeWhile_append2 dropWhile_append2)
  then have "scan_digits (print_nat (nat (- i)) @ c # r) = Some (- i, c # r)"
    using p True by (simp add: scan_digits_def)
  then show ?thesis using True by (simp add: print_int_def scan_int_def skip_space_def is_space_def)
next
  case False
  assume "\<not> is_digit c"
  with scan_int_print [of c "nat i" r] False show ?thesis by (simp add: print_int_def)
qed

lemma read_log_line_printed: "read_log_line (log_line i ms w @ s) = Some ((i, int ms, w), s)"
proof -
  have sp: "\<not> is_digit 9" "\<not> is_digit 10" "is_space 9" by (simp_all add: is_digit_def is_space_def)
  have "read_log_line (0x66 # print_int i @ 9 # print_nat ms @ 9 # print_int w @ 10 # s) =
      Some ((i, int ms, w), s)"
    by (simp add: read_log_line_def scan_int_print_int scan_int_print scan_int_skip sp)
  then show ?thesis by (simp add: log_line_def)
qed

lemma read_log_printed:
  "read_log (length es) (concat (map (\<lambda>(i, ms, w). log_line i ms w) es)) = map (\<lambda>(i, ms, w). (i, int ms, w)) es"
  by (induction es) (auto simp: read_log_line_printed)

section \<open>Times\<close>

text \<open>The nanoseconds of a time, and the times that a clock can show within the range of \<^verbatim>\<open>long\<close>.\<close>

definition nanos :: "timespec \<Rightarrow> int" where
  "nanos t = 1000000000 * tv_sec t + tv_nsec t"

definition clock_ok :: "timespec \<Rightarrow> timespec \<Rightarrow> bool" where
  "clock_ok start now \<longleftrightarrow> 0 \<le> tv_nsec start \<and> tv_nsec start < 1000000000 \<and> 0 \<le> tv_nsec now \<and>
     tv_nsec now < 1000000000 \<and> nanos start \<le> nanos now \<and> tv_sec now - tv_sec start < 9000000000"

lemma log_millis_elapsed:
  assumes "clock_ok start now"
  shows "log_millis start now = Inr (nat ((nanos now - nanos start) div 1000000))"
proof -
  have d: "0 \<le> nanos now - nanos start" "nanos now - nanos start < 2 ^ 63"
    "0 \<le> tv_sec now - tv_sec start" "tv_sec now - tv_sec start < 9000000000"
    using assms by (simp_all add: clock_ok_def nanos_def)
  then have r: "long (tv_sec now - tv_sec start) = Inr (tv_sec now - tv_sec start)"
      "long (BILLION * (tv_sec now - tv_sec start)) = Inr (BILLION * (tv_sec now - tv_sec start))"
      "long (BILLION * (tv_sec now - tv_sec start) + tv_nsec now) = Inr (BILLION * (tv_sec now - tv_sec start) + tv_nsec now)"
      "long (BILLION * (tv_sec now - tv_sec start) + tv_nsec now - tv_nsec start) = Inr (nanos now - nanos start)"
    using assms by (simp_all add: long_def BILLION_def clock_ok_def nanos_def)
  have "nat ((nanos now - nanos start) mod 2 ^ 64) div 1000000 = nat ((nanos now - nanos start) div 1000000)"
    using d by (simp add: nat_div_distrib)
  then show ?thesis unfolding log_millis_def r rbind_Inr by simp
qed

section \<open>Properties of the log\<close>

definition millis :: "timespec \<Rightarrow> timespec \<Rightarrow> int" where
  "millis start now = (nanos now - nanos start) div 1000000"

lemma login_appends:
  assumes "log_fd st = Stream name" "log_files st name = Some bs" "clock_ok (log_start st) now"
  shows "LOGIN now i w st = Inr (st\<lparr>log_files := (log_files st)
    (name \<mapsto> bs @ log_line i (nat (millis (log_start st) now)) w)\<rparr>)"
  using log_millis_elapsed [OF assms(3)] assms(1,2) by (simp add: LOGIN_def millis_def)

lemma log_all_appends:
  assumes "log_fd st = Stream name" "log_files st name = Some bs" "\<forall>c \<in> set cs. clock_ok (log_start st) (fst c)"
  shows "log_all cs st = Inr (st\<lparr>log_files := (log_files st)(name \<mapsto> bs @
    concat (map (\<lambda>(now, i, w). log_line i (nat (millis (log_start st) now)) w) cs))\<rparr>)"
  using assms
proof (induction cs arbitrary: st bs)
  case Nil
  then have "(log_files st)(name \<mapsto> bs) = log_files st" by (simp add: fun_upd_idem)
  then show ?case by simp
next
  case (Cons c cs)
  obtain now i w where c: "c = (now, i, w)" by (cases c) auto
  let ?st = "st\<lparr>log_files := (log_files st)(name \<mapsto> bs @ log_line i (nat (millis (log_start st) now)) w)\<rparr>"
  have "LOGIN now i w st = Inr ?st" using Cons.prems c by (intro login_appends) simp_all
  moreover have "log_all cs ?st = Inr (?st\<lparr>log_files := (log_files ?st)(name \<mapsto>
      (bs @ log_line i (nat (millis (log_start st) now)) w) @
      concat (map (\<lambda>(now, i, w). log_line i (nat (millis (log_start ?st) now)) w) cs))\<rparr>)"
    using Cons.prems by (intro Cons.IH) simp_all
  ultimately show ?case by (simp add: c) (simp add: fun_upd_def)
qed

lemma millis_nonneg: "clock_ok start now \<Longrightarrow> 0 \<le> millis start now"
  by (simp add: millis_def clock_ok_def pos_imp_zdiv_nonneg_iff)

text \<open>
  C29. The log can be read: after \<^verbatim>\<open>LOGOPEN\<close>, whatever the file held before and whether a log was open
  already, the calls of \<^verbatim>\<open>LOGIN\<close> leave a file from which every chunk number and window size is read back in
  order, each with the milliseconds since the start of the log.
\<close>

theorem log_readable:
  assumes "\<forall>c \<in> set calls. clock_ok start (fst c)"
  shows "\<exists>st' bs. log_all calls (LOGOPEN True start None st) = Inr st' \<and>
    log_files st' default_log = Some bs \<and> (\<forall>f. f \<noteq> default_log \<longrightarrow> log_files st' f = log_files st f) \<and>
    read_log (length calls) bs = map (\<lambda>(now, i, w). (i, millis start now, w)) calls"
proof -
  let ?st = "LOGOPEN True start None st"
  let ?es = "map (\<lambda>(now, i, w). (i, nat (millis start now), w)) calls"
  have "log_fd ?st = Stream default_log" "log_files ?st default_log = Some []" "log_start ?st = start"
    by (simp_all add: LOGOPEN_def)
  then have "log_all calls ?st = Inr (?st\<lparr>log_files := (log_files ?st)(default_log \<mapsto> []
      @ concat (map (\<lambda>(now, i, w). log_line i (nat (millis start now)) w) calls))\<rparr>)"
    using log_all_appends [of ?st default_log "[]" calls] assms by simp
  moreover have "concat (map (\<lambda>(now, i, w). log_line i (nat (millis start now)) w) calls) =
      concat (map (\<lambda>(i, ms, w). log_line i ms w) ?es)"
    by (rule arg_cong [of _ _ concat]) (simp add: case_prod_beta)
  moreover have "read_log (length calls) (concat (map (\<lambda>(i, ms, w). log_line i ms w) ?es)) =
      map (\<lambda>(now, i, w). (i, millis start now, w)) calls"
    using read_log_printed [of ?es] assms by (auto simp: millis_nonneg)
  ultimately show ?thesis by (auto simp: LOGOPEN_def)
qed

theorem log_readable_witness:
  "\<exists>st' bs. log_all [(\<lparr>tv_sec = 6, tv_nsec = 0\<rparr>, 0, 1), (\<lparr>tv_sec = 7, tv_nsec = 5000000\<rparr>, 524288, 2)]
       (LOGOPEN True \<lparr>tv_sec = 5, tv_nsec = 999000000\<rparr> None
         \<lparr>log_fd = Null_Stream, log_files = \<lambda>f. None, log_start = \<lparr>tv_sec = 0, tv_nsec = 0\<rparr>\<rparr>) = Inr st' \<and>
     log_files st' default_log = Some bs \<and> read_log 2 bs = [(0, 1, 1), (524288, 1006, 2)]"
  using log_readable [of "[(\<lparr>tv_sec = 6, tv_nsec = 0\<rparr>, 0, 1), (\<lparr>tv_sec = 7, tv_nsec = 5000000\<rparr>, 524288, 2)]"
      "\<lparr>tv_sec = 5, tv_nsec = 999000000\<rparr>"
      "\<lparr>log_fd = Null_Stream, log_files = \<lambda>f. None, log_start = \<lparr>tv_sec = 0, tv_nsec = 0\<rparr>\<rparr>"]
  by (auto simp: clock_ok_def nanos_def millis_def numeral_2_eq_2)

end
