(* ===== verification/Sha1Builds.thy ===== *)
theory Sha1Builds
  imports Sha1
begin

text \<open>
  The other configurations of \<^verbatim>\<open>sha.c\<close>. Its macros choose the byte order (\<^verbatim>\<open>WORDS_BIGENDIAN\<close>, \<^verbatim>\<open>RUNTIME_ENDIAN\<close>
  or neither), how far the rounds are unrolled (\<^verbatim>\<open>SHA1_UNROLL\<close>) and whether whole blocks are hashed in
  place (\<^verbatim>\<open>SHA1_FAST_COPY\<close>). The functions take the configuration and the byte order of the machine
  (\<open>le\<close>: little endian) as arguments. Every configuration that fits the machine is a streaming hash
  in the sense of the interface of theory \<open>Sha1\<close>, with the same digest.
\<close>

section \<open>Configurations and machines\<close>

datatype byte_order = Words_Littleendian | Words_Bigendian | Runtime_Endian

text \<open>The values of \<^verbatim>\<open>SHA1_UNROLL\<close>; any other value is rejected by the preprocessor.\<close>

datatype unroll = Unroll_1 | Unroll_2 | Unroll_4 | Unroll_5 | Unroll_10 | Unroll_20

record sha1_build =
  bd_order :: byte_order
  bd_unroll :: unroll
  bd_fast_copy :: bool

text \<open>The field \<^verbatim>\<open>littleEndian\<close> of the context is there and set with \<^verbatim>\<open>RUNTIME_ENDIAN\<close> only.\<close>

record sha1_build_ctx = sha1_ctx +
  sc_little_endian :: int

text \<open>Words in the memory of a machine.\<close>

definition load32 :: "bool \<Rightarrow> byte list \<Rightarrow> 32 word" where
  "load32 le bs = (if le then le32 bs else be32 bs)"

definition store32 :: "bool \<Rightarrow> 32 word \<Rightarrow> byte list" where
  "store32 le w = (if le then le32_bytes w else word_bytes w)"

definition store64 :: "bool \<Rightarrow> 64 word \<Rightarrow> byte list" where
  "store64 le w = (if le then le64_bytes w else word_bytes (ucast (drop_bit 32 w)) @ word_bytes (ucast w))"

definition set_endian :: "bool \<Rightarrow> int" where
  "set_endian le = (if store32 le 1 ! 0 \<noteq> 0 then 1 else 0)"

definition runtime_byteswap :: "int \<Rightarrow> 32 word \<Rightarrow> 32 word" where
  "runtime_byteswap little x = (if little = 0 then x else BYTESWAP x)"

definition runtime_byteswap64 :: "int \<Rightarrow> 64 word \<Rightarrow> 64 word" where
  "runtime_byteswap64 little x = (if little = 0 then x else byteswap64 x)"

definition build_byteswap :: "sha1_build \<Rightarrow> sha1_build_ctx \<Rightarrow> 32 word \<Rightarrow> 32 word" where
  "build_byteswap bd sc x =
     (case bd_order bd of
        Words_Littleendian \<Rightarrow> BYTESWAP x
      | Words_Bigendian \<Rightarrow> x
      | Runtime_Endian \<Rightarrow> runtime_byteswap (sc_little_endian sc) x)"

definition build_byteswap64 :: "sha1_build \<Rightarrow> sha1_build_ctx \<Rightarrow> 64 word \<Rightarrow> 64 word" where
  "build_byteswap64 bd sc x =
     (case bd_order bd of
        Words_Littleendian \<Rightarrow> byteswap64 x
      | Words_Bigendian \<Rightarrow> x
      | Runtime_Endian \<Rightarrow> runtime_byteswap64 (sc_little_endian sc) x)"

definition build_init :: "sha1_build \<Rightarrow> bool \<Rightarrow> sha1_build_ctx \<Rightarrow> sha1_build_ctx" where
  "build_init bd le sc =
     (if bd_order bd = Runtime_Endian then sc\<lparr>sc_little_endian := set_endian le\<rparr> else sc)
       \<lparr>sc_total := 0, sc_hash := [0x67452301, 0xefcdab89, 0x98badcfe, 0x10325476, 0xc3d2e1f0],
        sc_length := 0\<rparr>"

section \<open>Unrolled rounds\<close>

type_synonym round_fun = "32 word \<Rightarrow> 32 word \<Rightarrow> 32 word \<Rightarrow> 32 word"

text \<open>
  \<open>n\<close> copies of the statement \<^verbatim>\<open>DO_ROUND(F, K)\<close>, each of which reads the word at the pointer \<^verbatim>\<open>W\<close> and moves
  it on. The pointer is the list of the words from it on.
\<close>

fun do_rounds :: "round_fun \<Rightarrow> 32 word \<Rightarrow> nat \<Rightarrow> regs \<times> 32 word list \<Rightarrow> (regs \<times> 32 word list) res" where
  "do_rounds F K 0 s = Inr s"
| "do_rounds F K (Suc n) (st, []) = Inl Out_Of_Bounds"
| "do_rounds F K (Suc n) (st, w # W) = do_rounds F K n (do_round F K st w, W)"

text \<open>\<^verbatim>\<open>for (i = k - 1; i >= 0; i--)\<close> around \<open>n\<close> copies, and four such loops one after the other.\<close>

fun round_loop ::
  "round_fun \<Rightarrow> 32 word \<Rightarrow> nat \<Rightarrow> nat \<Rightarrow> regs \<times> 32 word list \<Rightarrow> (regs \<times> 32 word list) res" where
  "round_loop F K n 0 s = Inr s"
| "round_loop F K n (Suc k) s = rbind (do_rounds F K n s) (round_loop F K n k)"

definition four_loops :: "nat \<Rightarrow> nat \<Rightarrow> regs \<times> 32 word list \<Rightarrow> (regs \<times> 32 word list) res" where
  "four_loops n k s =
     rbind (round_loop F_0_19 K_0_19 n k s) (\<lambda>s.
     rbind (round_loop F_20_39 K_20_39 n k s) (\<lambda>s.
     rbind (round_loop F_40_59 K_40_59 n k s) (\<lambda>s.
     round_loop F_60_79 K_60_79 n k s)))"

definition rounds_unroll_1 :: "regs \<times> 32 word list \<Rightarrow> (regs \<times> 32 word list) res" where
  "rounds_unroll_1 = four_loops 1 20"

definition rounds_unroll_2 :: "regs \<times> 32 word list \<Rightarrow> (regs \<times> 32 word list) res" where
  "rounds_unroll_2 = four_loops 2 10"

definition rounds_unroll_4 :: "regs \<times> 32 word list \<Rightarrow> (regs \<times> 32 word list) res" where
  "rounds_unroll_4 = four_loops 4 5"

definition rounds_unroll_5 :: "regs \<times> 32 word list \<Rightarrow> (regs \<times> 32 word list) res" where
  "rounds_unroll_5 = four_loops 5 4"

definition rounds_unroll_10 :: "regs \<times> 32 word list \<Rightarrow> (regs \<times> 32 word list) res" where
  "rounds_unroll_10 = four_loops 10 2"

definition rounds_unroll_20 :: "regs \<times> 32 word list \<Rightarrow> (regs \<times> 32 word list) res" where
  "rounds_unroll_20 s =
     rbind (do_rounds F_0_19 K_0_19 20 s) (\<lambda>s.
     rbind (do_rounds F_20_39 K_20_39 20 s) (\<lambda>s.
     rbind (do_rounds F_40_59 K_40_59 20 s) (\<lambda>s.
     do_rounds F_60_79 K_60_79 20 s)))"

definition build_rounds :: "unroll \<Rightarrow> regs \<times> 32 word list \<Rightarrow> (regs \<times> 32 word list) res" where
  "build_rounds u =
     (case u of
        Unroll_1 \<Rightarrow> rounds_unroll_1
      | Unroll_2 \<Rightarrow> rounds_unroll_2
      | Unroll_4 \<Rightarrow> rounds_unroll_4
      | Unroll_5 \<Rightarrow> rounds_unroll_5
      | Unroll_10 \<Rightarrow> rounds_unroll_10
      | Unroll_20 \<Rightarrow> rounds_unroll_20)"

definition build_guts :: "sha1_build \<Rightarrow> bool \<Rightarrow> sha1_build_ctx \<Rightarrow> byte list \<Rightarrow> sha1_build_ctx res" where
  "build_guts bd le sc cbuf =
     (let h = sc_hash sc;
          W = schedule 64 (map (\<lambda>i. build_byteswap bd sc (load32 le (take 4 (drop (4 * i) cbuf)))) [0..<16])
      in rbind (build_rounds (bd_unroll bd) ((h ! 0, h ! 1, h ! 2, h ! 3, h ! 4), W)) (\<lambda>s.
           case fst s of (a, b, c, d, e) \<Rightarrow>
             Inr (sc\<lparr>sc_hash := [h ! 0 + a, h ! 1 + b, h ! 2 + c, h ! 3 + d, h ! 4 + e]\<rparr>)))"

section \<open>Update and final\<close>

text \<open>The step that both variants of \<^verbatim>\<open>SHA1Update\<close> contain: fill the buffer and hash it when it is full.\<close>

definition fill_buffer ::
  "sha1_build \<Rightarrow> bool \<Rightarrow> sha1_build_ctx \<Rightarrow> byte list \<Rightarrow> (sha1_build_ctx \<times> byte list) res" where
  "fill_buffer bd le sc dat =
     (let left = 64 - sc_length sc;
          n = (if unat left > length dat then length dat else unat left)
      in rbind (memcpy (sc_buffer sc) (unat (sc_length sc)) (Some dat) n) (\<lambda>buf.
         let sc = sc\<lparr>sc_buffer := buf, sc_total := sc_total sc + of_nat n * 8,
                    sc_length := sc_length sc + of_nat n\<rparr>
         in if sc_length sc = 64
            then rbind (build_guts bd le sc (sc_buffer sc)) (\<lambda>sc. Inr (sc\<lparr>sc_length := 0\<rparr>, drop n dat))
            else Inr (sc, drop n dat)))"

partial_function (option) buffered_update ::
  "sha1_build \<Rightarrow> bool \<Rightarrow> sha1_build_ctx \<Rightarrow> byte list \<Rightarrow> sha1_build_ctx res option" where
  "buffered_update bd le sc dat =
     (if dat = [] then Some (Inr sc)
      else case fill_buffer bd le sc dat of
             Inl e \<Rightarrow> Some (Inl e)
           | Inr r \<Rightarrow> buffered_update bd le (fst r) (snd r))"

text \<open>With \<^verbatim>\<open>SHA1_FAST_COPY\<close>: a partly filled buffer first, whole blocks from the data, and the rest.\<close>

function whole_blocks ::
  "sha1_build \<Rightarrow> bool \<Rightarrow> sha1_build_ctx \<Rightarrow> byte list \<Rightarrow> (sha1_build_ctx \<times> byte list) res" where
  "whole_blocks bd le sc dat =
     (if length dat > 63
      then rbind (build_guts bd le (sc\<lparr>sc_total := sc_total sc + 512\<rparr>) dat) (\<lambda>sc.
             whole_blocks bd le sc (drop 64 dat))
      else Inr (sc, dat))"
  by pat_completeness auto
termination by (relation "measure (\<lambda>(bd, le, sc, dat). length dat)") auto

declare whole_blocks.simps [simp del]

definition keep_rest :: "sha1_build_ctx \<Rightarrow> byte list \<Rightarrow> sha1_build_ctx res" where
  "keep_rest sc dat =
     (if dat \<noteq> []
      then rbind (memcpy (sc_buffer sc) (unat (sc_length sc)) (Some dat) (length dat)) (\<lambda>buf.
             Inr (sc\<lparr>sc_buffer := buf, sc_total := sc_total sc + of_nat (length dat) * 8,
                     sc_length := sc_length sc + of_nat (length dat)\<rparr>))
      else Inr sc)"

definition fast_update :: "sha1_build \<Rightarrow> bool \<Rightarrow> sha1_build_ctx \<Rightarrow> byte list \<Rightarrow> sha1_build_ctx res" where
  "fast_update bd le sc dat =
     rbind (if sc_length sc \<noteq> 0 then fill_buffer bd le sc dat else Inr (sc, dat)) (\<lambda>r.
     rbind (whole_blocks bd le (fst r) (snd r)) (\<lambda>r.
     keep_rest (fst r) (snd r)))"

definition build_update :: "sha1_build \<Rightarrow> bool \<Rightarrow> sha1_build_ctx \<Rightarrow> byte list \<Rightarrow> sha1_build_ctx res option" where
  "build_update bd le sc dat =
     (if bd_fast_copy bd then Some (fast_update bd le sc dat) else buffered_update bd le sc dat)"

definition hash_bytes :: "sha1_build \<Rightarrow> bool \<Rightarrow> sha1_build_ctx \<Rightarrow> 32 word \<Rightarrow> byte list" where
  "hash_bytes bd le sc w =
     (if bd_fast_copy bd then store32 le (build_byteswap bd sc w)
      else [ucast (drop_bit 24 w), ucast (drop_bit 16 w), ucast (drop_bit 8 w), ucast w])"

definition build_final :: "sha1_build \<Rightarrow> bool \<Rightarrow> sha1_build_ctx \<Rightarrow> byte list res option" where
  "build_final bd le sc =
     (let bytes_to_pad = 120 - sc_length sc;
          bytes_to_pad = (if bytes_to_pad > 64 then bytes_to_pad - 64 else bytes_to_pad);
          length_pad = build_byteswap64 bd sc (sc_total sc)
      in update_then (build_update bd le sc (take (unat bytes_to_pad) sha1_padding)) (\<lambda>sc.
         update_then (build_update bd le sc (store64 le length_pad)) (\<lambda>sc.
         Some (Inr (concat (map (hash_bytes bd le sc) (sc_hash sc)))))))"

section \<open>Byte orders\<close>

text \<open>A configuration fits a machine when its fixed byte order is the one of the machine.\<close>

definition fits :: "sha1_build \<Rightarrow> bool \<Rightarrow> bool" where
  "fits bd le \<longleftrightarrow> (bd_order bd = Words_Littleendian \<longrightarrow> le) \<and> (bd_order bd = Words_Bigendian \<longrightarrow> \<not> le)"

definition knows_order :: "sha1_build \<Rightarrow> bool \<Rightarrow> sha1_build_ctx \<Rightarrow> bool" where
  "knows_order bd le sc \<longleftrightarrow> (bd_order bd = Runtime_Endian \<longrightarrow> sc_little_endian sc = set_endian le)"

lemma set_endian_values: "set_endian True = 1" "set_endian False = 0"
  by (simp_all add: set_endian_def store32_def le32_bytes_def word_bytes_def)

text \<open>The effect of both swaps on a machine that the configuration fits.\<close>

lemma build_byteswap_fits:
  "fits bd le \<Longrightarrow> knows_order bd le sc \<Longrightarrow> build_byteswap bd sc x = (if le then BYTESWAP x else x)"
  by (cases "bd_order bd"; cases le)
     (simp_all add: build_byteswap_def fits_def knows_order_def set_endian_values runtime_byteswap_def)

lemma build_byteswap64_fits:
  "fits bd le \<Longrightarrow> knows_order bd le sc \<Longrightarrow> build_byteswap64 bd sc x = (if le then byteswap64 x else x)"
  by (cases "bd_order bd"; cases le)
     (simp_all add: build_byteswap64_def fits_def knows_order_def set_endian_values runtime_byteswap64_def)

lemma loaded_block:
  assumes "fits bd le" "knows_order bd le sc"
  shows "map (\<lambda>i. build_byteswap bd sc (load32 le (take 4 (drop (4 * i) cbuf)))) [0..<16] = buffer_words cbuf"
  using build_byteswap_fits [OF assms]
  by (simp add: buffer_words_def load32_def BYTESWAP_le32 del: upt_rec_numeral)

lemma stored_hash:
  assumes "fits bd le" "knows_order bd le sc"
  shows "hash_bytes bd le sc = word_bytes"
  using build_byteswap_fits [OF assms]
  by (simp add: fun_eq_iff hash_bytes_def store32_def le32_bytes_BYTESWAP word_bytes_def)

lemma stored_length:
  assumes "fits bd le" "knows_order bd le sc"
  shows "store64 le (build_byteswap64 bd sc (of_nat n)) = be64_bytes n"
  using build_byteswap64_fits [OF assms, of "of_nat n"] length_pad_bytes [of n]
  by (simp add: store64_def le64_bytes_def byteswap64_halves le32_bytes_BYTESWAP)

section \<open>Unrolling does not matter\<close>

lemma do_rounds_foldl:
  "n \<le> length W \<Longrightarrow> do_rounds F K n (st, W) = Inr (foldl (do_round F K) st (take n W), drop n W)"
proof (induction n arbitrary: st W)
  case (Suc n)
  then obtain w W' where "W = w # W'" by (cases W) auto
  with Suc show ?case by (simp del: do_round.simps)
qed simp

lemma round_loop_foldl:
  "n * k \<le> length W \<Longrightarrow>
     round_loop F K n k (st, W) = Inr (foldl (do_round F K) st (take (n * k) W), drop (n * k) W)"
proof (induction k arbitrary: st W)
  case (Suc k)
  have "n \<le> length W" "n * k \<le> length (drop n W)" using Suc.prems by simp_all
  moreover have "take n W @ take (n * k) (drop n W) = take (n * Suc k) W"
    by (simp add: take_add)
  then have "foldl f (foldl f st (take n W)) (take (n * k) (drop n W)) = foldl f st (take (n * Suc k) W)" for f :: "regs \<Rightarrow> 32 word \<Rightarrow> regs"
    by (metis foldl_append)
  ultimately show ?case
    using Suc.IH [of "drop n W"] by (simp add: do_rounds_foldl ac_simps)
qed simp

lemma four_loops_rounds:
  assumes "n * k = 20" "length W = 80"
  shows "four_loops n k (st, W) = Inr (rounds W st, [])"
  using assms by (simp add: four_loops_def round_loop_foldl rounds_def)

lemma build_rounds_all: "length W = 80 \<Longrightarrow> build_rounds u (st, W) = Inr (rounds W st, [])"
  by (cases u)
     (simp_all add: build_rounds_def four_loops_rounds rounds_unroll_1_def rounds_unroll_2_def rounds_unroll_4_def
       rounds_unroll_5_def rounds_unroll_10_def rounds_unroll_20_def do_rounds_foldl rounds_def)

lemma length_schedule: "length (schedule n W) = length W + n"
  by (induction n arbitrary: W) (simp_all add: Let_def)

lemma build_guts_hash:
  assumes "fits bd le" "knows_order bd le sc"
  shows "build_guts bd le sc cbuf = Inr (sc\<lparr>sc_hash := sha1_guts (sc_hash sc) cbuf\<rparr>)"
proof -
  have "length (schedule 64 (buffer_words cbuf)) = 80"
    unfolding length_schedule by (simp add: buffer_words_def)
  then show ?thesis
    unfolding build_guts_def Let_def loaded_block [OF assms] sha1_guts_def
    by (simp add: build_rounds_all split: prod.split)
qed

section \<open>The update functions\<close>

text \<open>\<open>taken_in bd le sc M\<close>: the context has absorbed the message \<open>M\<close> and knows the byte order if it has to.\<close>

definition taken_in :: "sha1_build \<Rightarrow> bool \<Rightarrow> sha1_build_ctx \<Rightarrow> byte list \<Rightarrow> bool" where
  "taken_in bd le sc M \<longleftrightarrow> absorbed (sha1_ctx.truncate sc) M \<and> knows_order bd le sc"

lemma fill_buffer_step:
  assumes "fits bd le" "knows_order bd le sc" "update_step (sha1_ctx.truncate sc) dat = Inr (sc1, rest)"
  shows "\<exists>sc'. fill_buffer bd le sc dat = Inr (sc', rest) \<and> sha1_ctx.truncate sc' = sc1 \<and> knows_order bd le sc'"
  using assms(2,3)
  by (auto simp: fill_buffer_def update_step_def Let_def rbind_eq_Inr sha1_ctx.defs knows_order_def
      build_guts_hash [OF assms(1)] split: if_splits)

lemma fill_buffer_taken_in:
  assumes "fits bd le" "taken_in bd le sc M" "dat \<noteq> []"
  shows "\<exists>sc' n. fill_buffer bd le sc dat = Inr (sc', drop n dat) \<and> 0 < n \<and> n \<le> length dat \<and>
    taken_in bd le sc' (M @ take n dat) \<and> (drop n dat = [] \<or> sc_length sc' = 0)"
proof -
  obtain sc1 n where s: "update_step (sha1_ctx.truncate sc) dat = Inr (sc1, drop n dat)" "0 < n" "n \<le> length dat"
      "absorbed sc1 (M @ take n dat)" "drop n dat = [] \<or> sc_length sc1 = 0"
    using update_step_absorbed [of "sha1_ctx.truncate sc" M dat] assms(2,3)
    unfolding taken_in_def by (elim conjE) blast
  obtain sc' where "fill_buffer bd le sc dat = Inr (sc', drop n dat)" "sha1_ctx.truncate sc' = sc1"
      "knows_order bd le sc'"
    using fill_buffer_step [OF assms(1) _ s(1)] assms(2) by (auto simp: taken_in_def)
  moreover from this(2) have "sc_length sc' = sc_length sc1" by (auto simp: sha1_ctx.defs)
  ultimately show ?thesis using s unfolding taken_in_def by (intro exI conjI) auto
qed

lemma buffered_update_taken_in:
  assumes "fits bd le" "taken_in bd le sc M"
  shows "\<exists>sc'. buffered_update bd le sc dat = Some (Inr sc') \<and> taken_in bd le sc' (M @ dat)"
  using assms(2)
proof (induction dat arbitrary: sc M rule: length_induct)
  case (1 dat)
  show ?case
  proof (cases "dat = []")
    case True
    with 1 show ?thesis by (simp add: buffered_update.simps)
  next
    case False
    obtain sc1 n where s: "fill_buffer bd le sc dat = Inr (sc1, drop n dat)" "0 < n" "n \<le> length dat"
        "taken_in bd le sc1 (M @ take n dat)"
      using fill_buffer_taken_in [OF assms(1) 1(2) False] by blast
    then have "length (drop n dat) < length dat" by simp
    then obtain sc2 where "buffered_update bd le sc1 (drop n dat) = Some (Inr sc2)"
        "taken_in bd le sc2 ((M @ take n dat) @ drop n dat)"
      using 1(1) s(4) by blast
    then show ?thesis using False s(1) by (simp add: buffered_update.simps [of _ _ sc dat])
  qed
qed

text \<open>With an empty buffer a whole block of data goes straight into the hash.\<close>

lemma whole_block_taken_in:
  assumes "fits bd le" "taken_in bd le sc M" "sc_length sc = 0" "64 \<le> length dat"
  shows "\<exists>sc'. build_guts bd le (sc\<lparr>sc_total := sc_total sc + 512\<rparr>) dat = Inr sc' \<and>
    taken_in bd le sc' (M @ take 64 dat) \<and> sc_length sc' = 0"
proof -
  let ?sc = "sc\<lparr>sc_total := sc_total sc + 512\<rparr>"
  let ?sc' = "?sc\<lparr>sc_hash := sha1_guts (sc_hash sc) dat\<rparr>"
  have order: "knows_order bd le ?sc" using assms(2) by (simp add: taken_in_def knows_order_def)
  obtain p r where M: "M = p @ r" "length p mod 64 = 0" "length r < 64" "sc_hash sc = absorb initial_hash p"
      "sc_length sc = of_nat (length r)" "length (sc_buffer sc) = 64" "sc_total sc = of_nat (8 * length M)"
    using assms(2) by (auto simp: taken_in_def absorbed_def sha1_ctx.defs)
  have "unat (of_nat (length r) :: 32 word) = length r" using M(3) by (simp add: unat_of_nat)
  then have "r = []" using M(5) assms(3) by simp
  then have p: "M = p" using M(1) by simp
  have "buffer_words dat = buffer_words (take 64 dat)"
    unfolding buffer_words_def by (intro map_cong refl) (simp add: take_drop min_def)
  then have "sha1_guts (sc_hash sc) dat = sha1_guts (sc_hash sc) (take 64 dat)"
    by (simp only: sha1_guts_def)
  also have "\<dots> = absorb initial_hash (p @ take 64 dat)"
    using M(2,4) assms(4) by (simp add: sha1_guts_compress absorb_append absorb_block)
  finally have "absorbed (sha1_ctx.truncate ?sc') (M @ take 64 dat)"
    unfolding absorbed_def p using M(2,6,7) p assms(3,4)
    by (intro conjI exI [of _ "p @ take 64 dat"] exI [of _ "[]"]) (simp_all add: sha1_ctx.defs mod_simps)
  then show ?thesis
    using build_guts_hash [OF assms(1) order] order assms(3) by (simp add: taken_in_def knows_order_def)
qed

lemma whole_blocks_taken_in:
  assumes "fits bd le" "taken_in bd le sc M" "sc_length sc = 0 \<or> dat = []"
  shows "\<exists>sc' n. whole_blocks bd le sc dat = Inr (sc', drop n dat) \<and> n \<le> length dat \<and>
    taken_in bd le sc' (M @ take n dat) \<and> length (drop n dat) < 64 \<and> (sc_length sc' = 0 \<or> drop n dat = [])"
  using assms(2,3)
proof (induction dat arbitrary: sc M rule: length_induct)
  case (1 dat)
  show ?case
  proof (cases "length dat < 64")
    case True
    then show ?thesis using 1(2,3) by (intro exI [of _ sc] exI [of _ 0]) (simp add: whole_blocks.simps)
  next
    case False
    then have "64 \<le> length dat" "sc_length sc = 0" using 1(3) by auto
    then obtain sc1 where s: "build_guts bd le (sc\<lparr>sc_total := sc_total sc + 512\<rparr>) dat = Inr sc1"
        "taken_in bd le sc1 (M @ take 64 dat)" "sc_length sc1 = 0"
      using whole_block_taken_in [OF assms(1) 1(2)] by blast
    have "length (drop 64 dat) < length dat" using False by simp
    then obtain sc2 n where r: "whole_blocks bd le sc1 (drop 64 dat) = Inr (sc2, drop n (drop 64 dat))"
        "n \<le> length (drop 64 dat)" "taken_in bd le sc2 ((M @ take 64 dat) @ take n (drop 64 dat))"
        "length (drop n (drop 64 dat)) < 64" "sc_length sc2 = 0 \<or> drop n (drop 64 dat) = []"
      using 1(1) s(2,3) by metis
    have "whole_blocks bd le sc dat = Inr (sc2, drop (64 + n) dat)"
      using False s(1) r(1) by (simp add: whole_blocks.simps [of _ _ sc dat] add.commute)
    moreover have "64 + n \<le> length dat" "length (drop (64 + n) dat) < 64" using r(2,4) False by simp_all
    moreover have "taken_in bd le sc2 (M @ take (64 + n) dat)" using r(3) by (simp add: take_add)
    moreover have "sc_length sc2 = 0 \<or> drop (64 + n) dat = []" using r(5) by (simp add: add.commute)
    ultimately show ?thesis by blast
  qed
qed

text \<open>What is left is shorter than the buffer, so keeping it is the step that fills a buffer.\<close>

lemma keep_rest_taken_in:
  assumes "fits bd le" "taken_in bd le sc M" "length dat < 64" "sc_length sc = 0 \<or> dat = []"
  shows "\<exists>sc'. keep_rest sc dat = Inr sc' \<and> taken_in bd le sc' (M @ dat)"
proof (cases "dat = []")
  case True
  then show ?thesis using assms(2) by (simp add: keep_rest_def)
next
  case False
  have "unat (of_nat (length dat) :: 32 word) = length dat" using assms(3) by (simp add: unat_of_nat)
  then have "of_nat (length dat) \<noteq> (64 :: 32 word)" using assms(3) by auto
  then have "fill_buffer bd le sc dat = rbind (keep_rest sc dat) (\<lambda>sc. Inr (sc, []))"
    using False assms(3,4) by (simp add: fill_buffer_def keep_rest_def Let_def rbind_def split: sum.split)
  moreover obtain sc' n where s: "fill_buffer bd le sc dat = Inr (sc', drop n dat)" "taken_in bd le sc' (M @ take n dat)"
    using fill_buffer_taken_in [OF assms(1,2) False] by blast
  ultimately have "keep_rest sc dat = Inr sc'" "drop n dat = []" by (cases "keep_rest sc dat"; simp)+
  then show ?thesis using s(2) by simp
qed

lemma fill_buffer_Nil: "taken_in bd le sc M \<Longrightarrow> fill_buffer bd le sc [] = Inr (sc, [])"
proof -
  assume "taken_in bd le sc M"
  then obtain r :: "byte list" where r: "length r < 64" "sc_length sc = of_nat (length r)" "length (sc_buffer sc) = 64"
    by (auto simp: taken_in_def absorbed_def sha1_ctx.defs)
  then have u: "unat (sc_length sc) = length r" by (simp add: unat_of_nat)
  then have "sc_length sc \<noteq> 64" using r(1) by auto
  then show ?thesis using u r(1,3) by (simp add: fill_buffer_def Let_def memcpy_Some)
qed

lemma fast_update_taken_in:
  assumes "fits bd le" "taken_in bd le sc M"
  shows "\<exists>sc'. fast_update bd le sc dat = Inr sc' \<and> taken_in bd le sc' (M @ dat)"
proof -
  obtain sc1 n where 1: "(if sc_length sc \<noteq> 0 then fill_buffer bd le sc dat else Inr (sc, dat)) = Inr (sc1, drop n dat)"
      "taken_in bd le sc1 (M @ take n dat)" "sc_length sc1 = 0 \<or> drop n dat = []"
  proof -
    consider "sc_length sc = 0" | "sc_length sc \<noteq> 0" "dat = []" | "sc_length sc \<noteq> 0" "dat \<noteq> []" by blast
    then show thesis
    proof cases
      case 1
      then show thesis using assms(2) by (intro that [of sc 0]) simp_all
    next
      case 2
      then show thesis using assms(2) fill_buffer_Nil [OF assms(2)] by (intro that [of sc 0]) simp_all
    next
      case 3
      then obtain sc1 n where "fill_buffer bd le sc dat = Inr (sc1, drop n dat)" "taken_in bd le sc1 (M @ take n dat)"
          "drop n dat = [] \<or> sc_length sc1 = 0"
        using fill_buffer_taken_in [OF assms 3(2)] by blast
      with 3 show thesis by (intro that [of sc1 n]) auto
    qed
  qed
  obtain sc2 k where 2: "whole_blocks bd le sc1 (drop n dat) = Inr (sc2, drop k (drop n dat))"
      "taken_in bd le sc2 ((M @ take n dat) @ take k (drop n dat))" "length (drop k (drop n dat)) < 64"
      "sc_length sc2 = 0 \<or> drop k (drop n dat) = []"
    using whole_blocks_taken_in [OF assms(1) 1(2,3)] by blast
  obtain sc3 where 3: "keep_rest sc2 (drop k (drop n dat)) = Inr sc3"
      "taken_in bd le sc3 (((M @ take n dat) @ take k (drop n dat)) @ drop k (drop n dat))"
    using keep_rest_taken_in [OF assms(1) 2(2-4)] by blast
  have "((M @ take n dat) @ take k (drop n dat)) @ drop k (drop n dat) = M @ dat"
    by (simp only: append_assoc append_take_drop_id)
  then show ?thesis using 1(1) 2(1) 3 by (simp add: fast_update_def)
qed

lemma build_update_taken_in:
  assumes "fits bd le" "taken_in bd le sc M"
  shows "\<exists>sc'. build_update bd le sc dat = Some (Inr sc') \<and> taken_in bd le sc' (M @ dat)"
  using buffered_update_taken_in [OF assms, of dat] fast_update_taken_in [OF assms, of dat]
  by (auto simp: build_update_def)

section \<open>Every configuration is a streaming hash\<close>

lemma build_init_taken_in: "length (sc_buffer sc) = 64 \<Longrightarrow> taken_in bd le (build_init bd le sc) []"
  by (simp add: taken_in_def absorbed_def build_init_def knows_order_def sha1_ctx.defs absorb_short)

lemma build_final_digest:
  assumes "fits bd le" "taken_in bd le sc M"
  shows "build_final bd le sc = Some (Inr (sha1_spec M))"
proof -
  let ?k = "unat (let b = 120 - sc_length sc in if b > 64 then b - 64 else b)"
  have sc: "absorbed (sha1_ctx.truncate sc) M" "knows_order bd le sc" using assms(2) by (simp_all add: taken_in_def)
  have truncated: "sc_length (sha1_ctx.truncate sc) = sc_length sc" by (simp add: sha1_ctx.defs)
  have total: "sc_total sc = of_nat (8 * length M)" using sc(1) by (simp add: absorbed_def sha1_ctx.defs)
  obtain sc1 where sc1: "build_update bd le sc (take ?k sha1_padding) = Some (Inr sc1)"
      "taken_in bd le sc1 (M @ take ?k sha1_padding)"
    using build_update_taken_in [OF assms] by blast
  have pieces: "(M @ take ?k sha1_padding) @ be64_bytes (8 * length M) = pad M"
    using final_pieces [OF sc(1)] unfolding truncated .
  obtain sc2 where sc2: "build_update bd le sc1 (be64_bytes (8 * length M)) = Some (Inr sc2)"
      "taken_in bd le sc2 (pad M)"
    using build_update_taken_in [OF assms(1) sc1(2), of "be64_bytes (8 * length M)"]
    unfolding pieces by (elim exE conjE) (rule that)
  have hash: "sc_hash sc2 = absorb initial_hash (pad M)" "knows_order bd le sc2"
    using sc2(2) padded_hash [of "sha1_ctx.truncate sc2" M] by (simp_all add: taken_in_def sha1_ctx.defs)
  have "concat (map (hash_bytes bd le sc2) (sc_hash sc2)) = sha1_spec M"
    by (simp only: hash(1) stored_hash [OF assms(1) hash(2)] sha1_spec_def)
  moreover have "build_final bd le sc = update_then (build_update bd le sc (take ?k sha1_padding)) (\<lambda>sc.
      update_then (build_update bd le sc (be64_bytes (8 * length M))) (\<lambda>sc.
      Some (Inr (concat (map (hash_bytes bd le sc) (sc_hash sc))))))"
    unfolding build_final_def Let_def total stored_length [OF assms(1) sc(2)] by (rule refl)
  ultimately show ?thesis by (simp only: sc1(1) sc2(1) update_then_def option.case sum.case)
qed

lemma build_stream_hash:
  assumes "fits bd le"
  shows "stream_hash (build_init bd le) (build_update bd le) (build_final bd le)
    (\<lambda>sc. length (sc_buffer sc) = 64) (taken_in bd le) sha1_spec"
  by unfold_locales
     (rule build_init_taken_in build_update_taken_in [OF assms] build_final_digest [OF assms]; assumption)+

text \<open>
  C10. Whatever the configuration of \<^verbatim>\<open>sha.c\<close> -- rounds in loops of 1, 2, 4, 5 or 10 or written out, whole
  blocks hashed in place or copied through the buffer, byte order fixed or found at run time -- as
  long as it fits the machine, a message given in pieces of any length has the digest of FIPS 180-4, the
  functions return and touch only their buffers. So all configurations compute what the one of the
  \<^verbatim>\<open>Makefile\<close> computes.
\<close>

theorem every_build_is_sha1:
  assumes "fits bd le" and "length (sc_buffer uninit) = 64"
  shows "update_then (feed (build_update bd le) (build_init bd le uninit) pieces) (build_final bd le) =
    Some (Inr (sha1_spec (concat pieces)))"
  by (rule stream_hash.pieces_digest [OF build_stream_hash [OF assms(1)] assms(2)])

definition uninit_build_ctx :: sha1_build_ctx where
  "uninit_build_ctx = \<lparr>sc_total = 7, sc_hash = [1, 2, 3, 4, 5], sc_length = 9, sc_buffer = replicate 64 255,
     sc_little_endian = 5\<rparr>"

theorem every_build_is_sha1_witness:
  "update_then (feed (build_update \<lparr>bd_order = Runtime_Endian, bd_unroll = Unroll_5, bd_fast_copy = True\<rparr> False)
       (build_init \<lparr>bd_order = Runtime_Endian, bd_unroll = Unroll_5, bd_fast_copy = True\<rparr> False uninit_build_ctx)
       [[0x61], [], replicate 200 0x62])
     (build_final \<lparr>bd_order = Runtime_Endian, bd_unroll = Unroll_5, bd_fast_copy = True\<rparr> False) =
   Some (Inr (sha1_spec (0x61 # replicate 200 0x62)))"
  using every_build_is_sha1 [of "\<lparr>bd_order = Runtime_Endian, bd_unroll = Unroll_5, bd_fast_copy = True\<rparr>" False
      uninit_build_ctx "[[0x61], [], replicate 200 0x62]"]
  by (simp add: fits_def uninit_build_ctx_def)


section \<open>burnStack\<close>

text \<open>
  The bytes of the stack that a call overwrites: every call clears its own array of 128 bytes and calls itself for what
  is left of \<open>sz\<close>. Nothing is written that the program reads again.
\<close>

function burnStack :: "int \<Rightarrow> nat" where
  "burnStack sz = 128 + (if sz - 128 > 0 then burnStack (sz - 128) else 0)"
  by pat_completeness auto
termination by (relation "measure nat") auto

declare burnStack.simps [simp del]

text \<open>
  It clears at least what it is asked for and less than an array more; \<^verbatim>\<open>SHA1Update\<close> asks for the locals of \<^verbatim>\<open>SHA1Guts\<close>
  (86 words, five pointers and an \<^verbatim>\<open>int\<close>), which takes four calls.
\<close>

theorem burnStack_covers: "0 < sz \<Longrightarrow> sz \<le> int (burnStack sz) \<and> int (burnStack sz) < sz + 128"
proof (induction sz rule: burnStack.induct)
  case (1 sz)
  then show ?case by (subst (1 2) burnStack.simps) auto
qed

lemma burnStack_of_update: "burnStack (86 * 4 + 5 * 8 + 4) = 512"
  by (simp add: burnStack.simps)

end
