(* ===== verification/Console.thy ===== *)
theory Console
  imports BtParse Log
begin

text \<open>
  What the program prints about itself: the usage and help of the command line and the configuration
  (\<^verbatim>\<open>bt_usage\<close>, \<^verbatim>\<open>bt_help\<close>, \<^verbatim>\<open>bt_dump_config\<close>), and the debug flags with their list (\<^verbatim>\<open>debug.h\<close>, \<^verbatim>\<open>debug-text.h\<close>,
  \<^verbatim>\<open>set_debug\<close>). A text is the list of its lines without their newlines.
\<close>

definition ascii :: "string \<Rightarrow> byte list" where
  "ascii s = map of_char s"

section \<open>Debug flags\<close>

definition DEBUG_NONE :: "32 word" where "DEBUG_NONE = 0x00"
definition DEBUG_ERRS :: "32 word" where "DEBUG_ERRS = 0x01"
definition DEBUG_INIT :: "32 word" where "DEBUG_INIT = 0x02"
definition DEBUG_SOCKETS :: "32 word" where "DEBUG_SOCKETS = 0x04"
definition DEBUG_PROCESSES :: "32 word" where "DEBUG_PROCESSES = 0x08"
definition DEBUG_SPIFFY :: "32 word" where "DEBUG_SPIFFY = 0x10"
definition DEBUG_ALL :: "32 word" where "DEBUG_ALL = 0xffffffff"

lemmas debug_flags = DEBUG_NONE_def DEBUG_ERRS_def DEBUG_INIT_def DEBUG_SOCKETS_def DEBUG_PROCESSES_def DEBUG_SPIFFY_def
  DEBUG_ALL_def

text \<open>The table without its end marker.\<close>

definition debugs :: "(32 word \<times> byte list) list" where
  "debugs = [(DEBUG_NONE, ascii ''No debugging''), (DEBUG_ERRS, ascii ''Verbose error reporting''),
     (DEBUG_INIT, ascii ''Debug initialization''), (DEBUG_SOCKETS, ascii ''Debug socket operations''),
     (DEBUG_PROCESSES, ascii ''Debug processes (fork/reap/etc)''), (DEBUG_SPIFFY, ascii ''Debug the spiffy sending code'')]"

text \<open>The macro \<^verbatim>\<open>DPRINTF\<close>; \<open>compiled\<close>: the symbol \<^verbatim>\<open>DEBUG\<close> is defined, as the \<^verbatim>\<open>Makefile\<close> does.\<close>

definition DPRINTF :: "bool \<Rightarrow> 32 word \<Rightarrow> 32 word \<Rightarrow> byte list \<Rightarrow> byte list" where
  "DPRINTF compiled debug level msg = (if compiled \<and> debug AND level \<noteq> 0 then msg else [])"

text \<open>A number under \<^verbatim>\<open>%5d\<close>.\<close>

definition padded :: "int \<Rightarrow> byte list" where
  "padded i = replicate (5 - length (print_int i)) 32 @ print_int i"

definition set_debug_prints :: "byte list option \<Rightarrow> byte list list" where
  "set_debug_prints arg = (case arg of
     None \<Rightarrow> []
   | Some s \<Rightarrow>
       if s = [] then []
       else if hd s = 0x3f \<or> s = ascii ''list'' then
         [ascii ''Debug values and definitions'', ascii ''----------------------------''] @
         map (\<lambda>(v, text). padded (sint v) @ ascii ''  '' @ text) debugs
       else [])"

text \<open>
  The flags are independent of each other: the option \<^verbatim>\<open>-d\<close> with the number of a flag of the list switches on the
  messages of that flag and no others.
\<close>

lemma digit_facts: "is_digit b \<Longrightarrow> \<not> is_space b \<and> b \<noteq> 0x2d \<and> b \<noteq> 0x2b \<and> b \<noteq> 0x3f \<and> b \<noteq> 0x6c"
  by (auto simp: is_digit_def is_space_def word_le_nat_alt)

lemma atoi_print_nat: "atoi (print_nat n) = int n"
proof -
  have d: "print_nat n \<noteq> []" "\<forall>b \<in> set (print_nat n). is_digit b" "digits_value (print_nat n) = int n"
    using print_nat_digits [of n] by auto
  then obtain c r where c: "print_nat n = c # r" "is_digit c" by (cases "print_nat n") auto
  have "skip_space (print_nat n) = print_nat n" using c digit_facts by (simp add: skip_space_def)
  then show ?thesis using c digit_facts [OF c(2)] d(2,3)
    by (simp add: atoi_def scan_int_def scan_digits_def takeWhile_eq_all_conv [THEN iffD2])
qed

lemma set_debug_number: "set_debug (Some (print_nat n)) debug = (debug OR word_of_nat n, 0)"
proof -
  have d: "print_nat n \<noteq> []" "\<forall>b \<in> set (print_nat n). is_digit b" using print_nat_digits [of n] by auto
  then have "is_digit (hd (print_nat n))" by simp
  moreover from digit_facts [OF this] have "hd (print_nat n) \<noteq> 0x3f" "print_nat n \<noteq> [0x6c, 0x69, 0x73, 0x74]" by auto
  ultimately show ?thesis using d(1) by (simp add: set_debug_def atoi_print_nat)
qed

theorem flag_prints_its_messages:
  assumes "(v, text) \<in> set debugs" and "(w, text') \<in> set debugs"
  shows "set_debug (Some (print_nat (unat v))) 0 = (v, 0)"
    and "DPRINTF True (fst (set_debug (Some (print_nat (unat v))) 0)) w msg = (if v = w \<and> v \<noteq> DEBUG_NONE then msg else [])"
proof -
  show s: "set_debug (Some (print_nat (unat v))) 0 = (v, 0)" by (simp add: set_debug_number)
  show "DPRINTF True (fst (set_debug (Some (print_nat (unat v))) 0)) w msg = (if v = w \<and> v \<noteq> DEBUG_NONE then msg else [])"
    using assms unfolding s by (auto simp: debugs_def debug_flags DPRINTF_def)
qed

section \<open>Usage and help\<close>

definition bt_usage :: "byte list list" where
  "bt_usage =
    [ascii ''usage:  peer [-h] [-d <debug>] -p <peerfile> -c <chunkfile> -m <maxconn>'',
     ascii ''            -f <master-chunk-file> -i <identity>'']"

definition bt_help :: "byte list list" where
  "bt_help = bt_usage @
    [ascii ''         -h                help (this message)'',
     ascii ''         -p <peerfile>     The list of all peers'',
     ascii ''         -c <chunkfile>    The list of chunks'',
     ascii ''         -m <maxconn>      Max # of downloads'',
     9 # ascii ''    -f <master-chunk> The master chunk file'',
     ascii ''         -i <identity>     Which peer # am I?'']"

text \<open>
  What the parser prints on its way through the options, up to the option at which it exits; \<open>argv0\<close> is the name of
  the program.
\<close>

fun options_text :: "byte list \<Rightarrow> (byte \<times> byte list option) list \<Rightarrow> 32 word \<Rightarrow> byte list list" where
  "options_text argv0 [] debug = []"
| "options_text argv0 ((c, optarg) # opts) debug =
     (if c = 0x68 then bt_help
      else if c = 0x64 then
        set_debug_prints optarg @
        (case set_debug optarg debug of (debug, r) \<Rightarrow>
         if r = -1 then [argv0 @ ascii '':  Invalid debug argument.  Use -d list  to see debugging options.'']
         else options_text argv0 opts debug)
      else if c \<in> {0x70, 0x63, 0x66, 0x6d, 0x69} then options_text argv0 opts debug
      else bt_usage)"

text \<open>The messages after the options: the list of peers was read into the configuration.\<close>

definition identity_text :: "bt_config_s \<Rightarrow> byte list list" where
  "identity_text config =
     (if identity config = 0 then [ascii ''bt_parse error:  Node identity must not be zero!'']
      else if bt_peer_info config (identity config) = None
      then [ascii ''bt_parse error:  No peer information for myself (id '' @ print_int (identity config) @ ascii '')!'']
      else [])"

text \<open>The parser prints a message exactly when it exits at an option.\<close>

lemma set_debug_silent: "snd (set_debug arg debug) \<noteq> -1 \<Longrightarrow> set_debug_prints arg = []"
  by (auto simp: set_debug_def set_debug_prints_def ascii_def split: option.splits if_splits)

theorem options_exit_with_message:
  "case parse_options opts config debug of
     Inr r \<Rightarrow> options_text argv0 opts debug = []
   | Inl e \<Rightarrow> e = Exit_Called \<longrightarrow> options_text argv0 opts debug \<noteq> []"
proof (induction opts arbitrary: config debug)
  case (Cons opt opts)
  obtain c optarg where o: "opt = (c, optarg)" by fastforce
  obtain d' x where d: "set_debug optarg debug = (d', x)" by fastforce
  have name: "copy_name optarg = Inl Null_Deref \<or> copy_name optarg = Inl Out_Of_Bounds \<or> (\<exists>s. copy_name optarg = Inr s)"
    by (cases optarg) (simp_all add: copy_name_def)
  consider "c = 0x68" | "c = 0x64" | "c \<in> {0x70, 0x63, 0x66}" | "c \<in> {0x6d, 0x69}"
    | "c \<notin> {0x68, 0x64, 0x70, 0x63, 0x66, 0x6d, 0x69}" by blast
  then show ?case
  proof cases
    case 2
    then show ?thesis using Cons.IH [of d' config] d set_debug_silent [of optarg debug]
      by (cases "parse_options opts config d'") (auto simp: o)
  next
    case 3
    then have same: "options_text argv0 (opt # opts) debug = options_text argv0 opts debug" by (auto simp: o)
    show ?thesis unfolding same using 3 Cons.IH name by (auto simp: o)
  next
    case 4
    then have same: "options_text argv0 (opt # opts) debug = options_text argv0 opts debug" by (auto simp: o)
    show ?thesis unfolding same using 4 Cons.IH by (cases optarg) (auto simp: o)
  qed (simp_all add: o bt_help_def bt_usage_def)
qed simp

section \<open>The configuration\<close>

text \<open>\<^verbatim>\<open>inet_ntoa\<close>: the four bytes of the address, in the order in which they stand in memory.\<close>

definition inet_ntoa :: "32 word \<Rightarrow> byte list" where
  "inet_ntoa a = (case map (\<lambda>b. print_nat (unat b)) (le32_bytes a) of
     [b0, b1, b2, b3] \<Rightarrow> b0 @ [0x2e] @ b1 @ [0x2e] @ b2 @ [0x2e] @ b3 | _ \<Rightarrow> [])"

definition dump_peer :: "bt_peer_t \<Rightarrow> byte list" where
  "dump_peer p = ascii ''  peer '' @ print_int (peer_id p) @ ascii '': '' @ inet_ntoa (s_addr (peer_addr p)) @ ascii '':'' @
     print_int (uint (ntohs (sin_port (peer_addr p))))"

definition bt_dump_config :: "bt_config_s \<Rightarrow> byte list list" where
  "bt_dump_config config =
    [ascii ''15-441 PROJECT 2 PEER'', [],
     ascii ''chunk-file:     '' @ chunk_file config,
     ascii ''has-chunk-file: '' @ has_chunk_file config,
     ascii ''max-conn:       '' @ print_int (max_conn config),
     ascii ''peer-identity:  '' @ print_int (identity config),
     ascii ''peer-list-file: '' @ peer_list_file config] @
    map dump_peer (peers config)"

text \<open>A reader of the lines of the peers: number, address and port are in them.\<close>

definition read_number :: "byte list \<Rightarrow> int \<times> byte list" where
  "read_number s = (case scan_int s of None \<Rightarrow> (0, []) | Some (v, r) \<Rightarrow> (v, drop 1 r))"

definition read_peer :: "byte list \<Rightarrow> bt_peer_t" where
  "read_peer line =
     (let (pid, s) = read_number (drop 7 (line @ [10])); (a, s) = read_number s; (b, s) = read_number s;
          (c, s) = read_number s; (d, s) = read_number s; (port, s) = read_number s
      in \<lparr>peer_id = pid, peer_addr = \<lparr>sin_family = 2, sin_port = htons (word_of_int port),
           s_addr = le32 (map word_of_int [a, b, c, d])\<rparr>\<rparr>)"

lemma read_number_printed:
  "\<not> is_digit c \<Longrightarrow> read_number (print_int v @ c # r) = (v, r)"
  "\<not> is_digit c \<Longrightarrow> read_number (print_nat n @ c # r) = (int n, r)"
  "\<not> is_digit c \<Longrightarrow> read_number (32 # print_nat n @ c # r) = (int n, r)"
  by (simp_all add: read_number_def scan_int_print_int scan_int_print scan_int_skip is_space_def)

text \<open>The dump of a configuration shows its peers: they can be read back from its lines.\<close>

theorem dump_shows_peers:
  assumes "\<forall>p \<in> set (peers config). sin_family (peer_addr p) = 2"
  shows "map read_peer (drop 7 (bt_dump_config config)) = peers config"
proof -
  have "read_peer (dump_peer p) = p" if p: "sin_family (peer_addr p) = 2" for p
  proof -
    let ?b = "\<lambda>n. print_nat (unat (ucast (drop_bit n (s_addr (peer_addr p))) :: byte))"
    have sep: "\<not> is_digit 0x3a" "\<not> is_digit 0x2e" "\<not> is_digit 10" by (simp_all add: is_digit_def)
    have colon: "ascii '': '' = [0x3a, 32]" "ascii '':'' = [0x3a]" "length (ascii ''  peer '') = 7" by (simp_all add: ascii_def)
    have line: "drop 7 (dump_peer p @ [10]) = print_int (peer_id p) @ 0x3a # 32 # ?b 0 @ 0x2e # ?b 8 @ 0x2e # ?b 16 @ 0x2e # ?b 24 @ 0x3a #
        print_int (uint (ntohs (sin_port (peer_addr p)))) @ 10 # []"
      unfolding dump_peer_def colon using colon(3) by (simp add: inet_ntoa_def le32_bytes_def)
    have a: "map word_of_int [int (unat (ucast (drop_bit 0 (s_addr (peer_addr p))) :: byte)), int (unat (ucast (drop_bit 8 (s_addr (peer_addr p))) :: byte)),
        int (unat (ucast (drop_bit 16 (s_addr (peer_addr p))) :: byte)), int (unat (ucast (drop_bit 24 (s_addr (peer_addr p))) :: byte))] =
        le32_bytes (s_addr (peer_addr p))"
      by (simp add: le32_bytes_def)
    show ?thesis
      unfolding read_peer_def line Let_def using sep p a
      by (simp add: read_number_printed del: list.map)
  qed
  then have "map read_peer (map dump_peer ps) = ps" if "\<forall>p \<in> set ps. sin_family (peer_addr p) = 2" for ps
    using that by (induction ps) simp_all
  then show ?thesis using assms by (simp add: bt_dump_config_def)
qed


section \<open>What main prints at the start\<close>

text \<open>\<open>compiled\<close>: the symbol \<^verbatim>\<open>DEBUG\<close> is defined. The parser's own messages are in \<open>options_text\<close> and \<open>identity_text\<close>.\<close>

definition main_dump :: "bool \<Rightarrow> 32 word \<Rightarrow> bt_config_s \<Rightarrow> byte list list" where
  "main_dump compiled debug config = (if compiled \<and> debug AND DEBUG_INIT \<noteq> 0 then bt_dump_config config else [])"

text \<open>An option adds flags and takes none away, and every peer has an internet address.\<close>

lemma set_debug_keeps: "bit debug n \<Longrightarrow> bit (fst (set_debug arg debug)) n"
  by (auto simp: set_debug_def bit_simps split: option.splits)

lemma options_stepE:
  assumes "parse_options ((c, optarg) # opts) config debug = Inr r"
  obtains config1 where "peers config1 = peers config"
    "parse_options opts config1 (if c = 0x64 then fst (set_debug optarg debug) else debug) = Inr r"
proof -
  obtain d x where d: "set_debug optarg debug = (d, x)" by fastforce
  have "\<exists>config1. peers config1 = peers config \<and>
      parse_options opts config1 (if c = 0x64 then fst (set_debug optarg debug) else debug) = Inr r"
  proof (cases "c = 0x64")
    case True
    then show ?thesis using assms d by (auto split: if_splits)
  next
    case False
    then show ?thesis using assms
      by (simp add: res_simps split: if_splits option.splits)
        ((elim exE conjE)?, rule exI, rule conjI [rotated], assumption, simp)+
  qed
  then show ?thesis using that by blast
qed

lemma options_keep:
  "parse_options opts config debug = Inr (config', debug') \<Longrightarrow> peers config' = peers config \<and> (bit debug n \<longrightarrow> bit debug' n)"
proof (induction opts arbitrary: config debug)
  case (Cons opt opts)
  obtain c optarg where o: "opt = (c, optarg)" by fastforce
  from Cons.prems [unfolded o] obtain config1 where c1: "peers config1 = peers config"
      "parse_options opts config1 (if c = 0x64 then fst (set_debug optarg debug) else debug) = Inr (config', debug')"
    by (rule options_stepE)
  from Cons.IH [OF c1(2)] c1(1) set_debug_keeps [of debug n optarg] show ?case by (simp split: if_splits)
qed simp

lemma option_sets_flag:
  assumes "parse_options opts config debug = Inr (config', debug')" and "(0x64, Some s) \<in> set opts"
    and "\<And>debug. bit (fst (set_debug (Some s) debug)) n"
  shows "bit debug' n"
  using assms(1,2)
proof (induction opts arbitrary: config debug)
  case (Cons opt opts)
  obtain c optarg where o: "opt = (c, optarg)" by fastforce
  from Cons.prems(1) [unfolded o] obtain config1 where
      c1: "parse_options opts config1 (if c = 0x64 then fst (set_debug optarg debug) else debug) = Inr (config', debug')"
    by (rule options_stepE)
  show ?case
  proof (cases "(0x64, Some s) \<in> set opts")
    case False
    with Cons.prems(2) o have "c = 0x64" "optarg = Some s" by auto
    then show ?thesis using options_keep [OF c1, of n] assms(3) by simp
  qed (rule Cons.IH [OF c1])
qed simp

lemma peer_lines_inet:
  "peer_lines g s vars nodes = Inr nodes' \<Longrightarrow> \<forall>p \<in> set nodes. sin_family (peer_addr p) = 2 \<Longrightarrow>
     \<forall>p \<in> set nodes'. sin_family (peer_addr p) = 2"
proof (induction g s vars nodes rule: peer_lines.induct)
  case (1 g s vars nodes)
  show ?case
    using 1(3,4) 1(1,2) unfolding peer_lines.simps [of g s vars nodes]
    by (auto simp: new_peer_def split: option.splits if_splits prod.splits)
qed

theorem debug_option_dumps:
  assumes "bt_parse_command_line g fs stk opts bt_init 0 = Inr (config, debug)"
    and "(0x64, Some (print_nat (unat DEBUG_INIT))) \<in> set opts"
  shows "main_dump True debug config = bt_dump_config config \<and> map read_peer (drop 7 (main_dump True debug config)) = peers config"
proof -
  have flag: "bit (fst (set_debug (Some (print_nat (unat DEBUG_INIT))) d)) 1" for d
    unfolding set_debug_number by (simp add: DEBUG_INIT_def bit_simps)
  obtain c0 where c0: "parse_options opts bt_init 0 = Inr (c0, debug)"
    using assms(1) by (auto simp: bt_parse_command_line_def res_simps split: if_splits option.splits)
  from option_sets_flag [OF this assms(2) flag] have "bit (debug AND DEBUG_INIT) 1" by (simp add: bit_simps DEBUG_INIT_def)
  then have "debug AND DEBUG_INIT \<noteq> 0" by auto
  then have m: "main_dump True debug config = bt_dump_config config" by (simp add: main_dump_def)
  have "\<forall>p \<in> set (peers config). sin_family (peer_addr p) = 2"
    using assms(1) c0 options_keep [OF c0]
    by (auto simp: bt_parse_command_line_def bt_parse_peer_list_def bt_init_def res_simps dest!: peer_lines_inet
      split: if_splits option.splits)
  from dump_shows_peers [OF this] m show ?thesis by simp
qed

end
