(* ===== verification/TestPrograms.thy ===== *)
theory TestPrograms
  imports Hex Spiffy Console
begin

text \<open>
  The test programs beside the peer: the \<^verbatim>\<open>main\<close> functions at the end of \<^verbatim>\<open>sha.c\<close>, \<^verbatim>\<open>chunk.c\<close> and \<^verbatim>\<open>debug.c\<close>,
  \<^verbatim>\<open>test_input_buffer.c\<close>, and the two programs that try the router,
  \<^verbatim>\<open>server.c\<close> and \<^verbatim>\<open>client.c\<close>; the generators in \<^verbatim>\<open>src/test\<close>; and \<^verbatim>\<open>get_buffer_by_socket\<close>, which nothing calls.

  What a program prints is a list of lines without their newlines, or of bytes where the code prints pieces of a
  line. Uninitialised variables are arguments. The loops of \<^verbatim>\<open>test_input_buffer.c\<close> and \<^verbatim>\<open>server.c\<close> do not end; they are
  modelled over the list of what arrives.
\<close>

section \<open>The test of sha.c\<close>

text \<open>\<open>print_digest\<close>: two digits for every byte and a space after every fourth.\<close>

fun print_digest_from :: "nat \<Rightarrow> byte list \<Rightarrow> byte list" where
  "print_digest_from i [] = []"
| "print_digest_from i (b # bs) =
     hex_chars b @ (if Suc i mod 4 = 0 then [32] else []) @ print_digest_from (Suc i) bs"

definition print_digest :: "byte list \<Rightarrow> byte list" where
  "print_digest hash = print_digest_from 0 hash @ [10]"

text \<open>
  The variable \<open>foo\<close> is used three times; what \<^verbatim>\<open>SHA1Final\<close> leaves in it is an argument, as \<^verbatim>\<open>SHA1Init\<close> does
  not read it.
\<close>

definition sha1_test_main :: "sha1_ctx \<Rightarrow> sha1_ctx \<Rightarrow> sha1_ctx \<Rightarrow> byte list res option" where
  "sha1_test_main foo foo2 foo3 =
     update_then (update_then (sha1_update (sha1_init foo) (ascii ''abc'')) sha1_final) (\<lambda>hash1.
     update_then (update_then (sha1_update (sha1_init foo2)
         (ascii ''abcdbcdecdefdefgefghfghighijhijkijkljklmklmnlmnomnopnopq'')) sha1_final) (\<lambda>hash2.
     update_then (update_then (feed sha1_update (sha1_init foo3) (replicate 1000 (replicate 1000 0x61))) sha1_final) (\<lambda>hash3.
     Some (Inr (print_digest hash1 @ print_digest hash2 @ print_digest hash3)))))"

lemma update_then_Inr [simp]: "update_then (Some (Inr x)) f = f x"
  by (simp add: update_then_def)

theorem sha1_test_prints_digests:
  assumes "length (sc_buffer foo) = 64" and "length (sc_buffer foo2) = 64" and "length (sc_buffer foo3) = 64"
  shows "sha1_test_main foo foo2 foo3 = Some (Inr (
    print_digest (sha1_spec (ascii ''abc'')) @
    print_digest (sha1_spec (ascii ''abcdbcdecdefdefgefghfghighijhijkijkljklmklmnlmnomnopnopq'')) @
    print_digest (sha1_spec (replicate 1000000 0x61))))"
proof -
  have "concat (replicate n (replicate m (0x61 :: byte))) = replicate (n * m) 0x61" for n m
    by (induction n) (simp_all add: replicate_add)
  from this [of 1000 1000] have million: "concat (replicate 1000 (replicate 1000 (0x61 :: byte))) = replicate 1000000 0x61" by simp
  show ?thesis
    unfolding sha1_test_main_def sha1.one_shot_digest [OF assms(1)] sha1.one_shot_digest [OF assms(2)]
      sha1.pieces_digest [OF assms(3)] million by simp
qed

section \<open>The test of chunk.c\<close>

definition dash :: "byte list" where "dash = ascii ''dash''"

definition chunk_test_main :: "sha1_ctx \<Rightarrow> byte list \<Rightarrow> byte list \<Rightarrow> byte list list res option" where
  "chunk_test_main uninit ascii_buf hash1 =
     update_then (shahash uninit dash) (\<lambda>hash. Some (
     rbind (binary2hex hash ascii_buf) (\<lambda>ascii_buf.
     rbind (c_string ascii_buf) (\<lambda>line1.
     if length line1 \<noteq> 40 then Inl Exit_Called
     else
       rbind (hex2binary ascii_buf (length line1) hash1 0) (\<lambda>hash1.
       rbind (binary2hex hash1 ascii_buf) (\<lambda>ascii_buf.
       rbind (c_string ascii_buf) (\<lambda>line2. Inr [line1, line2])))))))"

theorem chunk_test_prints_twice:
  assumes "length (sc_buffer uninit) = 64" and "length ascii_buf = 41" and "length hash1 = 20"
  shows "chunk_test_main uninit ascii_buf hash1 = Some (Inr [encode (sha1_spec dash), encode (sha1_spec dash)])"
proof -
  let ?h = "sha1_spec dash"
  have s: "shahash uninit dash = Some (Inr ?h)" unfolding shahash_def by (rule sha1.one_shot_digest [OF assms(1)])
  obtain r1 where r1: "binary2hex ?h ascii_buf = Inr (encode ?h @ 0 # r1)"
    using binary2hex_encode [of ?h ascii_buf] assms(2) by auto
  note c = c_string_hash [of ?h]
  have d: "hex2binary (encode ?h @ 0 # r1) 40 hash1 0 = Inr ?h"
    using hex2binary_decode [of 40 20 "encode ?h @ 0 # r1" 0 hash1] assms(3) by (simp add: blit_0)
  obtain r2 where r2: "binary2hex ?h (encode ?h @ 0 # r1) = Inr (encode ?h @ 0 # r2)"
    using binary2hex_encode [of ?h "encode ?h @ 0 # r1"] by auto
  show ?thesis by (simp add: chunk_test_main_def s r1 c d r2)
qed

section \<open>The test of debug.c\<close>

text \<open>The test passes when it prints nothing but the list that it asks for.\<close>

definition debug_test_main :: "32 word \<Rightarrow> byte list list" where
  "debug_test_main debug =
     (let arg = Some (ascii ''?'')
      in set_debug_prints arg @
         (if snd (set_debug arg debug) \<noteq> -1 then [ascii ''set_debug(\"?\") returned wrong result code''] else []))"

theorem debug_test_passes: "debug_test_main debug = set_debug_prints (Some (ascii ''?'')) \<and> length (debug_test_main debug) = 8"
  by (simp add: debug_test_main_def set_debug_prints_def debugs_def set_debug_def ascii_def)

section \<open>test_input_buffer.c\<close>

definition printline :: "byte list \<Rightarrow> byte list \<Rightarrow> byte list list \<Rightarrow> byte list list res" where
  "printline cbdata line out = Inr (out @ [ascii ''LINE:  '' @ line, ascii ''CBDATA:  '' @ cbdata])"

definition test_input_main :: "bool \<Rightarrow> bool \<Rightarrow> byte list list \<Rightarrow> (byte list list \<times> user_iobuf) res" where
  "test_input_main malloc1 malloc2 reads =
     (case create_userbuf malloc1 malloc2 of
        None \<Rightarrow> Inl Exit_Called
      | Some u \<Rightarrow> read_pieces (printline (ascii ''Cows moo!'')) reads u [])"

theorem test_input_prints_lines:
  assumes "concat reads = terminated ls @ w"
    and "\<forall>l \<in> set (w # ls). line_text l \<and> length l < 2048" and "\<forall>p \<in> set reads. length p \<le> 2048"
  shows "\<exists>b. test_input_main True True reads =
    Inr (concat (map (\<lambda>l. [ascii ''LINE:  '' @ l, ascii ''CBDATA:  '' @ ascii ''Cows moo!'']) ls), b)"
proof -
  obtain u where u: "create_userbuf True True = Some u" by (simp add: create_userbuf_def)
  then have "holds u []" by (auto simp: create_userbuf_def holds_def layout_simps)
  from read_pieces_result [OF this, of reads ls w "printline (ascii ''Cows moo!'')"] assms
  obtain b where "\<forall>s. read_pieces (printline (ascii ''Cows moo!'')) reads u s =
      rbind (handle_lines (printline (ascii ''Cows moo!'')) ls s) (\<lambda>s'. Inr (s', b))"
    by (auto simp: line_text_def)
  moreover have "handle_lines (printline cb) ls out =
      Inr (out @ concat (map (\<lambda>l. [ascii ''LINE:  '' @ l, ascii ''CBDATA:  '' @ cb]) ls))" for cb out
    by (induction ls arbitrary: out) (simp_all add: printline_def)
  ultimately show ?thesis using u by (simp add: test_input_main_def)
qed

section \<open>server.c\<close>

text \<open>
  One round of the loop, when \<^verbatim>\<open>select\<close> reports a datagram: \<open>buf\<close> has 1500 bytes, of which 100 are offered to
  \<^verbatim>\<open>spiffy_recvfrom\<close>; \<open>fresh\<close> is the memory that it allocates.
\<close>

definition server_round ::
  "spiffy_st \<Rightarrow> byte list option \<Rightarrow> (sockaddr_in \<times> byte list) option \<Rightarrow> sockaddr_in \<times> byte list
     \<Rightarrow> (sockaddr_in \<times> byte list) \<times> byte list" where
  "server_round st fresh arrived s =
     (case s of (from_addr, buf) \<Rightarrow>
      case spiffy_recvfrom st fresh arrived (take 100 buf) from_addr of
        (got, from_addr, r) \<Rightarrow>
          let buf = got @ drop 100 buf;
              magic = ntohs (le16 (take 2 buf))
          in ((from_addr, buf), ascii ''MAGIC: '' @ print_int (uint magic)))"

fun server_rounds ::
  "spiffy_st \<Rightarrow> (byte list option \<times> (sockaddr_in \<times> byte list) option) list \<Rightarrow> sockaddr_in \<times> byte list \<Rightarrow> byte list list" where
  "server_rounds st [] s = []"
| "server_rounds st ((fresh, arrived) # rest) s =
     (case server_round st fresh arrived s of (s, line) \<Rightarrow> line # server_rounds st rest s)"

definition server_main ::
  "(byte list \<Rightarrow> 32 word option) \<Rightarrow> byte list option \<Rightarrow> byte list list \<Rightarrow> sockaddr_in \<Rightarrow> byte list
     \<Rightarrow> (byte list option \<times> (sockaddr_in \<times> byte list) option) list \<Rightarrow> byte list list res" where
  "server_main inet_aton router argv from_addr buf events =
     (if length argv < 3 then Inr [ascii ''usage: '' @ hd argv @ ascii '' <node id> <port>'']
      else
        let a = (case inet_aton (ascii ''127.0.0.1'') of Some a \<Rightarrow> a | None \<Rightarrow> 0);
            myaddr = \<lparr>sin_family = AF_INET, sin_port = htons (word_of_int (atoi (argv ! 2))), s_addr = a\<rparr>
        in rbind (spiffy_init inet_aton router (atoi (argv ! 1)) myaddr initial_spiffy) (\<lambda>(st, r).
           Inr (server_rounds st events (from_addr, buf))))"

text \<open>The server reads the magic number from the first two bytes of what was sent to it through the router.\<close>

theorem server_prints_magic:
  assumes "giSpiffyEnabled st \<noteq> 0" and "sin_family to = AF_INET" and "giSpiffyEnabled st' \<noteq> 0"
    and "length fresh = 116" and "length buf = 1500" and "2 \<le> length msg"
    and "spiffy_sendto st True sendto msg to = (Some (router, d), r)"
  shows "\<exists>s. server_round st' (Some fresh) (Some (source, d)) (from_addr, buf) =
    (s, ascii ''MAGIC: '' @ print_int (uint (ntohs (le16 (take 2 msg)))))"
proof -
  have f: "length fresh = 16 + length (take 100 buf)" using assms(4,5) by simp
  have "spiffy_recvfrom st' (Some fresh) (Some (source, d)) (take 100 buf) from_addr =
      (recvfrom_into (drop 16 fresh) msg, \<lparr>sin_family = AF_INET, sin_port = gsSrcPort st, s_addr = word_of_int (glSrcAddr st)\<rparr>,
       int (min (length msg) (length (take 100 buf))))"
    using routed [OF assms(1-3) f, of sendto msg source from_addr] assms(7) by auto
  moreover have "take 2 (recvfrom_into (drop 16 fresh) msg @ drop 100 buf) = take 2 msg"
    using assms(4,6) by (simp add: recvfrom_into_def min_def)
  ultimately show ?thesis by (simp add: server_round_def Let_def)
qed

section \<open>client.c\<close>

text \<open>
  The program does not compile as it stands, as nothing it includes defines \<^verbatim>\<open>BUFLEN\<close>; \<open>buflen\<close> is the value that a
  compiler option gives it. \<open>bound\<close>: \<^verbatim>\<open>bind\<close> succeeds; \<open>packet\<close> and \<open>toaddr\<close> are the uninitialised variables. A null
  pointer follows the arguments. The result is the datagram handed to the socket, if any, and the line printed.
\<close>

definition client_main ::
  "(byte list \<Rightarrow> 32 word option) \<Rightarrow> byte list option \<Rightarrow> bool \<Rightarrow> bool \<Rightarrow> (sockaddr_in \<Rightarrow> byte list \<Rightarrow> int) \<Rightarrow> nat
     \<Rightarrow> data_packet_t \<Rightarrow> sockaddr_in \<Rightarrow> byte list list \<Rightarrow> ((sockaddr_in \<times> byte list) option \<times> byte list) res" where
  "client_main inet_aton router bound malloc_ok sendto buflen packet toaddr argv =
     (if length argv < 4
      then Inr (None, ascii ''usage: '' @ hd argv @ ascii '' <node id> <my port> <to port> <magic number>'')
      else
        let local = inet_aton (ascii ''127.0.0.1'');
            myaddr = \<lparr>sin_family = AF_INET, sin_port = htons (word_of_int (atoi (argv ! 2))),
              s_addr = (case local of Some a \<Rightarrow> a | None \<Rightarrow> 0)\<rparr>
        in if \<not> bound then Inl Exit_Called
        else
          rbind (spiffy_init inet_aton router (atoi (argv ! 1)) myaddr initial_spiffy) (\<lambda>(st, r).
          let toaddr = \<lparr>sin_family = AF_INET, sin_port = htons (word_of_int (atoi (argv ! 3))),
                s_addr = (case local of Some a \<Rightarrow> a | None \<Rightarrow> s_addr toaddr)\<rparr>
          in if length argv = 4 then Inl Null_Deref
          else
            let packet = packet\<lparr>header := (header packet)\<lparr>magicnum := htons (word_of_int (atoi (argv ! 4)))\<rparr>\<rparr>
            in if length (data packet) < buflen then Inl Out_Of_Bounds
            else
              let packet = packet\<lparr>data := replicate buflen 0 @ drop buflen (data packet)\<rparr>
              in Inr (fst (spiffy_sendto st malloc_ok sendto (packet_bytes packet) toaddr),
                      ascii ''Sent MAGIC: '' @ print_int (atoi (argv ! 4)))))"

text \<open>
  The client checks for four words but reads five: the call that its check lets through without a magic number ends in
  a null pointer, whenever the socket can be bound.
\<close>

theorem client_without_magic_faults:
  assumes "length argv = 4"
  shows "client_main inet_aton router True malloc_ok sendto buflen packet toaddr argv = Inl Null_Deref"
proof -
  obtain st r where "spiffy_init inet_aton router (atoi (argv ! 1)) \<lparr>sin_family = AF_INET,
      sin_port = htons (word_of_int (atoi (argv ! 2))),
      s_addr = (case inet_aton (ascii ''127.0.0.1'') of Some a \<Rightarrow> a | None \<Rightarrow> 0)\<rparr> initial_spiffy = Inr (st, r)"
    using spiffy_init_returns by fastforce
  then show ?thesis using assms by (simp add: client_main_def Let_def)
qed

text \<open>
  Client and server: what the client sends through the router makes the server print the magic number that the client
  printed, as far as it fits 16 bits.
\<close>

theorem client_server_magic:
  assumes "router = Some (ip @ 0x3a # port)" and "0x3a \<notin> set ip" and "0 \<notin> set ip" and "inet_aton ip = Some a"
    and "5 \<le> length argv" and "buflen \<le> length (data packet)"
    and "length fresh = 116" and "length buf = 1500" and "giSpiffyEnabled st' \<noteq> 0"
  shows "\<exists>to d s. client_main inet_aton router True True sendto buflen packet toaddr argv =
      Inr (Some (to, d), ascii ''Sent MAGIC: '' @ print_int (atoi (argv ! 4))) \<and>
    server_round st' (Some fresh) (Some (source, d)) (from_addr, buf) =
      (s, ascii ''MAGIC: '' @ print_int (atoi (argv ! 4) mod 65536))"
proof -
  have init: "\<exists>st. spiffy_init inet_aton router n me initial_spiffy = Inr (st, 0) \<and> giSpiffyEnabled st = 1" for n me
    using assms(1,4) strchr_Some [OF assms(2,3), of "port @ [0]"] by (simp add: spiffy_init_def Let_def)
  let ?local = "inet_aton (ascii ''127.0.0.1'')"
  obtain st where st: "spiffy_init inet_aton router (atoi (argv ! 1)) \<lparr>sin_family = AF_INET,
      sin_port = htons (word_of_int (atoi (argv ! 2))), s_addr = (case ?local of Some a \<Rightarrow> a | None \<Rightarrow> 0)\<rparr> initial_spiffy = Inr (st, 0)"
    "giSpiffyEnabled st \<noteq> 0"
    using init by fastforce
  let ?to = "\<lparr>sin_family = AF_INET, sin_port = htons (word_of_int (atoi (argv ! 3))),
      s_addr = (case ?local of Some a \<Rightarrow> a | None \<Rightarrow> s_addr toaddr)\<rparr>"
  define p where "p = packet\<lparr>header := (header packet)\<lparr>magicnum := htons (word_of_int (atoi (argv ! 4)))\<rparr>,
      data := replicate buflen 0 @ drop buflen (data packet)\<rparr>"
  obtain to d r where sent: "spiffy_sendto st True sendto (packet_bytes p) ?to = (Some (to, d), r)"
    using st(2) by (simp add: spiffy_sendto_def Let_def)
  have "client_main inet_aton router True True sendto buflen packet toaddr argv =
      Inr (Some (to, d), ascii ''Sent MAGIC: '' @ print_int (atoi (argv ! 4)))"
    using assms(5,6) st(1) sent by (simp add: client_main_def Let_def p_def)
  moreover have "take 2 (packet_bytes p) = le16_bytes (htons (word_of_int (atoi (argv ! 4))))"
    by (simp add: packet_bytes_def Let_def p_def)
  ultimately show ?thesis
    using server_prints_magic [OF st(2) _ assms(9,7,8) _ sent, of source from_addr] by (auto simp: uint_word_of_int)
qed

section \<open>get_buffer_by_socket\<close>

text \<open>
  A pointer into the list \<^verbatim>\<open>recv_list\<close>: to the buffer of the \<open>i\<close>-th node, or to the field of the node that holds the
  pointer to that buffer.
\<close>

datatype recv_pointer = To_Buffer nat | To_Field nat

fun get_buffer_loop :: "int \<Rightarrow> nat \<Rightarrow> recv_buffer_t list \<Rightarrow> recv_pointer option" where
  "get_buffer_loop socket i [] = None"
| "get_buffer_loop socket i (b # bs) = (if socket = rb_socket b then Some (To_Field i) else get_buffer_loop socket (Suc i) bs)"

definition get_buffer_by_socket :: "int \<Rightarrow> recv_buffer_t list \<Rightarrow> recv_pointer option" where
  "get_buffer_by_socket socket l = get_buffer_loop socket 0 l"

text \<open>
  It finds the right node, the one that \<open>get_recv_by_socket\<close> finds, but what it returns as a \<^verbatim>\<open>recv_buffer_t *\<close> is
  the address of the field.
\<close>

theorem get_buffer_returns_field:
  "get_buffer_by_socket socket l \<noteq> Some (To_Buffer i)"
  "get_recv_by_socket socket l = Some b \<Longrightarrow> \<exists>i < length l. l ! i = b \<and> get_buffer_by_socket socket l = Some (To_Field i)"
proof -
  have "get_buffer_loop socket n l \<noteq> Some (To_Buffer i)" for n by (induction l arbitrary: n) auto
  then show "get_buffer_by_socket socket l \<noteq> Some (To_Buffer i)" by (simp add: get_buffer_by_socket_def)
  have "get_recv_by_socket socket l = Some b \<Longrightarrow> \<exists>i < length l. l ! i = b \<and> get_buffer_loop socket n l = Some (To_Field (n + i))" for n
  proof (induction l arbitrary: n)
    case (Cons x xs)
    then show ?case
    proof (cases "rb_socket x = socket")
      case False
      with Cons.prems have "get_recv_by_socket socket xs = Some b" by (simp add: get_recv_by_socket_def)
      from Cons.IH [OF this, of "Suc n"] False show ?thesis by (auto intro: exI [of _ "Suc _"])
    qed (auto simp: get_recv_by_socket_def intro: exI [of _ 0])
  qed (simp add: get_recv_by_socket_def)
  from this [of 0] show "get_recv_by_socket socket l = Some b \<Longrightarrow>
      \<exists>i < length l. l ! i = b \<and> get_buffer_by_socket socket l = Some (To_Field i)"
    by (simp add: get_buffer_by_socket_def)
qed


section \<open>The generators of test files\<close>

text \<open>
  \<^verbatim>\<open>writefile.c\<close>: the two loops, which differ in the order of the four letters; every row has 512 equal bytes. The files
  are given by their content; \<open>fopen_ok\<close>: the file could be opened.
\<close>

definition letter_rows :: "byte \<Rightarrow> byte \<Rightarrow> byte \<Rightarrow> byte \<Rightarrow> byte list" where
  "letter_rows p q r s =
     concat (map (\<lambda>i. replicate 512 (if i mod 4 = 0 then p else if i mod 4 = 1 then q else if i mod 4 = 2 then r else s))
       [0..<1024])"

definition writefile_main :: "bool \<Rightarrow> byte list res" where
  "writefile_main fopen_ok =
     (if \<not> fopen_ok then Inl Null_Deref
      else let a = of_char (CHR ''z''); b = of_char (CHR ''x''); c = of_char (CHR ''y''); d = of_char (CHR ''m'')
      in Inr (letter_rows a b c d @ letter_rows d c b a))"

text \<open>
  \<^verbatim>\<open>b_readwrite.c\<close>: the second megabyte of a file is copied, behind the end of the file what the array held
  before (\<open>uninit\<close>).
\<close>

definition b_readwrite_main :: "byte list option \<Rightarrow> bool \<Rightarrow> byte list \<Rightarrow> byte list res" where
  "b_readwrite_main fp fopen_ok uninit =
     (case fp of
        None \<Rightarrow> Inl Null_Deref
      | Some content \<Rightarrow> if fopen_ok then Inr (read_content content (512 * 1024 * 2) uninit) else Inl Null_Deref)"

lemma length_letter_rows: "length (letter_rows p q r s) = 524288"
proof -
  have "length (concat (map (\<lambda>i. replicate 512 (f i)) l)) = 512 * length l" for f :: "nat \<Rightarrow> byte" and l
    by (induction l) simp_all
  then show ?thesis unfolding letter_rows_def by simp
qed

lemma hd_letter_rows: "hd (letter_rows p q r s) = p"
proof -
  have "map f [0..<1024] = f 0 # map f [Suc 0..<1024]" for f :: "nat \<Rightarrow> byte list"
    by (simp only: upt_conv_Cons [OF zero_less_numeral] list.map)
  then have "\<exists>rest. letter_rows p q r s = replicate 512 p @ rest" unfolding letter_rows_def by (simp del: upt_Suc)
  then show ?thesis by (auto simp: hd_append)
qed

text \<open>The generated file has exactly two chunks, and they differ.\<close>

lemma file_chunks_whole:
  assumes "length a = BT_CHUNK_SIZE" shows "file_chunks (a @ b) = a # file_chunks b"
  using assms chunk_size_pos by (subst file_chunks.simps) auto

theorem writefile_two_chunks:
  "\<exists>x y file. writefile_main True = Inr file \<and> file_chunks file = [x, y] \<and> length x = 524288 \<and> length y = 524288 \<and> x \<noteq> y"
proof -
  let ?x = "letter_rows (of_char (CHR ''z'')) (of_char (CHR ''x'')) (of_char (CHR ''y'')) (of_char (CHR ''m''))"
  let ?y = "letter_rows (of_char (CHR ''m'')) (of_char (CHR ''y'')) (of_char (CHR ''x'')) (of_char (CHR ''z''))"
  have "hd ?x \<noteq> hd ?y" unfolding hd_letter_rows by simp
  then have "?x \<noteq> ?y" by metis
  moreover have "file_chunks (?x @ ?y) = [?x, ?y]"
    using file_chunks_whole [of ?x ?y] file_chunks_whole [of ?y "[]"]
    by (simp add: length_letter_rows BT_CHUNK_SIZE_def file_chunks.simps [of "[]"])
  ultimately show ?thesis by (auto simp: writefile_main_def Let_def length_letter_rows)
qed

text \<open>The copy of a file that is long enough consists of its third and fourth chunk.\<close>

theorem b_readwrite_copies_chunks:
  assumes "length content \<ge> 2097152" and "length uninit = 1048576"
  shows "\<exists>copy. b_readwrite_main (Some content) True uninit = Inr copy \<and> file_chunks copy = take 2 (drop 2 (file_chunks content))"
proof -
  have step: "file_chunks s = take 524288 s # file_chunks (drop 524288 s)" if "524288 \<le> length s" for s
    using file_chunks_whole [of "take 524288 s" "drop 524288 s"] that by (simp add: BT_CHUNK_SIZE_def)
  let ?copy = "take 1048576 (drop 1048576 content)"
  have "take 2 (drop 2 (file_chunks content)) =
      [take 524288 (drop 1048576 content), take 524288 (drop 1572864 content)]"
    using assms(1) by (simp add: step numeral_eq_Suc [of "num.Bit0 num.One"])
  moreover have "?copy = take 524288 (drop 1048576 content) @ take 524288 (drop 1572864 content)"
    using take_add [of 524288 524288 "drop 1048576 content"] by simp
  then have "file_chunks ?copy = [take 524288 (drop 1048576 content), take 524288 (drop 1572864 content)]"
    using assms(1) file_chunks_whole [of "take 524288 (drop 1048576 content)" "take 524288 (drop 1572864 content)"]
      file_chunks_whole [of "take 524288 (drop 1572864 content)" "[]"]
    by (simp add: BT_CHUNK_SIZE_def file_chunks.simps [of "[]"])
  moreover have "read_content content (512 * 1024 * 2) uninit = ?copy"
    using assms by (simp add: read_content_def blit_0)
  ultimately show ?thesis by (simp add: b_readwrite_main_def)
qed

end
