(* ===== verification/Spec2Isabelle.thy ===== *)
theory Spec2Isabelle
  imports PeerLoop Assembly SwarmRun Spiffy BtParse Log Sha1Builds TestPrograms
begin

text \<open>
  A verification of the peer-to-peer file transfer program \<^verbatim>\<open>peer\<close> (the C sources in \<^verbatim>\<open>src/\<close>).

  \<^bold>\<open>The program.\<close> A peer knows the other peers (\<^verbatim>\<open>nodes.map\<close>), the chunks it has and the master chunk file.
  The command \<^verbatim>\<open>GET chunkfile outfile\<close> floods WHOHAS packets; peers answer with IHAVE; the first answer for a
  chunk is followed by GET; the chunk, 512 kB in 512 DATA packets, is sent under a sliding window with
  acknowledgements, slow start, congestion avoidance and retransmission; when every chunk is complete
  the output file is written. The parts, by source file:

  \<^item> \<^verbatim>\<open>peer.c\<close>: start, event loop, inbound datagrams, commands, stalled chunks and timers.
  \<^item> \<^verbatim>\<open>packet.c\<close>: packet format, handlers of the five packet types, chunk files, file manager.
  \<^item> \<^verbatim>\<open>flow_control.c\<close>: sender, receiver and timers of the chunk transfer.
  \<^item> \<^verbatim>\<open>sha.c\<close>, \<^verbatim>\<open>chunk.c\<close>, \<^verbatim>\<open>make_chunks.c\<close>: SHA-1, hexadecimal strings and the tool that writes chunk files.
  \<^item> \<^verbatim>\<open>bt_parse.c\<close>, \<^verbatim>\<open>debug.c\<close>, \<^verbatim>\<open>input_buffer.c\<close>, \<^verbatim>\<open>spiffy.c\<close>: command line and list of peers, line buffer
    of the console, client of the simulated network.

  \<^bold>\<open>The theories.\<close>

  \<^item> \<open>Prelude\<close>: results with faults, array accesses, copies, the interfaces \<open>session_table\<close> of searched lists and
    \<open>simulation\<close> of two step relations.
  \<^item> \<open>Float32\<close>: the binary32 arithmetic of \<^verbatim>\<open>congestion_control\<close>.
  \<^item> \<open>Packet\<close>: \<^verbatim>\<open>header_t\<close>, \<^verbatim>\<open>data_packet_t\<close>, \<^verbatim>\<open>init_packet\<close>, the path of a packet through the socket.
  \<^item> \<open>Tracker\<close>: the timers \<^verbatim>\<open>p_tracker\<close>. \<open>Sender\<close>, \<open>Receiver\<close>: the lists of \<^verbatim>\<open>data_t\<close> and of
    \<^verbatim>\<open>recv_buffer_t\<close> with their operations. \<open>FileManager\<close>: the global \<^verbatim>\<open>file_manager\<close>.
  \<^item> \<open>ChunkTransfer\<close>: one chunk from sender to receiver over a network that loses, repeats and reorders.
    Its interface is the locale that both halves are interpreted in.
  \<^item> \<open>Sha1\<close>, \<open>Hex\<close>, \<open>ChunkFiles\<close>: digest, conversions, files of hashes. \<open>Sha1Builds\<close>: the configurations of
    \<^verbatim>\<open>sha.c\<close> that the \<^verbatim>\<open>Makefile\<close> does not select, as further instances of the interface \<open>stream_hash\<close>.
  \<^item> \<open>Handlers\<close>, \<open>Requests\<close>: \<^verbatim>\<open>handle_packet\<close>, \<^verbatim>\<open>generate_WHOHAS\<close>, \<^verbatim>\<open>re_generateWhohas\<close> over the state
    \<open>peer_st\<close> of a peer, which gathers the globals of the program.
  \<^item> \<open>Peer\<close>: the functions of \<^verbatim>\<open>peer.c\<close>. \<open>PeerSafety\<close>: the invariant \<open>peer_ok\<close> and what the code takes for granted
    of a datagram (\<open>arrives\<close>) and of its files (\<open>world_ok\<close>).
  \<^item> \<open>Handshake\<close>: request, offer and GET between two peers, up to the start of a transfer.
  \<^item> \<open>InputBuffer\<close>: the line buffer over any handler, with the interface \<open>line_handler\<close>, which \<open>PeerLoop\<close>
    interprets with the commands of the peer. \<open>PeerLoop\<close>: the rounds of the event loop.
  \<^item> \<open>Download\<close>: two complete peers and the datagrams between them, under the steps of the program (\<open>net_step\<close>:
    a datagram of the network reaches \<^verbatim>\<open>process_inbound_udp\<close>, timers of the server expire).
    \<open>Swarm\<close>: the client with any number of servers (\<open>swarm_step\<close>: requests, offers, GET, DATA and ACK, each any
    number of times, timers and requests for stalled chunks; the client takes at most one offer from each server,
    possibly of a chunk that another server was asked for), and what late packets and late offers do to a
    download; \<open>net_step\<close> is simulated by \<open>swarm_step\<close>.
    \<open>Assembly\<close>: the abstract specification of a download (\<open>assembly_step\<close>: copies of chunks are begun and packets
    added to them, the last one makes the file), which \<open>swarm_step\<close> implements by a second instance of \<open>simulation\<close>.
    \<open>SwarmRun\<close>: a run of the swarm in which the download finishes: first all handshakes, then the chunks.
  \<^item> \<open>Spiffy\<close>, \<open>BtParse\<close>, \<open>Log\<close>: the network client, the configuration and the log file.
    \<open>Console\<close>: usage, help, dump of the configuration and the debug flags. \<open>TestPrograms\<close>: the test programs, among
    them \<^verbatim>\<open>client.c\<close> and \<^verbatim>\<open>server.c\<close>, the generators of test files in \<^verbatim>\<open>src/test\<close>, and a function that nothing calls.
  \<^item> This theory: a transfer from end to end, the refinement between \<^verbatim>\<open>process_inbound_udp\<close> and
    \<open>ChunkTransfer\<close>, and the whole program.

  \<^bold>\<open>The model.\<close> A C function is a HOL function of the same name from the state it reads to the state it
  leaves. What can go wrong in C is a \<open>fault\<close>; a function that can fail returns \<open>'a res\<close>, so a theorem that
  the result is \<open>Inr\<close> is a theorem of memory safety. Integers that wrap are words; others are \<open>int\<close>.
  Strings and memory are lists of bytes. Linked lists are lists, in the order of the C list. Everything a
  call finds outside the state is an argument: the record \<open>io\<close> holds the files, the clock, \<^verbatim>\<open>rand\<close>, the bytes
  behind arrays and uninitialised memory; results of system calls are arguments of the functions that make
  them. The environment is constant during one stage of a round of the event loop.

  \<^bold>\<open>What is shown.\<close> What the code computes, as equations for every operation (\<open>Packet\<close> to \<open>Requests\<close>, \<open>Peer\<close>);
  that SHA-1 and the tool compute the digests of FIPS 180-4; that what is printed, encoded or sent is read back
  (hexadecimal strings, lists of hashes, list of peers, spiffy header); that a transfer stores exactly the
  bytes of the chunk whatever the network does, is memory safe in every reachable state and can complete;
  that two whole peers, from the request over the offer and GET to the last DATA packet, leave exactly the bytes of
  the chunk in the output file of the client, and that a run exists which gets there (\<open>Download\<close>);
  that a client which takes its chunks from several servers at once writes their concatenation, while each server is
  asked for one chunk (\<open>Swarm\<close>, which also shows how the file goes wrong otherwise); that such a download loses no
  packet again and writes its file once, with the packet that completes the last copy begun (\<open>Assembly\<close>); and that it
  can get there when there are as many servers as chunks, whose offers, taken one after the other, cover the list
  (\<open>SwarmRun\<close>);
  that the event loop keeps the invariant and never faults for the datagrams, commands and files that the code
  takes for granted; that this loop treats datagrams as the model of a transfer does; and where the code does
  not do what it means to (the properties of kind error).

  \<^bold>\<open>Bounds and fuel.\<close> \<open>sha1_update\<close> is a \<open>partial_function\<close>; that \<open>shahash\<close> returns is part of its theorem. The loop over
  lines has fuel 8192, one more than a line buffer can hold ends of lines; \<open>user_input_terminates\<close>
  shows that it is enough on every buffer. Other loops are recursive functions with termination proofs.
  A chunk has 512 packets of 1024 bytes, a packet 1200 bytes of data, the receive buffer 1500. The properties of
  the console are for reads of at most 2048 bytes and lines below that, those of congestion avoidance for windows up to
  2000 packets, where the rounded sums of \<open>Float32\<close> are bounded. The window and its bounds are \<open>int\<close>; the C \<^verbatim>\<open>int\<close>
  would overflow only with a window of \<^verbatim>\<open>2^31\<close> packets, which a session of 512 packets does not get near.

  \<^bold>\<open>Not modelled.\<close> The messages that the peer prints while it runs, failing allocations other than
  those the code tests, \<^verbatim>\<open>select\<close> itself (its result is part of an event), \<^verbatim>\<open>errno\<close>, what \<^verbatim>\<open>burnStack\<close> does to dead
  stack beyond its extent, and the drivers in Ruby and Perl in \<^verbatim>\<open>src/cp1\<close> and \<^verbatim>\<open>src/p2-tests\<close>. \<^verbatim>\<open>getopt\<close>, \<^verbatim>\<open>gethostbyname\<close> and \<^verbatim>\<open>inet_aton\<close> are arguments. Numbers in
  files are those that fit an \<^verbatim>\<open>int\<close>.
\<close>

section \<open>A chunk transfer from end to end\<close>

definition one_chunk_manager :: "int \<Rightarrow> file_manager_t" where
  "one_chunk_manager off =
     \<lparr>fm_init = True, fm_chunk_count = 1, fm_offset = Some [off], fm_top = 1, fm_timer = Some [0],
      fm_already_used = Some []\<rparr>"

lemma completed_example:
  fixes F u l st
  defines "F \<equiv> replicate 524288 0" and "u \<equiv> replicate 1500 0" and "l \<equiv> []"
    and "st \<equiv> (\<lparr>snd_list = [], wlog = []\<rparr>, [])"
  shows "\<exists>s0 s. transfer_sane F u 0 2 st l \<and> transfer_start 1 0 u 1 2 0 F st l = Inr s0 \<and>
    transfer_reach 1 2 s0 s \<and> is_buffer_full 0 (rcvr s) = 1"
proof -
  have sane: "transfer_sane F u 0 2 st l"
    by (simp add: transfer_sane_def F_def u_def l_def st_def init_recv_buffer_def tracker_ok_def)
  then obtain s0 where s0: "transfer_start 1 0 u 1 2 0 F st l = Inr s0"
    using transfer_start_result [of F u 0 2 l st 1 0 1] unfolding transfer_sane_def by auto
  obtain s where s: "transfer_reach 1 2 s0 s" "got_from 2 (rcvr s) = {..<512}"
    using transfer_completes [OF sane _ s0] by auto
  have "is_buffer_full 0 (rcvr s) = 1"
    using transfer_full_iff [OF sane s0 _ s(1)] s(2) by (simp add: l_def buffer_keys_def)
  with sane s0 s(1) show ?thesis by blast
qed

text \<open>
  C4. Whatever the network loses, duplicates, delays or reorders and whatever the timers do: when
  the receiver's buffer of a chunk is full, \<^verbatim>\<open>check_file_manager\<close> writes exactly the 524288 bytes of
  the chunk that the sender serves.
\<close>

theorem transfer_integrity:
  assumes "transfer_sane F uninit off rnode st l"
    and "transfer_start p c uninit snode rnode off F st l = Inr s0"
    and "transfer_reach snode rnode s0 s" and "is_buffer_full off (rcvr s) = 1"
  shows "\<exists>fm' l'. check_file_manager True (one_chunk_manager off) (rcvr s) =
    Inr (fm', l', Some F, 1) \<and> \<not> fm_init fm'"
proof -
  have "holds_chunk (rcvr s) off F"
    using leads_holds [OF transfer_leads transfer_fetching, OF assms(1-3) assms(1-3)] .
  then show ?thesis
    using check_file_manager_result [of "one_chunk_manager off" "[off]" "rcvr s" "[F]"] assms(4)
    by (auto simp: one_chunk_manager_def manager_offsets_def closed_manager_def)
qed

theorem transfer_integrity_witness:
  "\<exists>s fm' l'. is_buffer_full 0 (rcvr s) = 1 \<and>
     check_file_manager True (one_chunk_manager 0) (rcvr (s :: (sender_st \<times> packet_tracker_t list, _) sys)) =
       Inr (fm', l', Some (replicate 524288 0), 1)"
proof -
  obtain s0 s where s: "transfer_sane (replicate 524288 0) (replicate 1500 0) 0 2
        (\<lparr>snd_list = [], wlog = []\<rparr>, []) []"
      "transfer_start 1 0 (replicate 1500 0) 1 2 0 (replicate 524288 0)
        (\<lparr>snd_list = [], wlog = []\<rparr>, []) [] = Inr s0"
      "transfer_reach 1 2 s0 s" "is_buffer_full 0 (rcvr s) = 1"
    using completed_example by blast
  show ?thesis using transfer_integrity [OF s] s(4) by blast
qed

text \<open>
  In every reachable state of a transfer, delivering any datagram that was ever sent is memory
  safe: neither \<^verbatim>\<open>handle_ack\<close> nor \<^verbatim>\<open>recv_data\<close> accesses anything out of bounds.
\<close>

theorem transfer_no_fault:
  assumes "transfer_sane F uninit off rnode st l"
    and "transfer_start p c uninit snode rnode off F st l = Inr s0"
    and "transfer_reach snode rnode s0 s" and "env_sane e"
  shows "(\<forall>m \<in> data_net s. \<exists>x. recv_datagram rnode e m (rcvr s) = Inr x) \<and>
    (\<forall>m \<in> ack_net s. \<exists>x. ack_datagram snode e m (sndr s) = Inr x)"
  using ct.reach_no_fault [OF assms(3) transfer_start_inv [OF assms(1,2)] assms(4)] by blast

theorem transfer_no_fault_witness:
  "\<exists>s :: (sender_st \<times> packet_tracker_t list, _) sys. is_buffer_full 0 (rcvr s) = 1 \<and>
     (\<forall>m \<in> data_net s. \<exists>x. recv_datagram 2
        \<lparr>env_buf = replicate 1500 0, env_beyond = \<lambda>_. Some False\<rparr> m (rcvr s) = Inr x)"
proof -
  have e: "env_sane \<lparr>env_buf = replicate 1500 0, env_beyond = \<lambda>_. Some False\<rparr>"
    by (simp add: env_sane_def readable_def)
  obtain s0 s where s: "transfer_sane (replicate 524288 0) (replicate 1500 0) 0 2
        (\<lparr>snd_list = [], wlog = []\<rparr>, []) []"
      "transfer_start 1 0 (replicate 1500 0) 1 2 0 (replicate 524288 0)
        (\<lparr>snd_list = [], wlog = []\<rparr>, []) [] = Inr s0"
      "transfer_reach 1 2 s0 s" "is_buffer_full 0 (rcvr s) = 1"
    using completed_example by blast
  show ?thesis using transfer_no_fault [OF s(1-3) e] s(4) by blast
qed

text \<open>
  C8. The sender never marks a packet \<^verbatim>\<open>ACKED\<close> that the receiver has not stored, in any reachable
  state: the timers of a packet are only dropped once it has arrived.
\<close>

theorem acked_implies_received:
  assumes "transfer_sane F uninit off rnode st l"
    and "transfer_start p c uninit snode rnode off F st l = Inr s0"
    and "transfer_reach snode rnode s0 s"
  shows "acked_by snode (sndr s) \<subseteq> got_from rnode (rcvr s)"
  using ct.reach_acked_got [OF assms(3) transfer_start_inv [OF assms(1,2)]] .

theorem acked_implies_received_witness:
  "\<exists>s :: (sender_st \<times> packet_tracker_t list, _) sys. is_buffer_full 0 (rcvr s) = 1 \<and>
     acked_by 1 (sndr s) \<subseteq> got_from 2 (rcvr s)"
proof -
  obtain s0 s where s: "transfer_sane (replicate 524288 0) (replicate 1500 0) 0 2
        (\<lparr>snd_list = [], wlog = []\<rparr>, []) []"
      "transfer_start 1 0 (replicate 1500 0) 1 2 0 (replicate 524288 0)
        (\<lparr>snd_list = [], wlog = []\<rparr>, []) [] = Inr s0"
      "transfer_reach 1 2 s0 s" "is_buffer_full 0 (rcvr s) = 1"
    using completed_example by blast
  show ?thesis using acked_implies_received [OF s(1-3)] s(4) by blast
qed

text \<open>
  A transfer gets through: when no older buffer of the same chunk exists and the uninitialised
  \<^verbatim>\<open>prev_ack\<close> is not 0, there is a run of deliveries from the start after which the buffer is full.
  Together with \<open>transfer_integrity\<close>, the file can be completed.
\<close>

theorem transfer_can_complete:
  assumes "transfer_sane F uninit off rnode st l" and "p \<noteq> 0"
    and "transfer_start p c uninit snode rnode off F st l = Inr s0"
    and "off \<notin> snd ` set (buffer_keys l)"
  shows "\<exists>s. transfer_reach snode rnode s0 s \<and> is_buffer_full off (rcvr s) = 1"
  using transfer_completes [OF assms(1-3)] transfer_full_iff [OF assms(1,3,4)] by blast

theorem transfer_can_complete_witness:
  "\<exists>s0 s. transfer_start 1 0 (replicate 1500 0) 1 2 0 (replicate 524288 0)
       (\<lparr>snd_list = [], wlog = []\<rparr>, []) [] = Inr s0 \<and>
     transfer_reach 1 2 s0 s \<and> is_buffer_full 0 (rcvr s) = 1"
proof -
  obtain s0 where s: "transfer_sane (replicate 524288 0) (replicate 1500 0) 0 2
        (\<lparr>snd_list = [], wlog = []\<rparr>, []) []"
      "transfer_start 1 0 (replicate 1500 0) 1 2 0 (replicate 524288 0)
        (\<lparr>snd_list = [], wlog = []\<rparr>, []) [] = Inr s0"
    using completed_example by blast
  show ?thesis using transfer_can_complete [OF s(1) _ s(2)] s(2) by (auto simp: buffer_keys_def)
qed

text \<open>
  C37. A download that was interrupted cannot be repeated: while an older, incomplete buffer of the same
  chunk from another attempt is in the list, \<^verbatim>\<open>is_buffer_full\<close> denies completion in every reachable
  state of the new transfer, even when all 512 packets have arrived.
\<close>

theorem stale_buffer_blocks_completion:
  assumes "transfer_sane F uninit off rnode st l"
    and "transfer_start p c uninit snode rnode off F st l = Inr s0"
    and "transfer_reach snode rnode s0 s"
    and "old \<in> set l" and "rb_offset old = off" and "rb_total_recv old \<noteq> 524288"
  shows "is_buffer_full off (rcvr s) = -1"
proof -
  have "old \<in> set (rcvr s)"
    using transfer_tail [OF assms(1-3)] assms(4) by (metis list.set_sel(2))
  then have "is_buffer_full off (rcvr s) \<noteq> 1" using assms(5,6) by (auto simp: is_buffer_full_iff)
  then show ?thesis by (auto simp: is_buffer_full_def is_buffer_full_loop_eq split: if_splits)
qed

theorem stale_buffer_blocks_completion_witness:
  "\<exists>s. got_from 2 (rcvr (s :: (sender_st \<times> packet_tracker_t list, _) sys)) = {..<512} \<and>
     is_buffer_full 0 (rcvr s) = -1"
proof -
  let ?F = "replicate 524288 0" and ?u = "replicate 1500 0"
  let ?old = "(fresh_buffer ?u 0 3)\<lparr>rb_busy := False\<rparr>"
  let ?st = "(\<lparr>snd_list = [], wlog = []\<rparr>, [])"
  have sane: "transfer_sane ?F ?u 0 2 ?st [?old]"
    by (simp add: transfer_sane_def init_recv_buffer_def tracker_ok_def)
  then obtain s0 where s0: "transfer_start 1 0 ?u 1 2 0 ?F ?st [?old] = Inr s0"
    using transfer_start_result [of ?F ?u 0 2 "[?old]" ?st 1 0 1] unfolding transfer_sane_def by auto
  obtain s where s: "transfer_reach 1 2 s0 s" "got_from 2 (rcvr s) = {..<512}"
    using transfer_completes [OF sane _ s0] by auto
  have "is_buffer_full 0 (rcvr s) = -1"
    using stale_buffer_blocks_completion [OF sane s0 s(1), of ?old] by (simp add: fresh_buffer_def)
  with s(2) show ?thesis by blast
qed


section \<open>The peer keeps the promises of the transfer\<close>

text \<open>
  C6. What \<^verbatim>\<open>process_inbound_udp\<close> does with ACK and DATA datagrams is what the model of a chunk transfer
  says. After an ACK the sessions are those of \<open>ack_datagram\<close>, its answers go out in reverse order, the
  timers are those that it leaves with one more for every packet sent whose number is not timed yet, and
  the buffers are untouched. After a DATA packet the buffers are those of \<open>recv_datagram\<close>, but for the
  busy flags of complete chunks, which may be cleared, its answer goes out, and sessions and timers are
  untouched.
\<close>

theorem inbound_implements_transfer:
  assumes "peer_ok ms ps" and "world_ok ms (ps_config ps) io" and "arrives ms buf msg sender ps"
    and "node_of_addr sender (peers (ps_config ps)) = node" and "node \<noteq> -1"
    and "e = \<lparr>env_buf = buf, env_beyond = io_beyond io\<rparr>"
  shows "\<exists>ps' out. process_inbound_udp io buf msg sender ps = Inr (ps', out) \<and>
    (packet_type (header (from_wire buf msg)) = 4 \<longrightarrow> (\<exists>trk resp msgs.
       ack_datagram node e msg (ps_sender ps, ps_tracker ps) = Inr ((ps_sender ps', trk), msgs) \<and>
       out = map (Pair sender) (rev msgs) \<and> all_to_wire resp = Inr msgs \<and>
       timers (ps_tracker ps') = fold (timer_started node) (rev resp) (timers trk) \<and>
       ps_recv ps' = ps_recv ps)) \<and>
    (packet_type (header (from_wire buf msg)) = 3 \<longrightarrow> (\<exists>l msgs.
       recv_datagram node e msg (ps_recv ps) = Inr (l, msgs) \<and> out = map (Pair sender) msgs \<and>
       list_all2 (released l) l (ps_recv ps') \<and> ps_sender ps' = ps_sender ps \<and> ps_tracker ps' = ps_tracker ps))"
proof -
  let ?p = "build_packet_from_buf (recvfrom_into buf msg)"
  note acc = arrives_acceptable [OF assms(3-5)]
  have w: "silent (io_tracker io)" using assms(2) by (simp add: world_ok_def)
  have t: "from_wire buf msg = pkt_swap ?p" "packet_type (header (pkt_swap ?p)) = packet_type (header ?p)"
    by (simp_all add: from_wire_def pkt_swap_def hdr_swap_def)
  consider (ack) "packet_type (header ?p) = 4" | (dat) "packet_type (header ?p) = 3"
    | (other) "packet_type (header ?p) \<noteq> 4" "packet_type (header ?p) \<noteq> 3" by blast
  then show ?thesis
  proof cases
    case ack
    obtain S' trk' resp where h: "handle_packet io ?p node ps = Inr (ps\<lparr>ps_sender := S', ps_tracker := trk'\<rparr>, resp)"
        "handle_ack node (sint (ack_num (header (pkt_swap ?p)) - 1)) (ps_tracker ps) (ps_sender ps) = Inr (S', trk', resp)"
        "peer_ok ms (ps\<lparr>ps_sender := S', ps_tracker := trk'\<rparr>)" "\<forall>p \<in> set resp. good_response p"
      using ack_branch [OF assms(1) ack acc(3)] by blast
    let ?ps = "ps\<lparr>ps_sender := S', ps_tracker := trk'\<rparr>\<lparr>ps_tracker := track_all io node sender (rev resp) trk'\<rparr>"
    obtain msgs where m: "process_inbound_udp io buf msg sender ps = Inr (?ps, map (Pair sender) (rev msgs))"
        "all_to_wire resp = Inr msgs"
      using inbound_sends [OF assms(4,5) h(1,3,4) w] by auto
    have "tracker_ok trk'" "\<forall>p \<in> set (rev resp). response_ok p"
      using h(3,4) by (simp_all add: peer_ok_def tracker_sane_def good_response_def)
    then have "timers (ps_tracker ?ps) = fold (timer_started node) (rev resp) (timers trk')"
      by (simp add: track_all_timers)
    moreover have "ack_datagram node e msg (ps_sender ps, ps_tracker ps) = Inr ((ps_sender ?ps, trk'), msgs)"
      using ack h(2) t assms(6) m(2) by (simp add: ack_datagram_def)
    ultimately show ?thesis
      using ack t m by (intro exI [of _ ?ps] exI [of _ "map (Pair sender) (rev msgs)"]) fastforce
  next
    case dat
    obtain ps' l' ack off where h: "handle_packet io ?p node ps = Inr (ps', [ack_pkt ack])" "peer_ok ms ps'"
        "recv_data (io_beyond io) (pkt_swap ?p) node (ps_recv ps) = Inr (l', [ack_pkt ack], off)"
        "list_all2 (released l') l' (ps_recv ps')" "ps_sender ps' = ps_sender ps" "ps_tracker ps' = ps_tracker ps"
      using data_branch [OF assms(1,2) dat acc(2,3)] by blast
    have "\<forall>p \<in> set [ack_pkt ack]. good_response p" using ack_pkt_good by simp
    moreover have "packet_type (header (ack_pkt ack)) \<noteq> 3" by (simp add: ack_pkt_def)
    ultimately have "process_inbound_udp io buf msg sender ps = Inr (ps', [(sender, ack_msg ack)])"
      using inbound_sends [OF assms(4,5) h(1,2) _ w] to_wire_ack_pkt [of ack] by (auto simp: tracked_def)
    then show ?thesis using dat h(3-6) t assms(6) to_wire_ack_pkt by (auto simp: recv_datagram_def)
  next
    case other
    then show ?thesis using inbound_ok [OF assms(1-3)] t by auto
  qed
qed

lemma example_sender_ok: "peer_ok ms ((example_peer [] initial_manager)\<lparr>ps_sender := example_sender\<rparr>)"
  using initial_peer_ok [of ms] example_wf
  by (auto simp: peer_ok_def sessions_ok_def example_sender_def get_data_by_socket_def split: if_splits)

text \<open>The peer 7 acknowledges its first packet to a server, and sends its first packet to a client.\<close>

definition example_client :: peer_st where
  "example_client = example_peer [fresh_buffer (replicate 1500 0) 0 7] (one_chunk 0)"

lemma example_client_ok: "peer_ok [(0, replicate 20 1)] example_client"
proof -
  have "buffers_ok [fresh_buffer (replicate 1500 0) 0 7]" using fresh_buffer_ok by (simp add: buffers_ok_def)
  then show ?thesis using one_chunk_ok by (simp add: peer_ok_def example_client_def example_peer_def)
qed

lemma example_client_arrives:
  "arrives [(0, replicate 20 1)] (replicate 1500 0) (data_msg (replicate 524288 0) 0)
     \<lparr>sin_family = 2, sin_port = 1, s_addr = 16777343\<rparr> example_client"
proof -
  have "sint (word_of_int 1 :: 32 word) = 1" by simp
  moreover have "offsets_of (ps_fm example_client) = [0]" "fm_init (ps_fm example_client)"
    by (simp_all add: example_client_def example_peer_def one_chunk_def offsets_of_def manager_offsets_def)
  moreover have "get_recv_by_socket 7 (ps_recv example_client) = Some (fresh_buffer (replicate 1500 0) 0 7)"
    by (simp add: example_client_def example_peer_def get_recv_by_socket_def fresh_buffer_def)
  moreover have "node_of_addr \<lparr>sin_family = 2, sin_port = 1, s_addr = 16777343\<rparr> (peers (ps_config example_client)) = 7"
    by (simp add: node_of_addr_def example_client_def example_peer_def example_config_def)
  ultimately show ?thesis
    using from_wire_data_msg [of "replicate 524288 0" 0 "replicate 1500 0"]
    by (simp add: arrives_def acceptable_def from_wire_def host_header_def payload_len_def fresh_buffer_def)
qed

theorem inbound_implements_transfer_witness:
  "(\<exists>ps' out trk resp msgs. process_inbound_udp example_world (replicate 1500 0) (ack_msg 2)
      \<lparr>sin_family = 2, sin_port = 1, s_addr = 16777343\<rparr>
      ((example_peer [] initial_manager)\<lparr>ps_sender := example_sender\<rparr>) = Inr (ps', out) \<and>
    ack_datagram 7 \<lparr>env_buf = replicate 1500 0, env_beyond = io_beyond example_world\<rparr> (ack_msg 2)
      (example_sender, []) = Inr ((ps_sender ps', trk), msgs) \<and>
    out = map (Pair \<lparr>sin_family = 2, sin_port = 1, s_addr = 16777343\<rparr>) (rev msgs) \<and>
    all_to_wire resp = Inr msgs \<and> timers (ps_tracker ps') = fold (timer_started 7) (rev resp) (timers trk)) \<and>
   (\<exists>ps' out l msgs. process_inbound_udp example_world (replicate 1500 0) (data_msg (replicate 524288 0) 0)
      \<lparr>sin_family = 2, sin_port = 1, s_addr = 16777343\<rparr> example_client = Inr (ps', out) \<and>
    recv_datagram 7 \<lparr>env_buf = replicate 1500 0, env_beyond = io_beyond example_world\<rparr>
      (data_msg (replicate 524288 0) 0) [fresh_buffer (replicate 1500 0) 0 7] = Inr (l, msgs) \<and>
    out = map (Pair \<lparr>sin_family = 2, sin_port = 1, s_addr = 16777343\<rparr>) msgs \<and>
    list_all2 (released l) l (ps_recv ps'))"
proof (rule conjI)
  let ?a = "\<lparr>sin_family = 2, sin_port = 1, s_addr = 16777343\<rparr>" and ?ms = "[(0, replicate 20 1)] :: (nat \<times> byte list) list"
  let ?ps = "(example_peer [] initial_manager)\<lparr>ps_sender := example_sender\<rparr>"
  have n: "node_of_addr ?a (peers (ps_config ?ps)) = 7" "node_of_addr ?a (peers (ps_config example_client)) = 7"
    by (simp_all add: node_of_addr_def example_client_def example_peer_def example_config_def)
  have "ps_config ?ps = example_config\<lparr>output_file := [111]\<rparr>" "ps_config example_client = example_config\<lparr>output_file := [111]\<rparr>"
    by (simp_all add: example_client_def example_peer_def example_config_def)
  then have w: "world_ok ?ms (ps_config ?ps) example_world" "world_ok ?ms (ps_config example_client) example_world"
    using example_world_ok by metis+
  have f: "from_wire (replicate 1500 0) (ack_msg 2) = \<lparr>header = host_header 4 16 0 2, data = replicate 1484 0\<rparr>"
    by (simp add: from_wire_ack_msg)
  have "acceptable ?ms ?ps 7 (from_wire (replicate 1500 0) (ack_msg 2))"
    unfolding f by (simp add: acceptable_def host_header_def)
  then have a: "arrives ?ms (replicate 1500 0) (ack_msg 2) ?a ?ps"
    using n(1) by (simp add: arrives_def from_wire_def)
  have "packet_type (header (from_wire (replicate 1500 0) (ack_msg 2))) = 4"
    unfolding f by (simp add: host_header_def)
  then show "\<exists>ps' out trk resp msgs. process_inbound_udp example_world (replicate 1500 0) (ack_msg 2) ?a ?ps = Inr (ps', out) \<and>
      ack_datagram 7 \<lparr>env_buf = replicate 1500 0, env_beyond = io_beyond example_world\<rparr> (ack_msg 2)
        (example_sender, []) = Inr ((ps_sender ps', trk), msgs) \<and> out = map (Pair ?a) (rev msgs) \<and>
      all_to_wire resp = Inr msgs \<and> timers (ps_tracker ps') = fold (timer_started 7) (rev resp) (timers trk)"
    using inbound_implements_transfer [OF example_sender_ok w(1) a n(1) _ refl] by (fastforce simp: example_peer_def)
  have "packet_type (header (from_wire (replicate 1500 0) (data_msg (replicate 524288 0) 0))) = 3"
    using from_wire_data_msg [of "replicate 524288 0" 0 "replicate 1500 0"] by (simp add: host_header_def)
  then show "\<exists>ps' out l msgs. process_inbound_udp example_world (replicate 1500 0) (data_msg (replicate 524288 0) 0) ?a
        example_client = Inr (ps', out) \<and>
      recv_datagram 7 \<lparr>env_buf = replicate 1500 0, env_beyond = io_beyond example_world\<rparr>
        (data_msg (replicate 524288 0) 0) [fresh_buffer (replicate 1500 0) 0 7] = Inr (l, msgs) \<and>
      out = map (Pair ?a) msgs \<and> list_all2 (released l) l (ps_recv ps')"
    using inbound_implements_transfer [OF example_client_ok w(2) example_client_arrives n(2) _ refl]
    by (fastforce simp: example_client_def example_peer_def)
qed


section \<open>The whole program\<close>

text \<open>
  \<open>peer_start\<close>: \<^verbatim>\<open>peer_run\<close> up to its loop; the flags say whether the two calls of \<^verbatim>\<open>malloc\<close>, \<^verbatim>\<open>socket\<close> and
  \<^verbatim>\<open>bind\<close> succeed. The result of \<^verbatim>\<open>spiffy_init\<close> is ignored by the code. \<open>peer_main\<close>: \<^verbatim>\<open>main\<close>, with the events
  of the rounds of the loop.
\<close>

definition peer_start ::
  "(byte list \<Rightarrow> 32 word option) \<Rightarrow> byte list option \<Rightarrow> bool \<Rightarrow> bool \<Rightarrow> bool \<Rightarrow> bool \<Rightarrow> bt_config_s
     \<Rightarrow> ((peer_st \<times> user_iobuf) \<times> spiffy_st) res" where
  "peer_start inet_aton router malloc1 malloc2 socket_ok bind_ok config =
     (case create_userbuf malloc1 malloc2 of
        None \<Rightarrow> Inl Exit_Called
      | Some userbuf \<Rightarrow>
          if \<not> socket_ok then Inl Exit_Called
          else if \<not> bind_ok then Inl Exit_Called
          else rbind (spiffy_init inet_aton router (identity config) (peer_address (myport config)) initial_spiffy)
            (\<lambda>(sp, _). Inr ((initial_peer (bt_config_t.truncate config), userbuf), sp)))"

definition peer_main ::
  "(byte list \<Rightarrow> 32 word option) \<Rightarrow> files \<Rightarrow> int \<times> byte list \<times> int \<Rightarrow> (byte \<times> byte list option) list
     \<Rightarrow> (byte list \<Rightarrow> 32 word option) \<Rightarrow> byte list option \<Rightarrow> bool \<Rightarrow> bool \<Rightarrow> bool \<Rightarrow> bool \<Rightarrow> event list
     \<Rightarrow> ((peer_st \<times> user_iobuf) \<times> sent) res" where
  "peer_main gethostbyname fs stk opts inet_aton router malloc1 malloc2 socket_ok bind_ok evs =
     rbind (bt_parse_command_line gethostbyname fs stk opts bt_init 0) (\<lambda>(config, debug).
     rbind (peer_start inet_aton router malloc1 malloc2 socket_ok bind_ok config) (\<lambda>(st, sp).
     peer_run evs st))"

text \<open>
  C5. The program as a whole: if the command line is accepted and the system calls at the start succeed,
  \<^verbatim>\<open>main\<close> enters the event loop and every round of acceptable events returns, whatever the environment
  says about the router.
\<close>

theorem program_safe:
  assumes "bt_parse_command_line g fs stk opts bt_init 0 = Inr (config, debug)"
    and "create_userbuf True True = Some userbuf"
    and "events_ok ms evs (initial_peer (bt_config_t.truncate config), userbuf)"
  shows "\<exists>st' out. peer_main g fs stk opts inet_aton router True True True True evs = Inr (st', out) \<and>
    loop_ok ms st' \<and> identity config \<noteq> 0"
proof -
  obtain sp r where "spiffy_init inet_aton router (identity config) (peer_address (myport config)) initial_spiffy = Inr (sp, r)"
    using spiffy_init_returns by fastforce
  then have "peer_start inet_aton router True True True True config =
      Inr ((initial_peer (bt_config_t.truncate config), userbuf), sp)"
    using assms(2) by (simp add: peer_start_def)
  moreover obtain st' out where "peer_run evs (initial_peer (bt_config_t.truncate config), userbuf) = Inr (st', out)"
      "loop_ok ms st'"
    using run_reaches [OF start [OF assms(2)] assms(3)] reaches_ok by blast
  moreover have "identity config \<noteq> 0"
    using assms(1) by (auto simp: bt_parse_command_line_def res_simps split: if_splits option.splits)
  ultimately show ?thesis using assms(1) by (simp add: peer_main_def)
qed

theorem program_safe_witness:
  "\<exists>st' out. peer_main (\<lambda>_. Some 16777343) (\<lambda>_. Some (peers_text [Entry 1 [97] 7])) (0, [], 0)
      [(0x63, Some [104]), (0x66, Some [109]), (0x69, Some [0x31])] (\<lambda>_. None) None True True True True
      [example_event] = Inr (st', out) \<and> loop_ok [(0, replicate 20 1)] st'"
proof -
  obtain userbuf where u: "create_userbuf True True = Some userbuf" by (simp add: create_userbuf_def)
  obtain config where c: "bt_parse_command_line (\<lambda>_. Some 16777343) (\<lambda>_. Some (peers_text [Entry 1 [97] 7])) (0, [], 0)
      [(0x63, Some [104]), (0x66, Some [109]), (0x69, Some [0x31])] bt_init 0 = Inr (config, 0)"
      "chunk_file config = [109]" "has_chunk_file config = [104]"
    using example_command_line by blast
  have "chunk_file (bt_config_t.truncate config) = [109]" "has_chunk_file (bt_config_t.truncate config) = [104]"
    using c(2,3) by (simp_all add: bt_config_t.defs)
  note ev = example_events_ok [OF u this]
  show ?thesis using program_safe [OF c(1) u ev, of "\<lambda>_. None" None] by blast
qed

end
